(* ===== verification/Prelude.thy ===== *)
theory Prelude
  imports Main "HOL-Library.Word" "HOL-Library.AList"
begin

text \<open>
  Shared vocabulary of the development: Go's machine types, byte strings and their
  conversion to Go strings, the errors the code returns, the contract of the random
  source, and the generic lemmas the components share.
\<close>

unbundle bit_operations_syntax

section \<open>Machine types\<close>

type_synonym byte = "8 word"
type_synonym bytes = "byte list"
type_synonym u16 = "16 word"
type_synonym u32 = "32 word"
type_synonym u64 = "64 word"

named_theorems wire_simps \<open>facts about bytes on the wire\<close>
named_theorems sess_simps \<open>what an operation of a session leaves unchanged\<close>

text \<open>Go's \<open>int64\<close> arithmetic wraps; values are kept as \<open>int\<close> and wrapped where an
  operation of the code can leave the range.\<close>

definition wrap64 :: "int \<Rightarrow> int" where
  "wrap64 n = (n + 2 ^ 63) mod 2 ^ 64 - 2 ^ 63"

definition in_int64 :: "int \<Rightarrow> bool" where
  "in_int64 n \<longleftrightarrow> - (2 ^ 63) \<le> n \<and> n < 2 ^ 63"

lemma wrap64_id: "in_int64 n \<Longrightarrow> wrap64 n = n"
  by (simp add: wrap64_def in_int64_def)

lemma in_int64_wrap64: "in_int64 (wrap64 n)"
proof -
  have "0 \<le> (n + 2 ^ 63) mod 2 ^ 64" "(n + 2 ^ 63) mod 2 ^ 64 < (2::int) ^ 64"
    by simp_all
  then show ?thesis by (simp add: wrap64_def in_int64_def)
qed

lemma wrap64_add: "wrap64 (wrap64 a + b) = wrap64 (a + b)"
proof -
  have "wrap64 a + b + 2 ^ 63 = (a + 2 ^ 63) mod 2 ^ 64 + b"
    by (simp add: wrap64_def)
  then have "(wrap64 a + b + 2 ^ 63) mod 2 ^ 64 = (a + 2 ^ 63 + b) mod 2 ^ 64"
    by (simp only: mod_add_left_eq)
  then show ?thesis unfolding wrap64_def [of "wrap64 a + b"] wrap64_def [of "a + b"]
    by (simp add: algebra_simps)
qed

section \<open>Strings and byte slices\<close>

text \<open>A Go string is a sequence of bytes, so \<open>[]byte(s)\<close> and \<open>string(b)\<close> change the type
  and not the content.\<close>

definition bytes_of :: "string \<Rightarrow> bytes" where
  "bytes_of s = map of_char s"

definition string_of :: "bytes \<Rightarrow> string" where
  "string_of b = map (\<lambda>w. char_of (unat w)) b"

lemma of_char_bound: "(of_char c :: nat) < 256"
  using range_nat_of_char by (metis atLeastLessThan_iff rangeI)

lemma unat_of_char [simp]: "unat (of_char c :: byte) = of_char c"
proof -
  have "(of_char c :: byte) = of_nat (of_char c)"
    by (rule of_nat_of_char [symmetric])
  then show ?thesis using of_char_bound [of c]
    by (simp add: unat_of_nat take_bit_nat_eq_self)
qed

lemma string_of_bytes_of [simp]: "string_of (bytes_of s) = s"
  by (induction s) (simp_all add: string_of_def bytes_of_def)

lemma bytes_of_string_of [simp]: "bytes_of (string_of b) = b"
proof (induction b)
  case Nil
  then show ?case by (simp add: string_of_def bytes_of_def)
next
  case (Cons w b)
  have "(of_char (char_of (unat w) :: char) :: byte) = w"
  proof (rule word_unat_eq_iff [THEN iffD2])
    have "unat w < 256" using unsigned_less [of w] by simp
    then show "unat (of_char (char_of (unat w) :: char) :: byte) = unat w"
      by simp
  qed
  with Cons show ?case by (simp add: string_of_def bytes_of_def)
qed

lemma length_bytes_of [simp]: "length (bytes_of s) = length s"
  by (simp add: bytes_of_def)

section \<open>Errors\<close>

text \<open>The error values the modelled code creates or passes on. \<open>ConnFailure\<close> is an error of
  the underlying connection, \<open>RemoteError\<close> the text a peer reports, \<open>GoPanic\<close> a run-time
  panic.\<close>

datatype go_error =
    ErrClosedPipe
  | NetErrClosed
  | EOF
  | ErrUnexpectedEOF
  | ErrDeadlineExceeded
  | ConnFailure
  | RemoteError bytes
  | GoPanic

text \<open>\<open>io.ReadFull\<close> on the bytes a connection still has to deliver before its end.\<close>

definition read_full :: "nat \<Rightarrow> bytes \<Rightarrow> go_error + bytes \<times> bytes" where
  "read_full n inp =
     (if n \<le> length inp then Inr (take n inp, drop n inp)
      else Inl (if inp = [] then EOF else ErrUnexpectedEOF))"

lemma read_full_append [simp]: "n = length a \<Longrightarrow> read_full n (a @ b) = Inr (a, b)"
  by (simp add: read_full_def)

lemma read_full_length: "read_full n inp = Inr (a, b) \<Longrightarrow> length inp = n + length b"
  by (auto simp: read_full_def split: if_splits)

lemma read_full_split: "read_full n inp = Inr (a, b) \<Longrightarrow> inp = a @ b \<and> length a = n"
  by (auto simp: read_full_def split: if_splits)

section \<open>Randomness\<close>

text \<open>\<open>crypto/rand\<close> is a parameter \<open>rnd\<close>: the draw for packet \<open>pkt\<close>, position \<open>k\<close> and
  bound \<open>n\<close>. Its documented behaviour is that the draw is uniform in \<open>[0, n)\<close>; the
  development relies on the range only.\<close>

type_synonym randomness = "u32 \<Rightarrow> nat \<Rightarrow> int \<Rightarrow> int"

definition rand_ok :: "randomness \<Rightarrow> bool" where
  "rand_ok rnd \<longleftrightarrow> (\<forall>pkt k n. 0 < n \<longrightarrow> 0 \<le> rnd pkt k n \<and> rnd pkt k n < n)"

lemma rand_okD: "rand_ok rnd \<Longrightarrow> 0 < n \<Longrightarrow> 0 \<le> rnd pkt k n \<and> rnd pkt k n < n"
  by (simp add: rand_ok_def)

lemma rand_ok_zero: "rand_ok (\<lambda>_ _ _. 0)"
  by (simp add: rand_ok_def)

section \<open>Go maps as association lists\<close>

text \<open>Where the iteration order of a Go map matters it is an association list, updated and
  deleted from with the operations of the library.\<close>

lemma set_update_alist:
  "(k', w) \<in> set (AList.update k v xs) \<Longrightarrow> (k', w) = (k, v) \<or> (k', w) \<in> set xs"
  by (induction xs) (auto split: if_splits)

lemma update_nonempty: "AList.update k v xs \<noteq> []"
  by (cases xs) auto

lemma update_nonempty_sym: "[] \<noteq> AList.update k v xs"
  using update_nonempty by metis

lemma set_delete_alist: "set (AList.delete k xs) = {(k', v) \<in> set xs. k' \<noteq> k}"
  by (induction xs) auto

lemma keys_delete_alist: "fst ` set (AList.delete k xs) = fst ` set xs - {k}"
  by (auto simp: set_delete_alist image_iff)

lemma update_fresh: "k \<notin> fst ` set xs \<Longrightarrow> AList.update k v xs = xs @ [(k, v)]"
  by (induction xs) auto

lemma distinct_map_filter: "distinct (map f c) \<Longrightarrow> distinct (map f (filter P c))"
  by (induction c) auto

end
