(* ===== verification/Frame.thy ===== *)
theory Frame
  imports Prelude
begin

text \<open>
  The frame format of \<^verbatim>\<open>proxy/session/frame.go\<close> and the encoding that
  \<^verbatim>\<open>writeDataFrame\<close> and \<^verbatim>\<open>writeControlFrame\<close> of
  \<^verbatim>\<open>proxy/session/session.go\<close> share: a header of seven bytes (command, stream id,
  data length, big endian) and the data. The length field has 16 bits and takes
  \<open>uint16(len(data))\<close>, so the encoding is faithful for data below 64 KiB only.
\<close>

section \<open>Commands\<close>

definition cmdWaste :: byte where "cmdWaste = 0"
definition cmdSYN :: byte where "cmdSYN = 1"
definition cmdPSH :: byte where "cmdPSH = 2"
definition cmdFIN :: byte where "cmdFIN = 3"
definition cmdSettings :: byte where "cmdSettings = 4"
definition cmdAlert :: byte where "cmdAlert = 5"
definition cmdUpdatePaddingScheme :: byte where "cmdUpdatePaddingScheme = 6"
definition cmdSYNACK :: byte where "cmdSYNACK = 7"
definition cmdHeartRequest :: byte where "cmdHeartRequest = 8"
definition cmdHeartResponse :: byte where "cmdHeartResponse = 9"
definition cmdServerSettings :: byte where "cmdServerSettings = 10"

lemmas cmd_defs = cmdWaste_def cmdSYN_def cmdPSH_def cmdFIN_def cmdSettings_def cmdAlert_def
  cmdUpdatePaddingScheme_def cmdSYNACK_def cmdHeartRequest_def cmdHeartResponse_def
  cmdServerSettings_def

definition headerOverHeadSize :: nat where
  "headerOverHeadSize = 1 + 4 + 2"

lemma headerOverHeadSize_eq [simp]: "headerOverHeadSize = 7"
  by (simp add: headerOverHeadSize_def)

section \<open>Big endian integers\<close>

text \<open>\<open>binary.BigEndian.PutUint16\<close>, \<open>PutUint32\<close> and their readers.\<close>

definition put_u16 :: "u16 \<Rightarrow> bytes" where
  "put_u16 w = [ucast (drop_bit 8 w), ucast w]"

definition put_u32 :: "u32 \<Rightarrow> bytes" where
  "put_u32 w = [ucast (drop_bit 24 w), ucast (drop_bit 16 w), ucast (drop_bit 8 w), ucast w]"

definition get_u16 :: "bytes \<Rightarrow> u16" where
  "get_u16 b = (push_bit 8 (ucast (b ! 0)) OR ucast (b ! 1))"

definition get_u32 :: "bytes \<Rightarrow> u32" where
  "get_u32 b = (push_bit 24 (ucast (b ! 0)) OR push_bit 16 (ucast (b ! 1))
                OR push_bit 8 (ucast (b ! 2)) OR ucast (b ! 3))"

lemma length_put_u16 [simp]: "length (put_u16 w) = 2"
  by (simp add: put_u16_def)

lemma length_put_u32 [simp]: "length (put_u32 w) = 4"
  by (simp add: put_u32_def)

lemma byte_offset: "k \<le> n \<Longrightarrow> n < k + 8 \<Longrightarrow> \<exists>m<8. n = k + (m::nat)"
  by (rule exI [of _ "n - k"]) auto

lemma get_put_u16 [wire_simps]: "get_u16 (put_u16 w @ rest) = w"
proof (rule bit_word_eqI)
  fix n assume "n < LENGTH(16)"
  then consider "n < 8" | m where "m < 8" "n = 8 + m"
    using byte_offset [of 8 n] by (cases "n < 8") auto
  then show "bit (get_u16 (put_u16 w @ rest)) n = bit w n"
    by cases (simp_all add: get_u16_def put_u16_def bit_simps)
qed

lemma put_get_u16: "put_u16 (get_u16 [x, y]) = [x, y]"
proof -
  have "(ucast (drop_bit 8 (get_u16 [x, y])) :: byte) = x"
    by (rule bit_word_eqI) (auto simp: get_u16_def bit_simps dest: bit_imp_le_length)
  moreover have "(ucast (get_u16 [x, y]) :: byte) = y"
    by (rule bit_word_eqI) (auto simp: get_u16_def bit_simps dest: bit_imp_le_length)
  ultimately show ?thesis by (simp add: put_u16_def)
qed

lemma get_put_u32 [wire_simps]: "get_u32 (put_u32 w @ rest) = w"
proof (rule bit_word_eqI)
  fix n assume "n < LENGTH(32)"
  then consider "n < 8" | m where "m < 8" "n = 8 + m" | m where "m < 8" "n = 16 + m"
    | m where "m < 8" "n = 24 + m"
    using byte_offset [of 8 n] byte_offset [of 16 n] byte_offset [of 24 n]
    by (cases "n < 8"; cases "n < 16"; cases "n < 24") auto
  then show "bit (get_u32 (put_u32 w @ rest)) n = bit w n"
    by cases (simp_all add: get_u32_def put_u32_def bit_simps)
qed

section \<open>Frames\<close>

record frame =
  cmd :: byte
  sid :: u32
  data :: bytes

definition newFrame :: "byte \<Rightarrow> u32 \<Rightarrow> frame" where
  "newFrame c s = \<lparr>cmd = c, sid = s, data = []\<rparr>"

text \<open>The bytes \<open>writeDataFrame\<close> and \<open>writeControlFrame\<close> put into their buffer.\<close>

definition encode :: "byte \<Rightarrow> u32 \<Rightarrow> bytes \<Rightarrow> bytes" where
  "encode c s d = c # put_u32 s @ put_u16 (of_nat (length d)) @ d"

definition encode_frame :: "frame \<Rightarrow> bytes" where
  "encode_frame f = encode (cmd f) (sid f) (data f)"

text \<open>\<open>rawHeader\<close> and its accessors.\<close>

type_synonym rawHeader = bytes

definition hdr_Cmd :: "rawHeader \<Rightarrow> byte" where
  "hdr_Cmd h = h ! 0"

definition hdr_StreamID :: "rawHeader \<Rightarrow> u32" where
  "hdr_StreamID h = get_u32 (drop 1 h)"

definition hdr_Length :: "rawHeader \<Rightarrow> u16" where
  "hdr_Length h = get_u16 (drop 5 h)"

lemma length_encode [simp]: "length (encode c s d) = 7 + length d"
  by (simp add: encode_def)

text \<open>Reading the header back from an encoding.\<close>

definition header :: "byte \<Rightarrow> u32 \<Rightarrow> nat \<Rightarrow> bytes" where
  "header c s n = c # put_u32 s @ put_u16 (of_nat n)"

lemma length_header [simp]: "length (header c s n) = 7"
  by (simp add: header_def)

lemma encode_header: "encode c s d = header c s (length d) @ d"
  by (simp add: encode_def header_def)

lemma hdr_Cmd_header [wire_simps]: "hdr_Cmd (header c s n) = c"
  by (simp add: hdr_Cmd_def header_def)

lemma hdr_StreamID_header [wire_simps]: "hdr_StreamID (header c s n) = s"
  by (simp add: hdr_StreamID_def header_def get_put_u32)

lemma hdr_Length_header [wire_simps]: "hdr_Length (header c s n) = of_nat n"
proof -
  have "drop 5 (header c s n) = put_u16 (of_nat n) @ []"
    by (simp add: header_def put_u32_def)
  then show ?thesis by (simp only: hdr_Length_def get_put_u16)
qed

lemma unat_hdr_Length_header:
  "unat (hdr_Length (header c s n)) = n mod 2 ^ 16"
  by (simp add: hdr_Length_header unat_of_nat take_bit_eq_mod)

end
