(* ===== verification/StringMap.thy ===== *)
theory StringMap
  imports GoStrings "HOL-Library.Multiset"
begin

text \<open>
  \<^verbatim>\<open>util/string_map.go\<close>: the \<open>key=value\<close> lines that settings and padding schemes
  are written in. A \<open>StringMap\<close> is an association list without duplicate keys, most recent
  binding per key; the order of \<open>range\<close> over the Go map is not specified, so \<open>ToBytes\<close>
  takes the order in which the entries come as its argument.
\<close>

type_synonym string_map = "(string \<times> string) list"

text \<open>\<open>m[k]\<close>: the empty string where the key is absent.\<close>

definition sm_get :: "string_map \<Rightarrow> string \<Rightarrow> string" where
  "sm_get m k = (case map_of m k of None \<Rightarrow> '''' | Some v \<Rightarrow> v)"

text \<open>\<open>m[k] = v\<close>.\<close>

fun sm_put :: "string \<Rightarrow> string \<Rightarrow> string_map \<Rightarrow> string_map" where
  "sm_put k v [] = [(k, v)]"
| "sm_put k v ((k', v') # m) = (if k = k' then (k, v) # m else (k', v') # sm_put k v m)"

definition put_line :: "string \<Rightarrow> string_map \<Rightarrow> string_map" where
  "put_line line m =
     (case split_two CHR ''='' line of [k, v] \<Rightarrow> sm_put k v m | _ \<Rightarrow> m)"

definition StringMapFromBytes :: "bytes \<Rightarrow> string_map" where
  "StringMapFromBytes b = fold put_line (split_on CHR ''\<newline>'' (string_of b)) []"

definition ToBytes :: "string_map \<Rightarrow> bytes" where
  "ToBytes entries = bytes_of (join CHR ''\<newline>'' (map (\<lambda>(k, v). k @ CHR ''='' # v) entries))"

section \<open>The map the entries stand for\<close>

lemma map_of_sm_put [simp]: "map_of (sm_put k v m) = (map_of m)(k \<mapsto> v)"
  by (induction m) auto

lemma dom_sm_put [simp]: "fst ` set (sm_put k v m) = insert k (fst ` set m)"
  by (induction k v m rule: sm_put.induct) (simp_all add: insert_commute)

lemma distinct_sm_put: "distinct (map fst m) \<Longrightarrow> distinct (map fst (sm_put k v m))"
proof (induction k v m rule: sm_put.induct)
  case (2 k v k' v' m)
  then show ?case by simp
qed simp

lemma put_line_entry: "CHR ''='' \<notin> set k \<Longrightarrow> put_line (k @ CHR ''='' # v) m = sm_put k v m"
  by (simp add: put_line_def split_two_sep)

lemma distinct_put_line: "distinct (map fst m) \<Longrightarrow> distinct (map fst (put_line l m))"
  by (auto simp: put_line_def distinct_sm_put split: list.splits)

lemma distinct_fold_put_line:
  "distinct (map fst m) \<Longrightarrow> distinct (map fst (fold put_line ls m))"
  by (induction ls arbitrary: m) (auto simp: distinct_put_line)

lemma distinct_StringMapFromBytes: "distinct (map fst (StringMapFromBytes b))"
  by (simp add: StringMapFromBytes_def distinct_fold_put_line)

text \<open>Keys and values the format can carry: no separator in a key, no newline at all.\<close>

definition sm_plain :: "string_map \<Rightarrow> bool" where
  "sm_plain m \<longleftrightarrow>
     (\<forall>(k, v) \<in> set m. CHR ''='' \<notin> set k \<and> CHR ''\<newline>'' \<notin> set k \<and> CHR ''\<newline>'' \<notin> set v)"

lemma fold_put_line_entries:
  "sm_plain es \<Longrightarrow>
   map_of (fold put_line (map (\<lambda>(k, v). k @ CHR ''='' # v) es) m) = map_of m ++ map_of (rev es)"
  by (induction es arbitrary: m) (auto simp: sm_plain_def put_line_entry)

lemma map_of_rev_distinct: "distinct (map fst es) \<Longrightarrow> map_of (rev es) = map_of es"
proof (rule map_of_inject_set [THEN iffD2])
qed (simp_all flip: rev_map)

text \<open>Whatever order the entries of a map are written in, reading the
  bytes gives the same map back.\<close>

lemma StringMap_roundtrip_aux:
  assumes "distinct (map fst es)" and "sm_plain es"
  shows "map_of (StringMapFromBytes (ToBytes es)) = map_of es"
proof (cases es)
  case Nil
  then show ?thesis
    by (simp add: StringMapFromBytes_def ToBytes_def put_line_def split_two_def)
next
  case (Cons e es')
  let ?ls = "map (\<lambda>(k, v). k @ CHR ''='' # v) es"
  have "split_on CHR ''\<newline>'' (join CHR ''\<newline>'' ?ls) = ?ls"
    using assms(2) Cons by (intro split_on_join) (auto simp: sm_plain_def)
  with assms show ?thesis
    by (simp add: StringMapFromBytes_def ToBytes_def fold_put_line_entries map_of_rev_distinct)
qed


section \<open>Claims\<close>

text \<open>Settings and schemes survive the round trip through bytes, whatever order the
  entries of the map are written in, as long as no key holds a separator and nothing holds a
  newline; a value may contain \<open>=\<close>.\<close>

lemma StringMap_roundtrip:
  assumes "distinct (map fst m)" and "sm_plain m" and "mset order = mset m"
  shows "map_of (StringMapFromBytes (ToBytes order)) = map_of m
    \<and> distinct (map fst (StringMapFromBytes (ToBytes order)))"
proof -
  have s: "set order = set m" using assms(3) by (metis set_mset_mset)
  have d: "distinct (map fst order)"
    using assms(1,3) by (metis mset_eq_imp_distinct_iff mset_map)
  have "map_of (StringMapFromBytes (ToBytes order)) = map_of order"
    using assms(2) s by (intro StringMap_roundtrip_aux d) (simp add: sm_plain_def)
  also have "\<dots> = map_of m"
    using d assms(1) s by (simp add: map_of_inject_set)
  finally show ?thesis by (simp add: distinct_StringMapFromBytes)
qed

end
