(* ===== verification/Padding.thy ===== *)
theory Padding
  imports StringMap
begin

text \<open>
  \<^verbatim>\<open>proxy/padding/padding.go\<close>: the padding scheme, its parser, the process-wide
  factory and the sizes a scheme asks for. The digest \<open>md5\<close> (hex of \<open>crypto/md5\<close>) is an
  argument: the code only compares digests for equality. The random source is the argument
  \<open>rnd\<close> of the prelude.
\<close>

definition CheckMark :: int where
  "CheckMark = -1"

definition defaultPaddingScheme :: bytes where
  "defaultPaddingScheme = bytes_of
     (''stop=8'' @ CHR ''\<newline>'' # ''0=30-30'' @ CHR ''\<newline>'' # ''1=100-400'' @ CHR ''\<newline>'' #
      ''2=400-500,c,500-1000,c,500-1000,c,500-1000,c,500-1000'' @ CHR ''\<newline>'' #
      ''3=9-9,500-1000'' @ CHR ''\<newline>'' # ''4=500-1000'' @ CHR ''\<newline>'' #
      ''5=500-1000'' @ CHR ''\<newline>'' # ''6=500-1000'' @ CHR ''\<newline>'' # ''7=500-1000'')"

record PaddingFactory =
  scheme :: string_map
  RawScheme :: bytes
  Stop :: u32
  Md5 :: string

definition NewPaddingFactory :: "(bytes \<Rightarrow> string) \<Rightarrow> bytes \<Rightarrow> PaddingFactory option" where
  "NewPaddingFactory md5 rawScheme =
     (let sch = StringMapFromBytes rawScheme
      in if sch = [] then None
         else (case atoi (sm_get sch ''stop'') of
                 None \<Rightarrow> None
               | Some stop \<Rightarrow>
                   Some \<lparr>scheme = sch, RawScheme = rawScheme, Stop = word_of_int stop,
                         Md5 = md5 rawScheme\<rparr>))"

text \<open>\<open>UpdatePaddingScheme\<close> stores into the cell \<open>DefaultPaddingFactory\<close>; the cell is passed
  in and returned.\<close>

definition UpdatePaddingScheme ::
    "(bytes \<Rightarrow> string) \<Rightarrow> bytes \<Rightarrow> PaddingFactory \<Rightarrow> PaddingFactory \<times> bool" where
  "UpdatePaddingScheme md5 rawScheme cell =
     (case NewPaddingFactory md5 rawScheme of
        Some p \<Rightarrow> (p, True)
      | None \<Rightarrow> (cell, False))"

text \<open>\<open>init\<close>: what the cell holds once the package is initialised, if the built-in scheme
  is accepted.\<close>

definition padding_init :: "(bytes \<Rightarrow> string) \<Rightarrow> PaddingFactory option" where
  "padding_init md5 = NewPaddingFactory md5 defaultPaddingScheme"

section \<open>The sizes of a packet\<close>

text \<open>One comma separated item: nothing where the code continues, the size it appends
  otherwise. \<open>draw n\<close> is the random number below \<open>n\<close>.\<close>

definition range_size :: "(int \<Rightarrow> int) \<Rightarrow> string \<Rightarrow> int option" where
  "range_size draw sRange =
     (case split_on CHR ''-'' sRange of
        [lo, hi] \<Rightarrow>
          (case parse_int lo of
             None \<Rightarrow> None
           | Some a \<Rightarrow>
               (case parse_int hi of
                  None \<Rightarrow> None
                | Some b \<Rightarrow>
                    (let mn = min a b; mx = max a b
                     in if mn \<le> 0 \<or> mx \<le> 0 then None
                        else if mn = mx then Some mn
                        else Some (draw (mx - mn) + mn))))
      | _ \<Rightarrow> if sRange = ''c'' then Some CheckMark else None)"

fun range_sizes :: "(nat \<Rightarrow> int \<Rightarrow> int) \<Rightarrow> nat \<Rightarrow> string list \<Rightarrow> int list" where
  "range_sizes draw k [] = []"
| "range_sizes draw k (r # rs) =
     (case range_size (draw k) r of
        None \<Rightarrow> range_sizes draw (Suc k) rs
      | Some l \<Rightarrow> l # range_sizes draw (Suc k) rs)"

definition GenerateRecordPayloadSizes :: "randomness \<Rightarrow> PaddingFactory \<Rightarrow> u32 \<Rightarrow> int list" where
  "GenerateRecordPayloadSizes rnd p pkt =
     (case map_of (scheme p) (itoa (uint pkt)) of
        None \<Rightarrow> []
      | Some s \<Rightarrow> range_sizes (rnd pkt) 0 (split_on CHR '','' s))"

section \<open>Which sizes a scheme allows\<close>

text \<open>The interval an item names, its ends in order.\<close>

definition item_interval :: "string \<Rightarrow> (int \<times> int) option" where
  "item_interval r =
     (case split_on CHR ''-'' r of
        [lo, hi] \<Rightarrow>
          (case (parse_int lo, parse_int hi) of
             (Some a, Some b) \<Rightarrow> Some (min a b, max a b)
           | _ \<Rightarrow> None)
      | _ \<Rightarrow> None)"

text \<open>An item allows a check mark if it is \<open>c\<close>, and the sizes of its interval if that is
  positive: the upper end is excluded, unless the interval is a point.\<close>

definition item_allows :: "string \<Rightarrow> int \<Rightarrow> bool" where
  "item_allows r l \<longleftrightarrow>
     (r = ''c'' \<and> l = CheckMark) \<or>
     (case item_interval r of
        None \<Rightarrow> False
      | Some (mn, mx) \<Rightarrow> 0 < mn \<and> mn \<le> l \<and> (l < mx \<or> l = mn \<and> mn = mx))"

text \<open>What a size can be: a check mark, or positive and an \<open>int64\<close>.\<close>

definition size_ok :: "int \<Rightarrow> bool" where
  "size_ok l \<longleftrightarrow> l = CheckMark \<or> (0 < l \<and> in_int64 l)"

lemma item_interval_range:
  "item_interval r = Some (mn, mx) \<Longrightarrow> mn \<le> mx \<and> in_int64 mn \<and> in_int64 mx"
  by (auto simp: item_interval_def min_def max_def split: list.splits option.splits
      dest!: parse_int_range)

lemma range_size_interval:
  "item_interval r = Some (mn, mx) \<Longrightarrow>
   range_size draw r =
     (if mn \<le> 0 then None else if mn = mx then Some mn else Some (draw (mx - mn) + mn))"
  by (auto simp: item_interval_def range_size_def Let_def split: list.splits option.splits)

lemma range_size_no_interval:
  "item_interval r = None \<Longrightarrow>
   range_size draw r = (if r = ''c'' then Some CheckMark else None)"
  by (auto simp: item_interval_def range_size_def Let_def split: list.splits option.splits)

lemma range_size_allows:
  assumes "\<And>n. 0 < n \<Longrightarrow> 0 \<le> draw n \<and> draw n < n" and "range_size draw r = Some l"
  shows "item_allows r l"
proof (cases "item_interval r")
  case None
  with assms(2) show ?thesis
    by (simp add: range_size_no_interval item_allows_def split: if_splits)
next
  case (Some i)
  obtain mn mx where i: "item_interval r = Some (mn, mx)" using Some by (cases i) auto
  note iv = item_interval_range [OF i]
  from iv assms(1) [of "mx - mn"] assms(2) i show ?thesis
    by (auto simp: range_size_interval item_allows_def split: if_splits)
qed

lemma range_sizes_allows:
  assumes "\<And>k n. 0 < n \<Longrightarrow> 0 \<le> draw k n \<and> draw k n < n"
  shows "l \<in> set (range_sizes draw k rs) \<Longrightarrow> \<exists>r \<in> set rs. item_allows r l"
proof (induction rs arbitrary: k)
  case (Cons r rs)
  have "range_size (draw k) r = Some l \<Longrightarrow> item_allows r l"
    using assms by (rule range_size_allows)
  with Cons show ?case by (fastforce split: option.splits)
qed simp

lemma item_allows_ok: "item_allows r l \<Longrightarrow> size_ok l"
  by (auto simp: item_allows_def size_ok_def in_int64_def
      split: option.splits dest!: item_interval_range)

lemma sizes_in_scheme_aux:
  assumes "rand_ok rnd" and "l \<in> set (GenerateRecordPayloadSizes rnd p pkt)"
  shows "\<exists>s r. map_of (scheme p) (itoa (uint pkt)) = Some s \<and> r \<in> set (split_on CHR '','' s)
           \<and> item_allows r l"
proof -
  from assms(2) obtain s where s: "map_of (scheme p) (itoa (uint pkt)) = Some s"
    and l: "l \<in> set (range_sizes (rnd pkt) 0 (split_on CHR '','' s))"
    by (cases "map_of (scheme p) (itoa (uint pkt))") (auto simp: GenerateRecordPayloadSizes_def)
  have "\<exists>r \<in> set (split_on CHR '','' s). item_allows r l"
    using rand_okD [OF assms(1)] l by (rule range_sizes_allows)
  with s show ?thesis by blast
qed

lemma sizes_ok:
  "rand_ok rnd \<Longrightarrow> list_all size_ok (GenerateRecordPayloadSizes rnd p pkt)"
  using sizes_in_scheme_aux item_allows_ok by (fastforce simp: list_all_iff)

section \<open>The factory cell\<close>

lemma NewPaddingFactory_Some:
  "NewPaddingFactory md5 raw = Some p \<longleftrightarrow>
   (\<exists>stop. atoi (sm_get (StringMapFromBytes raw) ''stop'') = Some stop \<and>
      p = \<lparr>scheme = StringMapFromBytes raw, RawScheme = raw, Stop = word_of_int stop,
           Md5 = md5 raw\<rparr>)"
  by (auto simp: NewPaddingFactory_def Let_def sm_get_def atoi_def parse_int_def
      split: option.splits)


text \<open>A factory is what its own raw text parses to, if it was made by the parser.\<close>

lemma NewPaddingFactory_raw:
  "NewPaddingFactory md5 raw = Some p \<Longrightarrow> RawScheme p = raw \<and> Md5 p = md5 raw
    \<and> NewPaddingFactory md5 (RawScheme p) = Some p"
  by (auto simp: NewPaddingFactory_Some)

section \<open>Claims\<close>

text \<open>Every size the generator returns for a packet is allowed by an item of the scheme's
  entry for that packet: it is the check mark of an item \<open>c\<close>, or it lies in the item's interval
  \<open>[min, max)\<close> (in the point itself when both ends agree), whatever is drawn.\<close>

lemma sizes_in_scheme:
  assumes "rand_ok rnd" and "l \<in> set (GenerateRecordPayloadSizes rnd p pkt)"
  shows "\<exists>s r. map_of (scheme p) (itoa (uint pkt)) = Some s \<and> r \<in> set (split_on CHR '','' s)
           \<and> item_allows r l"
  using assms by (rule sizes_in_scheme_aux)

definition sample_factory :: PaddingFactory where
  "sample_factory = \<lparr>scheme = [(''1'', ''c,5-9'')], RawScheme = bytes_of ''1=c,5-9'', Stop = 4,
     Md5 = ''''\<rparr>"

text \<open>The built-in scheme is accepted when the package is initialised, stops at packet 8, asks
  for one record of 30 bytes of padding in the authentication, for five records with a check
  mark between two of them in packet 2 (first below 500, the others below 1000), and for nothing
  from packet 8 on.\<close>

lemma default_scheme:
  "\<exists>p. padding_init md5 = Some p \<and> Stop p = 8
     \<and> GenerateRecordPayloadSizes rnd p 0 = [30]
     \<and> GenerateRecordPayloadSizes rnd p 2 =
         [rnd 2 0 100 + 400, CheckMark, rnd 2 2 500 + 500, CheckMark, rnd 2 4 500 + 500, CheckMark,
          rnd 2 6 500 + 500, CheckMark, rnd 2 8 500 + 500]
     \<and> GenerateRecordPayloadSizes rnd p 8 = []"
proof -
  have "map_option (\<lambda>p. (Stop p, GenerateRecordPayloadSizes rnd p 0,
      GenerateRecordPayloadSizes rnd p 2, GenerateRecordPayloadSizes rnd p 8)) (padding_init md5)
    = Some (8, [30],
         [rnd 2 0 100 + 400, CheckMark, rnd 2 2 500 + 500, CheckMark, rnd 2 4 500 + 500, CheckMark,
          rnd 2 6 500 + 500, CheckMark, rnd 2 8 500 + 500], [])"
    by code_simp
  then show ?thesis by (cases "padding_init md5") auto
qed

end
