(* ===== verification/Pipe.thy ===== *)
theory Pipe
  imports Prelude
begin

text \<open>
  \<^verbatim>\<open>proxy/pipe/io_pipe.go\<close>, the state a pipe's two halves share and the operations
  on it that do not block: the once-only errors, the two closings and the error each side
  sees afterwards. \<open>p_delivered\<close> records the bytes the pipe has handed to its reader.
\<close>

section \<open>onceError\<close>

type_synonym onceError = "go_error option"

definition once_Store :: "onceError \<Rightarrow> go_error \<Rightarrow> onceError" where
  "once_Store a err = (case a of None \<Rightarrow> Some err | Some _ \<Rightarrow> a)"

definition once_Load :: "onceError \<Rightarrow> go_error option" where
  "once_Load a = a"

lemma once_Store_keeps: "once_Store (once_Store a e) e' = once_Store a e"
  by (simp add: once_Store_def split: option.splits)

section \<open>The shared pipe\<close>

record pipe =
  p_done :: bool
  rerr :: onceError
  werr :: onceError
  p_delivered :: bytes

definition newPipe :: pipe where
  "newPipe = \<lparr>p_done = False, rerr = None, werr = None, p_delivered = []\<rparr>"

definition closeRead :: "go_error option \<Rightarrow> pipe \<Rightarrow> pipe" where
  "closeRead err p =
     p\<lparr>rerr := once_Store (rerr p) (case err of None \<Rightarrow> ErrClosedPipe | Some e \<Rightarrow> e),
       p_done := True\<rparr>"

definition closeWrite :: "go_error option \<Rightarrow> pipe \<Rightarrow> pipe" where
  "closeWrite err p =
     p\<lparr>werr := once_Store (werr p) (case err of None \<Rightarrow> EOF | Some e \<Rightarrow> e),
       p_done := True\<rparr>"

text \<open>The closings of the two halves; both return no error.\<close>

definition PipeReader_CloseWithError :: "go_error option \<Rightarrow> pipe \<Rightarrow> pipe" where
  [simp]: "PipeReader_CloseWithError err p = closeRead err p"

definition PipeReader_Close :: "pipe \<Rightarrow> pipe" where
  [simp]: "PipeReader_Close p = PipeReader_CloseWithError None p"

definition PipeWriter_CloseWithError :: "go_error option \<Rightarrow> pipe \<Rightarrow> pipe" where
  [simp]: "PipeWriter_CloseWithError err p = closeWrite err p"

definition PipeWriter_Close :: "pipe \<Rightarrow> pipe" where
  [simp]: "PipeWriter_Close p = PipeWriter_CloseWithError None p"

definition readCloseError :: "pipe \<Rightarrow> go_error" where
  "readCloseError p =
     (case (once_Load (rerr p), once_Load (werr p)) of
        (None, Some e) \<Rightarrow> e
      | _ \<Rightarrow> ErrClosedPipe)"

definition writeCloseError :: "pipe \<Rightarrow> go_error" where
  "writeCloseError p =
     (case (once_Load (werr p), once_Load (rerr p)) of
        (None, Some e) \<Rightarrow> e
      | _ \<Rightarrow> ErrClosedPipe)"

text \<open>\<open>PipeWriter.Write\<close> as its caller sees it when no deadline is set on the write half and
  a reader takes the bytes: it returns at once with the close error on a closed pipe, and
  otherwise after every byte has been handed over.\<close>

definition pipe_Write :: "bytes \<Rightarrow> pipe \<Rightarrow> pipe \<times> nat \<times> go_error option" where
  "pipe_Write b p =
     (if p_done p then (p, 0, Some (writeCloseError p))
      else (p\<lparr>p_delivered := p_delivered p @ b\<rparr>, length b, None))"

lemma closeRead_done [simp]: "p_done (closeRead e p)"
  by (simp add: closeRead_def)

lemma closeRead_delivered [simp]: "p_delivered (closeRead e p) = p_delivered p"
  by (simp add: closeRead_def)

lemma pipe_Write_open:
  "\<not> p_done p \<Longrightarrow> p_delivered (fst (pipe_Write b p)) = p_delivered p @ b"
  by (simp add: pipe_Write_def)

lemma pipe_Write_closed: "p_done p \<Longrightarrow> fst (pipe_Write b p) = p"
  by (simp add: pipe_Write_def)

lemma pipe_Write_done [simp]: "p_done (fst (pipe_Write b p)) = p_done p"
  by (simp add: pipe_Write_def)

end
