(* ===== verification/Deadline.thy ===== *)
theory Deadline
  imports Prelude
begin

text \<open>
  \<^verbatim>\<open>proxy/pipe/deadline.go\<close>: a deadline that can be set again. A channel is a number and
  closed or not; the runtime's timer is a state. The mutex makes \<open>Set\<close> and \<open>Wait\<close> atomic; the timer's
  callback runs outside it, between any two of them.
\<close>

text \<open>The outcome of a call: it returns, it blocks in this state, or it panics.\<close>

datatype 'a go = Returns 'a | Blocks | Panics

text \<open>No timer; one that runs; one that has fired, its callback not yet run; one whose callback ran.\<close>

datatype timer = NoTimer | Running | Fired | Ran

record deadline =
  timer :: timer
  cancel :: nat
  closed_chans :: "nat set"
  next_chan :: nat

definition MakePipeDeadline :: deadline where
  "MakePipeDeadline = \<lparr>timer = NoTimer, cancel = 0, closed_chans = {}, next_chan = 1\<rparr>"

definition isClosedChan :: "nat \<Rightarrow> deadline \<Rightarrow> bool" where
  "isClosedChan ch d \<longleftrightarrow> ch \<in> closed_chans d"

definition make_chan :: "deadline \<Rightarrow> deadline" where
  "make_chan d = d\<lparr>cancel := next_chan d, next_chan := Suc (next_chan d)\<rparr>"

text \<open>\<open>close(d.cancel)\<close> panics on a closed channel.\<close>

definition close_cancel :: "deadline \<Rightarrow> deadline go" where
  "close_cancel d =
     (if isClosedChan (cancel d) d then Panics
      else Returns (d\<lparr>closed_chans := insert (cancel d) (closed_chans d)\<rparr>))"

text \<open>The time given to \<open>Set\<close>: the zero value, one in the future, or one that has passed.\<close>

datatype set_time = Never | Later | Past

text \<open>\<open>Stop\<close> returns true only on a timer that still runs; after that the receive waits for the
  callback.\<close>

definition deadline_Set :: "set_time \<Rightarrow> deadline \<Rightarrow> deadline go" where
  "deadline_Set t d0 =
     (if timer d0 \<in> {Fired, Ran} \<and> \<not> isClosedChan (cancel d0) d0 then Blocks
      else
        (let d = d0\<lparr>timer := NoTimer\<rparr>;
             was_closed = isClosedChan (cancel d) d
         in case t of
              Never \<Rightarrow> Returns (if was_closed then make_chan d else d)
            | Later \<Rightarrow> Returns ((if was_closed then make_chan d else d)\<lparr>timer := Running\<rparr>)
            | Past \<Rightarrow> if \<not> was_closed then close_cancel d else Returns d))"

definition deadline_Wait :: "deadline \<Rightarrow> nat" where
  "deadline_Wait d = cancel d"

text \<open>The callback of \<open>time.AfterFunc\<close>.\<close>

definition timer_callback :: "deadline \<Rightarrow> deadline go" where
  "timer_callback d = (case close_cancel d of Returns d' \<Rightarrow> Returns (d'\<lparr>timer := Ran\<rparr>) | r \<Rightarrow> r)"

inductive deadline_step :: "deadline \<Rightarrow> deadline \<Rightarrow> bool" where
  set: "deadline_Set t d = Returns d' \<Longrightarrow> deadline_step d d'"
| fire: "timer d = Running \<Longrightarrow> deadline_step d (d\<lparr>timer := Fired\<rparr>)"
| callback: "timer d = Fired \<Longrightarrow> timer_callback d = Returns d' \<Longrightarrow> deadline_step d d'"

inductive deadline_reach :: "deadline \<Rightarrow> bool" where
  start: "deadline_reach MakePipeDeadline"
| step: "deadline_reach d \<Longrightarrow> deadline_step d d' \<Longrightarrow> deadline_reach d'"

inductive_cases deadline_stepE: "deadline_step d d'"

definition expired_now :: "deadline \<Rightarrow> bool" where
  "expired_now d \<longleftrightarrow> isClosedChan (deadline_Wait d) d"

definition deadline_ok :: "deadline \<Rightarrow> bool" where
  "deadline_ok d \<longleftrightarrow> (timer d \<in> {Running, Fired} \<longrightarrow> \<not> expired_now d) \<and> (timer d = Ran \<longrightarrow> expired_now d)
     \<and> cancel d < next_chan d \<and> (\<forall>ch \<in> closed_chans d. ch < next_chan d)"

lemmas deadline_defs = deadline_ok_def expired_now_def deadline_Wait_def isClosedChan_def make_chan_def
  close_cancel_def deadline_Set_def timer_callback_def

lemma fresh_deadline [simp]: "\<not> expired_now MakePipeDeadline"
  by (simp add: deadline_defs MakePipeDeadline_def)

lemma deadline_ok_Set: "deadline_ok d \<Longrightarrow> deadline_Set t d = Returns d' \<Longrightarrow> deadline_ok d'"
  by (cases t; cases "timer d") (auto simp: deadline_defs Let_def less_Suc_eq split: if_splits)

lemma set_past:
  assumes "deadline_ok d" and "timer d \<noteq> Fired"
  shows "\<exists>d'. deadline_Set Past d = Returns d' \<and> expired_now d' \<and> timer d' = NoTimer"
proof (cases "expired_now d")
  case True
  then show ?thesis by (simp add: deadline_defs)
next
  case False
  then have "timer d \<notin> {Fired, Ran}" using assms by (auto simp: deadline_ok_def)
  with False show ?thesis by (simp add: deadline_defs)
qed

lemma set_never:
  assumes "deadline_ok d" and "timer d = NoTimer"
  shows "\<exists>d'. deadline_Set Never d = Returns d' \<and> \<not> expired_now d'"
proof (cases "expired_now d")
  case True
  have "next_chan d \<notin> closed_chans d" using assms(1) by (auto simp: deadline_ok_def)
  with True assms(2) show ?thesis by (simp add: deadline_defs)
qed (use assms(2) in \<open>simp add: deadline_defs\<close>)

lemma deadline_ok_step:
  assumes "deadline_ok d" and "deadline_step d d'"
  shows "deadline_ok d'"
  using assms(2)
proof (cases rule: deadline_step.cases)
  case (set t)
  then show ?thesis by (rule deadline_ok_Set [OF assms(1)])
qed (use assms(1) in \<open>auto simp: deadline_defs split: if_splits\<close>)

lemma deadline_reach_ok: "deadline_reach d \<Longrightarrow> deadline_ok d"
proof (induction rule: deadline_reach.induct)
  case start
  show ?case by (simp add: deadline_defs MakePipeDeadline_def)
next
  case (step d d')
  show ?case by (rule deadline_ok_step [OF step.IH step.hyps(2)])
qed

text \<open>A closed channel stays closed: who waits on it is woken whatever is set afterwards.\<close>

lemma closed_stays: "deadline_step d d' \<Longrightarrow> closed_chans d \<subseteq> closed_chans d'"
  by (elim deadline_stepE) (auto simp: deadline_defs Let_def split: if_splits set_time.splits)

section \<open>Claims\<close>

text \<open>C28: A deadline never closes a channel twice, whenever its timer fires: neither \<open>Set\<close> nor the
  callback panics. \<open>Set\<close> waits only while a fired timer's callback has still to run, and can return
  as soon as it has; when it returns, the deadline has passed exactly if the time given has, a
  timer runs exactly if the time is in the future, and who was waiting on a passed deadline is
  still woken.\<close>

theorem deadline_safe:
  assumes "deadline_reach d"
  shows "deadline_Set t d \<noteq> Panics
    \<and> (timer d = Fired \<longrightarrow> (\<exists>d'. timer_callback d = Returns d' \<and> expired_now d' \<and> deadline_Set t d' \<noteq> Blocks))
    \<and> (deadline_Set t d = Blocks \<longleftrightarrow> timer d = Fired)
    \<and> (\<forall>d'. deadline_Set t d = Returns d' \<longrightarrow>
         (expired_now d' \<longleftrightarrow> t = Past) \<and> timer d' = (if t = Later then Running else NoTimer)
         \<and> closed_chans d \<subseteq> closed_chans d')"
proof -
  have ok: "deadline_ok d" using assms by (rule deadline_reach_ok)
  have "deadline_Set t d \<noteq> Panics"
    by (cases t) (auto simp: deadline_defs Let_def)
  moreover have "deadline_Set t d = Blocks \<longleftrightarrow> timer d = Fired"
    using ok by (cases t; cases "timer d") (auto simp: deadline_defs Let_def)
  moreover have "\<exists>d'. timer_callback d = Returns d' \<and> expired_now d' \<and> deadline_Set t d' \<noteq> Blocks"
    if "timer d = Fired"
    using ok that by (cases t) (auto simp: deadline_defs Let_def)
  moreover have "(expired_now d' \<longleftrightarrow> t = Past) \<and> timer d' = (if t = Later then Running else NoTimer)
      \<and> closed_chans d \<subseteq> closed_chans d'" if "deadline_Set t d = Returns d'" for d'
    using ok that by (cases t; cases "timer d") (auto simp: deadline_defs Let_def split: if_splits)
  ultimately show ?thesis by blast
qed

theorem deadline_safe_witness:
  "deadline_Set Never (MakePipeDeadline\<lparr>timer := Fired\<rparr>) = Blocks"
proof -
  have s: "deadline_Set Later MakePipeDeadline = Returns (MakePipeDeadline\<lparr>timer := Running\<rparr>)"
    by (simp add: MakePipeDeadline_def deadline_defs)
  have "deadline_reach (MakePipeDeadline\<lparr>timer := Running\<rparr>)"
    using deadline_reach.step [OF deadline_reach.start deadline_step.set [OF s]] .
  from deadline_reach.step [OF this deadline_step.fire]
  have "deadline_reach (MakePipeDeadline\<lparr>timer := Fired\<rparr>)" by simp
  from deadline_safe [OF this, of Never] show ?thesis by simp
qed

end
