(* ===== verification/Wire.thy ===== *)
theory Wire
  imports Frame Padding Pipe Deadline
begin

text \<open>
  The state of \<^verbatim>\<open>Session\<close> and \<^verbatim>\<open>Stream\<close> (\<^verbatim>\<open>proxy/session/session.go\<close>,
  \<^verbatim>\<open>proxy/session/stream.go\<close>) and the write path \<^verbatim>\<open>writeConn\<close>, which cuts and
  pads what a session sends.
\<close>

section \<open>The underlying connection\<close>

text \<open>A connection keeps the records written to it, one per \<open>Write\<close>, and whether it is
  closed. The environment is the argument \<open>c_fail\<close>: \<open>c_fail i = Some k\<close> makes the \<open>i\<close>-th
  \<open>Write\<close> fail after \<open>k\<close> bytes.\<close>

record conn =
  c_out :: "bytes list"
  c_calls :: nat
  c_closed :: bool
  c_deadline :: bool
  c_fail :: "nat \<Rightarrow> nat option"

definition conn_Write :: "conn \<Rightarrow> bytes \<Rightarrow> conn \<times> nat \<times> go_error option" where
  "conn_Write c b =
     (let c' = c\<lparr>c_calls := Suc (c_calls c)\<rparr>
      in if c_closed c then (c', 0, Some NetErrClosed)
         else (case c_fail c (c_calls c) of
                 None \<Rightarrow> (c'\<lparr>c_out := c_out c @ [b]\<rparr>, length b, None)
               | Some k \<Rightarrow>
                   (c'\<lparr>c_out := c_out c @ [take k b]\<rparr>, min k (length b), Some ConnFailure)))"

definition sent :: "conn \<Rightarrow> bytes" where
  "sent c = concat (c_out c)"

section \<open>Streams and sessions\<close>

text \<open>A callback field: absent, set, or run (with whether the session was closed then).\<close>

datatype hook = NoHook | HookSet | HookRan bool

definition run_hook :: "bool \<Rightarrow> hook \<Rightarrow> hook" where
  "run_hook closed h = (case h of HookSet \<Rightarrow> HookRan closed | _ \<Rightarrow> h)"

record stream =
  st_id :: u32
  st_pipe :: pipe
  st_readDeadline :: deadline
  st_writeDeadline :: deadline
  st_dieOnce :: bool
  st_dieHook :: hook
  st_dieErr :: "go_error option"
  st_reportOnce :: bool

text \<open>The channel of the write deadline is closed.\<close>

abbreviation st_writeExpired :: "stream \<Rightarrow> bool" where
  "st_writeExpired st \<equiv> expired_now (st_writeDeadline st)"

definition newStream :: "u32 \<Rightarrow> stream" where
  "newStream i = \<lparr>st_id = i, st_pipe = newPipe, st_readDeadline = MakePipeDeadline,
     st_writeDeadline = MakePipeDeadline, st_dieOnce = False,
     st_dieHook = NoHook, st_dieErr = None, st_reportOnce = False\<rparr>"

text \<open>A watcher of \<^verbatim>\<open>util/deadline.go\<close>: waiting, told that all is well, or timed out.\<close>

datatype watcher = Armed | Cancelled | TimedOut

text \<open>
  A session. \<open>objs\<close> is the store of the stream objects it made, \<open>streams\<close> the registry of
  the code (stream id to object), \<open>nextObj\<close> the next free address; \<open>accepted\<close> lists the
  objects handed to \<open>onNewStream\<close>, \<open>alerts\<close> the alert texts logged. \<open>padding\<close> is the content
  of the factory cell. The locks do not appear: a definition below is one critical section.
\<close>

record session =
  conn :: conn
  streams :: "u32 \<rightharpoonup> nat"
  objs :: "nat \<rightharpoonup> stream"
  nextObj :: nat
  streamId :: u32
  die :: bool
  dieHook :: hook
  synDone :: "nat option"
  watchers :: "watcher list"
  seq :: u64
  padding :: PaddingFactory
  peerVersion :: byte
  isClient :: bool
  sendPadding :: bool
  buffering :: bool
  buffer :: bytes
  pktCounter :: u32
  onNewStream :: bool
  accepted :: "nat list"
  alerts :: "bytes list"

definition NewClientSession :: "conn \<Rightarrow> PaddingFactory \<Rightarrow> session" where
  "NewClientSession c p =
     \<lparr>conn = c, streams = Map.empty, objs = Map.empty, nextObj = 0, streamId = 0, die = False,
      dieHook = NoHook, synDone = None, watchers = [], seq = 0, padding = p, peerVersion = 0,
      isClient = True, sendPadding = True, buffering = False, buffer = [], pktCounter = 0,
      onNewStream = False, accepted = [], alerts = []\<rparr>"

definition NewServerSession :: "conn \<Rightarrow> bool \<Rightarrow> PaddingFactory \<Rightarrow> session" where
  "NewServerSession c handler p =
     \<lparr>conn = c, streams = Map.empty, objs = Map.empty, nextObj = 0, streamId = 0, die = False,
      dieHook = NoHook, synDone = None, watchers = [], seq = 0, padding = p, peerVersion = 0,
      isClient = False, sendPadding = False, buffering = False, buffer = [], pktCounter = 0,
      onNewStream = handler, accepted = [], alerts = []\<rparr>"

definition IsClosed :: "session \<Rightarrow> bool" where
  "IsClosed s = die s"

section \<open>writeConn\<close>

text \<open>A padding frame of the code: a header that announces \<open>uint16(l)\<close> and \<open>l\<close> zeros.\<close>

definition wasteFrame :: "int \<Rightarrow> bytes" where
  "wasteFrame l = cmdWaste # put_u32 0 @ put_u16 (word_of_int l) @ replicate (nat l) 0"

text \<open>
  The loop over the sizes: the rest of the sizes, the connection, what is left of \<open>b\<close> and the
  count \<open>n\<close>. A negative size other than the check mark would make the slice \<open>b[:l]\<close> panic.
\<close>

fun pad_loop :: "int list \<Rightarrow> conn \<Rightarrow> bytes \<Rightarrow> nat \<Rightarrow> conn \<times> bytes \<times> nat \<times> go_error option" where
  "pad_loop [] c b n = (c, b, n, None)"
| "pad_loop (l # ls) c b n =
     (if l = CheckMark then
        (if b = [] then (c, b, n, None) else pad_loop ls c b n)
      else if l < 0 then (c, b, n, Some GoPanic)
      else if int (length b) > l then
        (case conn_Write c (take (nat l) b) of
           (c', _, Some e) \<Rightarrow> (c', b, 0, Some e)
         | (c', _, None) \<Rightarrow> pad_loop ls c' (drop (nat l) b) (n + nat l))
      else if b \<noteq> [] then
        (let paddingLen = l - int (length b) - int headerOverHeadSize;
             b' = (if paddingLen > 0 then b @ wasteFrame paddingLen else b)
         in case conn_Write c b' of
              (c', _, Some e) \<Rightarrow> (c', b, 0, Some e)
            | (c', _, None) \<Rightarrow> pad_loop ls c' [] (n + length b))
      else
        (case conn_Write c (wasteFrame l) of
           (c', _, Some e) \<Rightarrow> (c', b, 0, Some e)
         | (c', _, None) \<Rightarrow> pad_loop ls c' [] n))"

definition write_raw :: "session \<Rightarrow> bytes \<Rightarrow> nat \<Rightarrow> session \<times> nat \<times> go_error option" where
  "write_raw s b n =
     (case conn_Write (conn s) b of (c, k, e) \<Rightarrow> (s\<lparr>conn := c\<rparr>, n + k, e))"

definition writeConn :: "randomness \<Rightarrow> session \<Rightarrow> bytes \<Rightarrow> session \<times> nat \<times> go_error option" where
  "writeConn rnd s0 b0 =
     (if buffering s0 then (s0\<lparr>buffer := buffer s0 @ b0\<rparr>, length b0, None)
      else
        (let (s, b) = (if buffer s0 \<noteq> [] then (s0\<lparr>buffer := []\<rparr>, buffer s0 @ b0) else (s0, b0))
         in if sendPadding s then
              (let pkt = pktCounter s + 1; s1 = s\<lparr>pktCounter := pkt\<rparr>; paddingF = padding s
               in if pkt < Stop paddingF then
                    (case pad_loop (GenerateRecordPayloadSizes rnd paddingF pkt) (conn s1) b 0 of
                       (c, b', n, Some e) \<Rightarrow> (s1\<lparr>conn := c\<rparr>, 0, Some e)
                     | (c, b', n, None) \<Rightarrow>
                         (if b' = [] then (s1\<lparr>conn := c\<rparr>, n, None)
                          else write_raw (s1\<lparr>conn := c\<rparr>) b' n))
                  else write_raw (s1\<lparr>sendPadding := False\<rparr>) b 0)
            else write_raw s b 0))"

section \<open>Facts about the connection\<close>

definition no_failure :: "conn \<Rightarrow> bool" where
  "no_failure c \<longleftrightarrow> \<not> c_closed c \<and> c_fail c = (\<lambda>_. None)"

lemma conn_Write_frame [sess_simps]:
  "conn_Write c b = (c', k, e) \<Longrightarrow>
   c_closed c' = c_closed c \<and> c_fail c' = c_fail c \<and> c_deadline c' = c_deadline c
   \<and> c_calls c' = Suc (c_calls c)"
  by (auto simp: conn_Write_def Let_def split: if_splits option.splits)

lemma conn_Write_ok:
  "conn_Write c b = (c', k, None) \<Longrightarrow> c_out c' = c_out c @ [b] \<and> k = length b"
  by (auto simp: conn_Write_def Let_def split: if_splits option.splits)

lemma conn_Write_sent:
  "conn_Write c b = (c', k, None) \<Longrightarrow> sent c' = sent c @ b"
  by (simp add: sent_def conn_Write_ok)

lemma conn_Write_prefix:
  "conn_Write c b = (c', k, e) \<Longrightarrow> \<exists>rest. sent c' @ rest = sent c @ b"
  by (auto simp: conn_Write_def sent_def Let_def split: if_splits option.splits)
    (metis append_take_drop_id)

lemma conn_Write_no_failure:
  "no_failure c \<Longrightarrow>
   conn_Write c b = (c\<lparr>c_calls := Suc (c_calls c), c_out := c_out c @ [b]\<rparr>, length b, None)"
  by (simp add: conn_Write_def no_failure_def)

lemma no_failure_Write [simp]:
  "no_failure (c\<lparr>c_calls := k, c_out := xs\<rparr>) = no_failure c"
  by (simp add: no_failure_def)

section \<open>What goes on the wire\<close>

text \<open>A run of padding frames, each with its length field intact.\<close>

definition waste_run :: "bytes \<Rightarrow> bool" where
  "waste_run w \<longleftrightarrow>
     (\<exists>ks. (\<forall>k \<in> set ks. k < 2 ^ 16)
        \<and> w = concat (map (\<lambda>k. encode cmdWaste 0 (replicate k 0)) ks))"

lemma waste_run_Nil [simp]: "waste_run []"
  unfolding waste_run_def by (rule exI [of _ "[]"]) simp

lemma waste_run_append: "waste_run v \<Longrightarrow> waste_run w \<Longrightarrow> waste_run (v @ w)"
proof -
  assume "waste_run v" "waste_run w"
  then obtain ks js where
    "(\<forall>k \<in> set ks. k < 2 ^ 16) \<and> v = concat (map (\<lambda>k. encode cmdWaste 0 (replicate k 0)) ks)"
    "(\<forall>k \<in> set js. k < 2 ^ 16) \<and> w = concat (map (\<lambda>k. encode cmdWaste 0 (replicate k 0)) js)"
    unfolding waste_run_def by blast
  then show ?thesis
    unfolding waste_run_def by (intro exI [of _ "ks @ js"]) auto
qed

lemma wasteFrame_encode: "0 \<le> l \<Longrightarrow> wasteFrame l = encode cmdWaste 0 (replicate (nat l) 0)"
  by (simp add: wasteFrame_def encode_def)

lemma waste_run_wasteFrame: "0 \<le> l \<Longrightarrow> l < 2 ^ 16 \<Longrightarrow> waste_run (wasteFrame l)"
  unfolding waste_run_def by (intro exI [of _ "[nat l]"]) (auto simp: wasteFrame_encode)

lemma length_wasteFrame [simp]: "length (wasteFrame l) = 7 + nat l"
  by (simp add: wasteFrame_def)

text \<open>Sizes that fit the length field of a frame.\<close>

definition size_fits :: "int \<Rightarrow> bool" where
  "size_fits l \<longleftrightarrow> l = CheckMark \<or> (0 < l \<and> l < 2 ^ 16)"

lemma CheckMark_neg [simp]: "CheckMark < 0" "CheckMark \<noteq> 0"
  by (simp_all add: CheckMark_def)

text \<open>What the loop has done to the connection: the payload \<open>b\<close> it was given and a run of
  padding frames, of which \<open>rest\<close> has not gone out; without an error \<open>rest\<close> is the payload
  it returns, and padding starts only when that is empty.\<close>

definition progressed :: "conn \<Rightarrow> bytes \<Rightarrow> conn \<Rightarrow> bytes \<Rightarrow> go_error option \<Rightarrow> bool" where
  "progressed c b c' b' e \<longleftrightarrow>
     (\<exists>w rest. waste_run w \<and> sent c' @ rest = sent c @ b @ w \<and>
        (e = None \<longrightarrow> rest = b' \<and> (b' \<noteq> [] \<longrightarrow> w = []) \<and> (b = [] \<longrightarrow> b' = [])))"

lemma progressed_refl: "progressed c b c b e"
  unfolding progressed_def by (intro exI [of _ "[]"] exI [of _ b]) simp

text \<open>One write \<open>x\<close> that leaves the payload \<open>b1\<close>, where \<open>x\<close> is the part sent and padding \<open>v\<close>.\<close>

lemma progressed_write:
  assumes w: "conn_Write c x = (c1, k, None)" and x: "x @ b1 = b @ v" "waste_run v"
    and v: "b1 \<noteq> [] \<Longrightarrow> v = []" and b: "b = [] \<Longrightarrow> b1 = []"
    and after: "progressed c1 b1 c' b' e"
  shows "progressed c b c' b' e"
proof -
  from after obtain u rest where u: "waste_run u" "sent c' @ rest = sent c1 @ b1 @ u"
    "e = None \<longrightarrow> rest = b' \<and> (b' \<noteq> [] \<longrightarrow> u = []) \<and> (b1 = [] \<longrightarrow> b' = [])"
    unfolding progressed_def by blast
  have "sent c' @ rest = sent c @ b @ v @ u"
    using conn_Write_sent [OF w] x u(2) v by (cases "b1 = []") (auto simp flip: append_assoc)
  with u v x(2) b show ?thesis
    unfolding progressed_def
    by (intro exI [of _ "v @ u"] exI [of _ rest]) (auto intro: waste_run_append)
qed

lemma progressed_fail:
  assumes "conn_Write c x = (c1, k, Some a)" and "x @ b1 = b @ v" and "waste_run v"
  shows "progressed c b c1 b' (Some a)"
proof -
  obtain r where "sent c1 @ r = sent c @ x"
    using conn_Write_prefix [OF assms(1)] by blast
  then have "sent c1 @ (r @ b1) = sent c @ b @ v"
    using assms(2) by (metis append.assoc)
  with assms(3) show ?thesis
    unfolding progressed_def by blast
qed

text \<open>One round of the loop for a size that is no check mark: the record it writes, the payload
  and the count it goes on with.\<close>

definition rec_out :: "int \<Rightarrow> bytes \<Rightarrow> bytes" where
  "rec_out l b =
     (if int (length b) > l then take (nat l) b
      else if b \<noteq> [] then
        (if l - int (length b) - 7 > 0 then b @ wasteFrame (l - int (length b) - 7) else b)
      else wasteFrame l)"

definition rec_left :: "int \<Rightarrow> bytes \<Rightarrow> bytes" where
  "rec_left l b = (if int (length b) > l then drop (nat l) b else [])"

definition rec_count :: "int \<Rightarrow> bytes \<Rightarrow> nat \<Rightarrow> nat" where
  "rec_count l b n =
     (if int (length b) > l then n + nat l else if b \<noteq> [] then n + length b else n)"

lemma pad_loop_mark:
  "pad_loop (CheckMark # ls) c b n = (if b = [] then (c, b, n, None) else pad_loop ls c b n)"
  by simp

lemma pad_loop_size:
  "l \<noteq> CheckMark \<Longrightarrow> 0 \<le> l \<Longrightarrow>
   pad_loop (l # ls) c b n =
     (case conn_Write c (rec_out l b) of
        (c', _, Some e) \<Rightarrow> (c', b, 0, Some e)
      | (c', _, None) \<Rightarrow> pad_loop ls c' (rec_left l b) (rec_count l b n))"
  by (simp add: rec_out_def rec_left_def rec_count_def Let_def split: prod.splits option.splits)

declare pad_loop.simps(2) [simp del]

lemma rec_out_left:
  assumes "0 < l" and "l < 2 ^ 16"
  obtains v where "waste_run v" "rec_out l b @ rec_left l b = b @ v"
    "rec_left l b \<noteq> [] \<Longrightarrow> v = []" "b = [] \<Longrightarrow> rec_left l b = []"
proof (cases "int (length b) > l")
  case True
  with assms show ?thesis by (intro that [of "[]"]) (auto simp: rec_out_def rec_left_def)
next
  case False
  then show ?thesis
    using assms waste_run_wasteFrame [of l] waste_run_wasteFrame [of "l - int (length b) - 7"]
    by (intro that [of "if b = [] then wasteFrame l
          else if l - int (length b) - 7 > 0 then wasteFrame (l - int (length b) - 7) else []"])
      (auto simp: rec_out_def rec_left_def)
qed

text \<open>The loop keeps every byte of the payload in order and adds padding frames only after
  the last of them, whatever fails on the way.\<close>

lemma pad_loop_sent:
  "list_all size_fits ls \<Longrightarrow> pad_loop ls c b n = (c', b', n', e) \<Longrightarrow> progressed c b c' b' e"
proof (induction ls arbitrary: c b n)
  case Nil
  then show ?case by (simp add: progressed_refl)
next
  case (Cons l ls)
  show ?case
  proof (cases "l = CheckMark")
    case True
    with Cons show ?thesis by (auto simp: pad_loop_mark progressed_refl split: if_splits)
  next
    case False
    with Cons.prems have l: "0 < l" "l < 2 ^ 16" by (simp_all add: size_fits_def)
    obtain v where v: "waste_run v" "rec_out l b @ rec_left l b = b @ v"
      "rec_left l b \<noteq> [] \<Longrightarrow> v = []" "b = [] \<Longrightarrow> rec_left l b = []"
      using rec_out_left [OF l] by blast
    obtain c1 k e1 where w: "conn_Write c (rec_out l b) = (c1, k, e1)" by (metis prod_cases3)
    show ?thesis
    proof (cases e1)
      case (Some a)
      with w l False Cons.prems have "c' = c1 \<and> e = Some a"
        by (simp add: pad_loop_size)
      with progressed_fail [OF w [unfolded Some] v(2,1)] show ?thesis by simp
    next
      case None
      with w l False Cons.prems Cons.IH have "progressed c1 (rec_left l b) c' b' e"
        by (simp add: pad_loop_size)
      with progressed_write [OF w [unfolded None] v(2,1,3,4)] show ?thesis by blast
    qed
  qed
qed

lemma pad_loop_frame:
  "pad_loop ls c b n = (c', b', n', e) \<Longrightarrow>
   c_closed c' = c_closed c \<and> c_fail c' = c_fail c \<and> c_deadline c' = c_deadline c"
proof (induction ls arbitrary: c b n)
  case (Cons l ls)
  then show ?case
    by (auto simp: pad_loop.simps(2) Let_def split: if_splits prod.splits option.splits
        dest!: conn_Write_frame)
qed simp

lemma write_raw_eq:
  "write_raw s b n = (s', k, e) \<Longrightarrow>
   \<exists>j. conn_Write (conn s) b = (conn s', j, e) \<and> s' = s\<lparr>conn := conn s'\<rparr> \<and> k = n + j"
  by (auto simp: write_raw_def split: prod.splits)

section \<open>writeConn as a whole\<close>

text \<open>\<open>writeConn\<close> writes four fields and, of the connection, the record of what was sent.\<close>

lemma writeConn_frame [sess_simps]:
  "writeConn rnd s b = (s', n, e) \<Longrightarrow>
   s' = s\<lparr>conn := conn s', buffer := buffer s', sendPadding := sendPadding s',
          pktCounter := pktCounter s'\<rparr>"
  by (auto simp: writeConn_def Let_def write_raw_def split: if_splits prod.splits option.splits)

lemma writeConn_conn [sess_simps]:
  "writeConn rnd s b = (s', n, e) \<Longrightarrow>
   c_closed (conn s') = c_closed (conn s) \<and> c_fail (conn s') = c_fail (conn s)
   \<and> c_deadline (conn s') = c_deadline (conn s)"
  by (auto simp: writeConn_def Let_def write_raw_def split: if_splits prod.splits option.splits
      dest!: conn_Write_frame pad_loop_frame)

text \<open>A scheme whose records fit the length field.\<close>

definition scheme_fits :: "randomness \<Rightarrow> PaddingFactory \<Rightarrow> bool" where
  "scheme_fits rnd p \<longleftrightarrow> (\<forall>pkt. list_all size_fits (GenerateRecordPayloadSizes rnd p pkt))"

text \<open>Taking the buffered bytes first is the same whether or not there are any.\<close>

lemma writeConn_flush:
  assumes "\<not> buffering s"
  shows "writeConn rnd s b =
    (let s1 = s\<lparr>buffer := []\<rparr>; b1 = buffer s @ b; pkt = pktCounter s + 1
     in if sendPadding s then
          (if pkt < Stop (padding s) then
             (case pad_loop (GenerateRecordPayloadSizes rnd (padding s) pkt) (conn s) b1 0 of
                (c, b', n, Some e) \<Rightarrow> (s1\<lparr>pktCounter := pkt, conn := c\<rparr>, 0, Some e)
              | (c, b', n, None) \<Rightarrow>
                  (if b' = [] then (s1\<lparr>pktCounter := pkt, conn := c\<rparr>, n, None)
                   else write_raw (s1\<lparr>pktCounter := pkt, conn := c\<rparr>) b' n))
           else write_raw (s1\<lparr>pktCounter := pkt, sendPadding := False\<rparr>) b1 0)
        else write_raw s1 b1 0)"
proof -
  have "(if buffer s \<noteq> [] then (s\<lparr>buffer := []\<rparr>, buffer s @ b) else (s, b))
      = (s\<lparr>buffer := []\<rparr>, buffer s @ b)"
    by (cases s) simp
  with assms show ?thesis unfolding writeConn_def by (simp add: Let_def)
qed

lemma writeConn_buffering:
  "buffering s \<Longrightarrow> writeConn rnd s b = (s\<lparr>buffer := buffer s @ b\<rparr>, length b, None)"
  by (simp add: writeConn_def)

lemma progressed_trans:
  assumes "progressed c b c1 b1 None" and "progressed c1 b1 c2 b2 e"
  shows "progressed c b c2 b2 e"
proof -
  from assms(1) obtain w where w: "waste_run w" "sent c1 @ b1 = sent c @ b @ w"
    "b1 \<noteq> [] \<Longrightarrow> w = []" "b = [] \<Longrightarrow> b1 = []"
    unfolding progressed_def by blast
  from assms(2) obtain u rest where u: "waste_run u" "sent c2 @ rest = sent c1 @ b1 @ u"
    "e = None \<longrightarrow> rest = b2 \<and> (b2 \<noteq> [] \<longrightarrow> u = []) \<and> (b1 = [] \<longrightarrow> b2 = [])"
    unfolding progressed_def by blast
  have "sent c2 @ rest = sent c @ b @ w @ u"
    using w(2) u(2) by (metis append.assoc)
  with w u show ?thesis
    unfolding progressed_def
    by (intro exI [of _ "w @ u"] exI [of _ rest]) (auto intro: waste_run_append)
qed

lemma conn_Write_progressed:
  "conn_Write c b = (c', k, e) \<Longrightarrow> progressed c b c' [] e"
proof (cases e)
  case None
  assume "conn_Write c b = (c', k, e)"
  with None progressed_write [of c b c' k "[]" b "[]" c' "[]" None] show ?thesis
    by (simp add: progressed_refl)
next
  case (Some a)
  assume "conn_Write c b = (c', k, e)"
  with Some progressed_fail [of c b c' k a "[]" b "[]" "[]"] show ?thesis by simp
qed

lemma write_raw_progressed:
  "write_raw s b m = (s', k, e) \<Longrightarrow> progressed (conn s) b (conn s') [] e \<and> buffer s' = buffer s"
  by (auto simp: write_raw_def conn_Write_progressed split: prod.splits)

lemma writeConn_progressed:
  assumes fits: "scheme_fits rnd (padding s)" and nb: "\<not> buffering s"
    and w: "writeConn rnd s b = (s', n, e)"
  shows "buffer s' = [] \<and> progressed (conn s) (buffer s @ b) (conn s') [] e"
proof -
  let ?pkt = "pktCounter s + 1"
  let ?ls = "GenerateRecordPayloadSizes rnd (padding s) ?pkt"
  obtain c1 b1 n1 e1 where l: "pad_loop ?ls (conn s) (buffer s @ b) 0 = (c1, b1, n1, e1)"
    by (metis prod_cases4)
  have p: "progressed (conn s) (buffer s @ b) c1 b1 e1"
    using fits by (intro pad_loop_sent [OF _ l]) (simp add: scheme_fits_def)
  show ?thesis
  proof (cases "sendPadding s \<and> ?pkt < Stop (padding s)")
    case True
    show ?thesis
    proof (cases "e1 = None \<and> b1 \<noteq> []")
      case T: True
      with True w l nb have r: "write_raw (s\<lparr>buffer := [], pktCounter := ?pkt, conn := c1\<rparr>) b1 n1
        = (s', n, e)"
        by (auto simp: writeConn_flush Let_def split: if_splits)
      from write_raw_progressed [OF this] have "progressed c1 b1 (conn s') [] e"
        "buffer s' = []" by simp_all
      with p T show ?thesis by (auto intro: progressed_trans)
    next
      case F: False
      with True w l nb have "conn s' = c1" "buffer s' = []" "e = e1" "e1 = None \<longrightarrow> b1 = []"
        by (auto simp: writeConn_flush Let_def split: if_splits option.splits)
      with p show ?thesis by (cases e1) (auto simp: progressed_def)
    qed
  next
    case False
    with w nb obtain s1 where r: "write_raw s1 (buffer s @ b) 0 = (s', n, e)"
      "conn s1 = conn s" "buffer s1 = []"
      by (auto simp: writeConn_flush Let_def split: if_splits)
    from write_raw_progressed [OF r(1)] r show ?thesis by simp
  qed
qed


section \<open>Sizes of records\<close>

text \<open>Without failures the loop writes one record per size other than a check mark, in order,
  and stops early only at a check mark that finds no payload left. A record that is all payload
  has the size asked for; one that mixes payload and padding has it too, or is up to seven
  bytes short when there is no room for a padding header; one that is all padding is seven
  bytes longer.\<close>

definition record_near :: "int \<Rightarrow> bytes \<Rightarrow> bool" where
  "record_near l r \<longleftrightarrow> l - 7 \<le> int (length r) \<and> int (length r) \<le> l + 7"

lemma rec_out_near: "0 < l \<Longrightarrow> record_near l (rec_out l b)"
  by (auto simp: record_near_def rec_out_def)

lemma pad_loop_records:
  "no_failure c \<Longrightarrow> list_all size_fits ls \<Longrightarrow>
   \<exists>k rs c' b' n'. pad_loop ls c b n = (c', b', n', None) \<and> c_out c' = c_out c @ rs
     \<and> no_failure c' \<and> list_all2 record_near (take k (filter (\<lambda>l. l \<noteq> CheckMark) ls)) rs"
proof (induction ls arbitrary: c b n)
  case Nil
  then show ?case by simp
next
  case (Cons l ls)
  show ?case
  proof (cases "l = CheckMark")
    case mark: True
    show ?thesis
    proof (cases "b = []")
      case True
      with mark Cons.prems show ?thesis
        by (intro exI [of _ 0] exI [of _ "[]"]) (simp add: pad_loop_mark)
    next
      case False
      with mark Cons show ?thesis by (simp add: pad_loop_mark)
    qed
  next
    case False
    with Cons.prems have l: "0 < l" by (simp add: size_fits_def)
    let ?c1 = "c\<lparr>c_calls := Suc (c_calls c), c_out := c_out c @ [rec_out l b]\<rparr>"
    have m: "pad_loop (l # ls) c b n = pad_loop ls ?c1 (rec_left l b) (rec_count l b n)"
      using False l Cons.prems(1) by (simp add: pad_loop_size conn_Write_no_failure)
    have "no_failure ?c1" using Cons.prems(1) by simp
    from Cons.IH [OF this, of "rec_left l b" "rec_count l b n"] Cons.prems(2)
    obtain k rs c' b' n' where
      "pad_loop ls ?c1 (rec_left l b) (rec_count l b n) = (c', b', n', None)"
      "c_out c' = c_out ?c1 @ rs" "no_failure c'"
      "list_all2 record_near (take k (filter (\<lambda>l. l \<noteq> CheckMark) ls)) rs"
      by auto
    with m rec_out_near [OF l] False show ?thesis
      by (intro exI [of _ "Suc k"] exI [of _ "rec_out l b # rs"]) simp
  qed
qed

text \<open>The shape of the traffic: the lengths of the records. It depends on the payload through
  its length only.\<close>

definition same_shape :: "conn \<Rightarrow> conn \<Rightarrow> bool" where
  "same_shape c d \<longleftrightarrow> map length (c_out c) = map length (c_out d) \<and> c_calls c = c_calls d
     \<and> c_closed c = c_closed d \<and> c_fail c = c_fail d"

lemma conn_Write_shape:
  assumes "same_shape c d" and "length x = length y"
  shows "same_shape (fst (conn_Write c x)) (fst (conn_Write d y))
    \<and> snd (conn_Write c x) = snd (conn_Write d y)"
  using assms by (auto simp: conn_Write_def same_shape_def Let_def split: option.splits)

text \<open>Two results of the loop that an observer of lengths cannot tell apart.\<close>

definition same_result ::
    "conn \<times> bytes \<times> nat \<times> go_error option \<Rightarrow> conn \<times> bytes \<times> nat \<times> go_error option \<Rightarrow> bool" where
  "same_result r q =
     (case (r, q) of ((c, b, n, e), (d, a, m, f)) \<Rightarrow>
        same_shape c d \<and> length b = length a \<and> n = m \<and> e = f)"

lemma pad_loop_shape:
  "same_shape c d \<Longrightarrow> length b = length a \<Longrightarrow>
   same_result (pad_loop ls c b n) (pad_loop ls d a n)"
proof (induction ls arbitrary: c d b a n)
  case Nil
  then show ?case by (simp add: same_result_def)
next
  case (Cons l ls)
  have len: "length (rec_out l b) = length (rec_out l a)"
    "length (rec_left l b) = length (rec_left l a)" "rec_count l b n = rec_count l a n"
    "(b = []) = (a = [])"
    using Cons.prems(2) by (auto simp: rec_out_def rec_left_def rec_count_def)
  obtain c1 k1 e1 where w: "conn_Write c (rec_out l b) = (c1, k1, e1)" by (metis prod_cases3)
  obtain d1 k2 e2 where v: "conn_Write d (rec_out l a) = (d1, k2, e2)" by (metis prod_cases3)
  from conn_Write_shape [OF Cons.prems(1) len(1)] w v
  have cd: "same_shape c1 d1" "e2 = e1" by auto
  consider "l = CheckMark" | "l \<noteq> CheckMark" "l < 0" | "l \<noteq> CheckMark" "0 \<le> l" by linarith
  then show ?case
  proof cases
    case 1
    with Cons len(4) show ?thesis by (auto simp: pad_loop_mark same_result_def)
  next
    case 2
    with Cons.prems show ?thesis by (simp add: pad_loop.simps(2) same_result_def)
  next
    case 3
    with Cons.prems Cons.IH [OF cd(1) len(2)] len(3) w v cd show ?thesis
      by (cases e1) (auto simp: pad_loop_size same_result_def)
  qed
qed


section \<open>Schemes whose records fit\<close>

text \<open>Every interval of the scheme stays below the 64 KiB a frame can announce.\<close>

definition scheme_bounded :: "PaddingFactory \<Rightarrow> bool" where
  "scheme_bounded p \<longleftrightarrow>
     list_all (\<lambda>(k, s). list_all
       (\<lambda>r. case item_interval r of None \<Rightarrow> True | Some (mn, mx) \<Rightarrow> mx < 2 ^ 16)
       (split_on CHR '','' s)) (scheme p)"

lemma scheme_bounded_fits:
  assumes "rand_ok rnd" and "scheme_bounded p"
  shows "scheme_fits rnd p"
  unfolding scheme_fits_def list_all_iff
proof (intro allI ballI)
  fix pkt l assume "l \<in> set (GenerateRecordPayloadSizes rnd p pkt)"
  then obtain s r where s: "map_of (scheme p) (itoa (uint pkt)) = Some s"
    and r: "r \<in> set (split_on CHR '','' s)" "item_allows r l"
    using sizes_in_scheme_aux [OF assms(1)] by blast
  have "case item_interval r of None \<Rightarrow> True | Some (mn, mx) \<Rightarrow> mx < 2 ^ 16"
    using assms(2) map_of_SomeD [OF s] r(1) unfolding scheme_bounded_def list_all_iff by blast
  with r(2) show "size_fits l"
    by (auto simp: item_allows_def size_fits_def split: option.splits)
qed

lemma writeConn_no_failure:
  assumes fits: "scheme_fits rnd (padding s)" and nf: "no_failure (conn s)"
    and w: "writeConn rnd s b = (s', n, e)"
  shows "e = None \<and> no_failure (conn s')"
proof (cases "buffering s")
  case True
  with w nf show ?thesis by (auto simp: writeConn_buffering)
next
  case False
  let ?ls = "GenerateRecordPayloadSizes rnd (padding s) (pktCounter s + 1)"
  have "list_all size_fits ?ls" using fits by (simp add: scheme_fits_def)
  from pad_loop_records [OF nf this, of "buffer s @ b" 0] obtain c' b' n'
    where l: "pad_loop ?ls (conn s) (buffer s @ b) 0 = (c', b', n', None)" "no_failure c'"
    by blast
  with w nf False show ?thesis
    unfolding writeConn_flush [OF False]
    by (auto simp: Let_def write_raw_def conn_Write_no_failure
        split: if_splits)
qed

section \<open>Claims\<close>

text \<open>C10: What \<open>writeConn\<close> puts on the wire is what was buffered, then the bytes it was given,
  then padding frames, with no byte lost, changed or reordered by the cutting: exactly so when it
  succeeds, and a prefix of that when the connection fails on the way. The scheme's records
  must fit the length field.\<close>

theorem writeConn_transparent:
  assumes "rand_ok rnd" and "scheme_bounded (padding s)" and "\<not> buffering s"
    and "writeConn rnd s b = (s', n, e)"
  shows "buffer s' = [] \<and>
    (\<exists>w rest. waste_run w \<and> sent (conn s') @ rest = sent (conn s) @ buffer s @ b @ w
       \<and> (e = None \<longrightarrow> rest = []))"
  using writeConn_progressed [OF scheme_bounded_fits [OF assms(1,2)] assms(3,4)]
  by (auto simp: progressed_def)

definition sample_conn :: conn where
  "sample_conn = \<lparr>c_out = [], c_calls = 0, c_closed = False, c_deadline = False,
     c_fail = (\<lambda>_. None)\<rparr>"

definition sample_client :: session where
  "sample_client = NewClientSession sample_conn sample_factory"

lemma sample_bounded: "scheme_bounded sample_factory"
  by code_simp

lemma sample_client_simps:
  "padding sample_client = sample_factory" "\<not> buffering sample_client"
  "conn sample_client = sample_conn" "buffer sample_client = []" "pktCounter sample_client = 0"
  "sendPadding sample_client" "no_failure sample_conn"
  by (simp_all add: sample_client_def NewClientSession_def no_failure_def sample_conn_def)

theorem writeConn_transparent_witness:
  "buffer (fst (writeConn (\<lambda>_ _ _. 0) sample_client [1, 2, 3])) = [] \<and>
    (\<exists>w rest. waste_run w \<and>
       sent (conn (fst (writeConn (\<lambda>_ _ _. 0) sample_client [1, 2, 3]))) @ rest = [1, 2, 3] @ w
       \<and> (snd (snd (writeConn (\<lambda>_ _ _. 0) sample_client [1, 2, 3])) = None \<longrightarrow> rest = []))"
proof -
  obtain s' n e where w: "writeConn (\<lambda>_ _ _. 0) sample_client [1, 2, 3] = (s', n, e)"
    by (metis prod_cases3)
  have "scheme_bounded (padding sample_client)" "\<not> buffering sample_client"
    by (simp_all add: sample_client_simps sample_bounded)
  from writeConn_transparent [OF rand_ok_zero this w] w show ?thesis
    by (simp add: sample_client_simps sent_def sample_conn_def)
qed

text \<open>Two sessions an observer of record lengths cannot tell apart.\<close>

definition same_look :: "session \<Rightarrow> session \<Rightarrow> bool" where
  "same_look s t \<longleftrightarrow>
     same_shape (conn s) (conn t) \<and> padding s = padding t \<and> pktCounter s = pktCounter t
     \<and> sendPadding s = sendPadding t \<and> buffering s = buffering t
     \<and> length (buffer s) = length (buffer t)"

lemma write_raw_look:
  assumes "same_look u v" and "length x = length y"
  shows "same_look (fst (write_raw u x k)) (fst (write_raw v y k))
    \<and> snd (write_raw u x k) = snd (write_raw v y k)"
proof -
  have "same_shape (conn u) (conn v)" using assms(1) by (simp add: same_look_def)
  from conn_Write_shape [OF this assms(2)] assms(1) show ?thesis
    by (cases "conn_Write (conn u) x"; cases "conn_Write (conn v) y")
      (auto simp: write_raw_def same_look_def)
qed



text \<open>A padded packet on a healthy connection is cut into one record per size of the scheme, in
  order, each within seven bytes of the size asked for, and at most one further record with the
  payload that is left. The sizes after a check mark that finds no payload are not used.\<close>

lemma padded_packet_records:
  assumes "rand_ok rnd" and "scheme_bounded (padding s)" and "no_failure (conn s)"
    and "\<not> buffering s" and "sendPadding s" and "pktCounter s + 1 < Stop (padding s)"
  shows "\<exists>k rs tail.
    c_out (conn (fst (writeConn rnd s b))) = c_out (conn s) @ rs @ tail \<and> length tail \<le> 1
    \<and> list_all2 record_near
        (take k (filter (\<lambda>l. l \<noteq> CheckMark)
           (GenerateRecordPayloadSizes rnd (padding s) (pktCounter s + 1)))) rs"
proof -
  let ?ls = "GenerateRecordPayloadSizes rnd (padding s) (pktCounter s + 1)"
  have "list_all size_fits ?ls"
    using scheme_bounded_fits [OF assms(1,2)] by (simp add: scheme_fits_def)
  from pad_loop_records [OF assms(3) this, of "buffer s @ b" 0] obtain k rs c' b' n' where
    l: "pad_loop ?ls (conn s) (buffer s @ b) 0 = (c', b', n', None)" "c_out c' = c_out (conn s) @ rs"
      "no_failure c'" "list_all2 record_near (take k (filter (\<lambda>l. l \<noteq> CheckMark) ?ls)) rs"
    by blast
  have "c_out (conn (fst (writeConn rnd s b))) = c_out (conn s) @ rs @ (if b' = [] then [] else [b'])"
    using assms(4-6) l by (simp add: writeConn_flush Let_def write_raw_def conn_Write_no_failure)
  with l(4) show ?thesis
    by (intro exI [of _ k] exI [of _ rs] exI [of _ "if b' = [] then [] else [b']"]) simp
qed

text \<open>Once the packet counter has reached \<open>Stop\<close>, or on a session that does not pad, a write
  goes out as one record that is exactly what was buffered and what was given, and padding stays
  off.\<close>

lemma padding_stops:
  assumes "no_failure (conn s)" and "\<not> buffering s"
    and "sendPadding s \<Longrightarrow> Stop (padding s) \<le> pktCounter s + 1"
    and "writeConn rnd s b = (s', n, e)"
  shows "c_out (conn s') = c_out (conn s) @ [buffer s @ b] \<and> \<not> sendPadding s' \<and> e = None
    \<and> buffer s' = []"
proof -
  have "\<not> (sendPadding s \<and> pktCounter s + 1 < Stop (padding s))"
    using assms(3) by (auto simp: not_less)
  with assms show ?thesis
    by (auto simp: writeConn_flush Let_def write_raw_def conn_Write_no_failure split: if_splits)
qed

text \<open>C34: The length field of a frame is the length of its data modulo 64 KiB, for the data and
  control frames and for the padding frames alike: it is right exactly for data below 64 KiB, and
  the bytes beyond it would be read as the next header.\<close>

theorem length_field:
  "hdr_Length (take 7 (encode c i d)) = of_nat (length d)
   \<and> (unat (hdr_Length (take 7 (encode c i d))) = length d \<longleftrightarrow> length d < 2 ^ 16)
   \<and> unat (hdr_Length (take 7 (wasteFrame (int k)))) = k mod 2 ^ 16
   \<and> length (wasteFrame (int k)) = 7 + k"
proof -
  have h: "take 7 (encode c' i' d') = header c' i' (length d')" for c' i' d'
    by (simp add: encode_header)
  have m: "(length d mod 2 ^ 16 = length d) = (length d < 2 ^ 16)"
    by (metis mod_less mod_less_divisor zero_less_numeral zero_less_power)
  have "hdr_Length (take 7 (encode c i d)) = of_nat (length d)"
    by (simp only: h hdr_Length_header)
  moreover have "unat (hdr_Length (take 7 (encode c i d))) = length d \<longleftrightarrow> length d < 2 ^ 16"
    by (simp only: h unat_hdr_Length_header m)
  moreover have "unat (hdr_Length (take 7 (wasteFrame (int k)))) = k mod 2 ^ 16"
    by (simp only: wasteFrame_encode of_nat_0_le_iff h unat_hdr_Length_header length_replicate nat_int)
  ultimately show ?thesis by simp
qed

end
