(* ===== verification/Session.thy ===== *)
theory Session
  imports Wire
begin

text \<open>
  The operations of \<^verbatim>\<open>Session\<close> and \<^verbatim>\<open>Stream\<close> other than the receive loop:
  closing, opening, the frame writers, the handshake reports, and the timeout of
  \<^verbatim>\<open>util/deadline.go\<close>. A stream is named by its address in the session's store, as a
  pointer names it in the code. A session operation returns the new session and the error the
  code returns (\<open>None\<close> for \<open>nil\<close>).
\<close>

section \<open>Stream objects\<close>

definition upd_obj :: "nat \<Rightarrow> (stream \<Rightarrow> stream) \<Rightarrow> session \<Rightarrow> session" where
  "upd_obj a f s = s\<lparr>objs := (objs s)(a := map_option f (objs s a))\<rparr>"

text \<open>The body of \<open>dieOnce\<close> and the run of the hook that follows it; \<open>closed\<close> is whether the
  session is closed at that point, which is what the hook of \<^verbatim>\<open>client.go\<close> asks.\<close>

definition kill :: "bool \<Rightarrow> go_error \<Rightarrow> stream \<Rightarrow> stream" where
  "kill closed err st =
     st\<lparr>st_dieOnce := True, st_dieErr := Some err, st_pipe := PipeReader_Close (st_pipe st),
        st_dieHook := run_hook closed (st_dieHook st)\<rparr>"

definition closeLocally :: "bool \<Rightarrow> stream \<Rightarrow> stream" where
  "closeLocally closed st = (if st_dieOnce st then st else kill closed NetErrClosed st)"

text \<open>\<open>Stream.Read\<close> around the result of the pipe's \<open>Read\<close>.\<close>

definition stream_Read :: "stream \<Rightarrow> nat \<times> go_error option \<Rightarrow> nat \<times> go_error option" where
  "stream_Read st r =
     (case r of (n, err) \<Rightarrow> (n, if n = 0 \<and> st_dieErr st \<noteq> None then st_dieErr st else err))"

section \<open>Closing a session\<close>

definition conn_Close :: "conn \<Rightarrow> conn \<times> go_error option" where
  "conn_Close c = (c\<lparr>c_closed := True\<rparr>, if c_closed c then Some NetErrClosed else None)"

text \<open>\<open>registered s a st\<close>: the object is in the registry, under its own id.\<close>

definition registered :: "session \<Rightarrow> nat \<Rightarrow> stream \<Rightarrow> bool" where
  "registered s a st \<longleftrightarrow> streams s (st_id st) = Some a"

definition Close :: "session \<Rightarrow> session \<times> go_error option" where
  "Close s =
     (if die s then (s, Some ErrClosedPipe)
      else
        (case conn_Close (conn s) of (c, e) \<Rightarrow>
           (s\<lparr>die := True,
              dieHook := run_hook True (dieHook s),
              objs := (\<lambda>a. map_option
                 (\<lambda>st. if registered s a st then closeLocally True st else st) (objs s a)),
              streams := Map.empty,
              conn := c\<rparr>, e)))"

section \<open>Writing frames\<close>

definition writeDataFrame ::
    "randomness \<Rightarrow> session \<Rightarrow> u32 \<Rightarrow> bytes \<Rightarrow> session \<times> nat \<times> go_error option" where
  "writeDataFrame rnd s i d =
     (case writeConn rnd s (encode cmdPSH i d) of
        (s', _, Some e) \<Rightarrow> (s', 0, Some e)
      | (s', _, None) \<Rightarrow> (s', length d, None))"

definition set_deadline :: "bool \<Rightarrow> session \<Rightarrow> session" where
  "set_deadline d s = s\<lparr>conn := (conn s)\<lparr>c_deadline := d\<rparr>\<rparr>"

definition writeControlFrame ::
    "randomness \<Rightarrow> session \<Rightarrow> frame \<Rightarrow> session \<times> nat \<times> go_error option" where
  "writeControlFrame rnd s f =
     (case writeConn rnd (set_deadline True s) (encode_frame f) of
        (s', _, Some e) \<Rightarrow> (fst (Close s'), 0, Some e)
      | (s', _, None) \<Rightarrow> (set_deadline False s', length (data f), None))"

section \<open>Closing a stream\<close>

definition streamClosed :: "randomness \<Rightarrow> session \<Rightarrow> u32 \<Rightarrow> session \<times> go_error option" where
  "streamClosed rnd s i =
     (if die s then (s, Some ErrClosedPipe)
      else
        (case writeControlFrame rnd s (newFrame cmdFIN i) of
           (s', _, e) \<Rightarrow> (s'\<lparr>streams := (streams s')(i := None)\<rparr>, e)))"

text \<open>A pointer that names no object would be a nil dereference.\<close>

definition closeWithError ::
    "randomness \<Rightarrow> session \<Rightarrow> nat \<Rightarrow> go_error \<Rightarrow> session \<times> go_error option" where
  "closeWithError rnd s a err =
     (case objs s a of
        None \<Rightarrow> (s, Some GoPanic)
      | Some st \<Rightarrow>
          (if st_dieOnce st then (s, st_dieErr st)
           else streamClosed rnd (upd_obj a (kill (die s) err) s) (st_id st)))"

definition stream_Close :: "randomness \<Rightarrow> session \<Rightarrow> nat \<Rightarrow> session \<times> go_error option" where
  "stream_Close rnd s a = closeWithError rnd s a ErrClosedPipe"

definition stream_Write ::
    "randomness \<Rightarrow> session \<Rightarrow> nat \<Rightarrow> bytes \<Rightarrow> session \<times> nat \<times> go_error option" where
  "stream_Write rnd s a b =
     (case objs s a of
        None \<Rightarrow> (s, 0, Some GoPanic)
      | Some st \<Rightarrow>
          (if st_writeExpired st then (s, 0, Some ErrDeadlineExceeded)
           else if st_dieErr st \<noteq> None then (s, 0, st_dieErr st)
           else writeDataFrame rnd s (st_id st) b))"

section \<open>The deadlines of a stream\<close>

text \<open>The read deadline is the pipe's, which refuses it once closed; the write deadline is the stream's
  own, for the session has none. A setter that has to wait for the timer's callback is a setter
  that has not been called yet.\<close>

definition stream_SetReadDeadline :: "set_time \<Rightarrow> nat \<Rightarrow> session \<Rightarrow> (session \<times> go_error option) go" where
  "stream_SetReadDeadline t a s =
     (case objs s a of
        None \<Rightarrow> Panics
      | Some st \<Rightarrow>
          (if p_done (st_pipe st) then Returns (s, Some ErrClosedPipe)
           else (case deadline_Set t (st_readDeadline st) of
                   Returns d \<Rightarrow> Returns (upd_obj a (\<lambda>st. st\<lparr>st_readDeadline := d\<rparr>) s, None)
                 | Blocks \<Rightarrow> Blocks | Panics \<Rightarrow> Panics)))"

definition stream_SetWriteDeadline :: "set_time \<Rightarrow> nat \<Rightarrow> session \<Rightarrow> (session \<times> go_error option) go" where
  "stream_SetWriteDeadline t a s =
     (case objs s a of
        None \<Rightarrow> Panics
      | Some st \<Rightarrow>
          (case deadline_Set t (st_writeDeadline st) of
             Returns d \<Rightarrow> Returns (upd_obj a (\<lambda>st. st\<lparr>st_writeDeadline := d\<rparr>) s, None)
           | Blocks \<Rightarrow> Blocks | Panics \<Rightarrow> Panics))"

definition stream_SetDeadline :: "set_time \<Rightarrow> nat \<Rightarrow> session \<Rightarrow> (session \<times> go_error option) go" where
  "stream_SetDeadline t a s =
     (case stream_SetWriteDeadline t a s of
        Returns (s', _) \<Rightarrow> stream_SetReadDeadline t a s' | Blocks \<Rightarrow> Blocks | Panics \<Rightarrow> Panics)"

section \<open>Reporting the outbound handshake\<close>

definition HandshakeFailure ::
    "randomness \<Rightarrow> session \<Rightarrow> nat \<Rightarrow> bytes option \<Rightarrow> session \<times> go_error option" where
  "HandshakeFailure rnd s a err =
     (case objs s a of
        None \<Rightarrow> (s, Some GoPanic)
      | Some st \<Rightarrow>
          (let s1 = upd_obj a (\<lambda>st. st\<lparr>st_reportOnce := True\<rparr>) s
           in case err of
                Some msg \<Rightarrow>
                  (if \<not> st_reportOnce st \<and> peerVersion s \<ge> 2 then
                     (case writeControlFrame rnd s1 ((newFrame cmdSYNACK (st_id st))\<lparr>data := msg\<rparr>)
                      of (s', _, e) \<Rightarrow> (s', e))
                   else (s1, None))
              | None \<Rightarrow> (s1, None)))"

definition HandshakeSuccess :: "randomness \<Rightarrow> session \<Rightarrow> nat \<Rightarrow> session \<times> go_error option" where
  "HandshakeSuccess rnd s a =
     (case objs s a of
        None \<Rightarrow> (s, Some GoPanic)
      | Some st \<Rightarrow>
          (let s1 = upd_obj a (\<lambda>st. st\<lparr>st_reportOnce := True\<rparr>) s
           in if \<not> st_reportOnce st \<and> peerVersion s \<ge> 2 then
                (case writeControlFrame rnd s1 (newFrame cmdSYNACK (st_id st)) of
                   (s', _, e) \<Rightarrow> (s', e))
              else (s1, None)))"

section \<open>The SYNACK watcher\<close>

definition cancel_watcher :: "nat \<Rightarrow> watcher list \<Rightarrow> watcher list" where
  "cancel_watcher i ws =
     (if i < length ws \<and> ws ! i = Armed then ws[i := Cancelled] else ws)"

text \<open>\<open>NewDeadlineWatcher\<close>: the closure it returns is named by the watcher's index.\<close>

definition NewDeadlineWatcher :: "session \<Rightarrow> session" where
  "NewDeadlineWatcher s =
     s\<lparr>watchers := watchers s @ [Armed], synDone := Some (length (watchers s))\<rparr>"

definition call_synDone :: "session \<Rightarrow> session" where
  "call_synDone s =
     (case synDone s of
        None \<Rightarrow> s
      | Some i \<Rightarrow> s\<lparr>watchers := cancel_watcher i (watchers s)\<rparr>)"

text \<open>The timer of watcher \<open>i\<close> fires: its goroutine runs the timeout callback, which closes
  the session, unless the watcher was told that all is well.\<close>

definition watcher_timeout :: "nat \<Rightarrow> session \<Rightarrow> session" where
  "watcher_timeout i s =
     (if i < length (watchers s) \<and> watchers s ! i = Armed
      then fst (Close (s\<lparr>watchers := (watchers s)[i := TimedOut]\<rparr>))
      else s)"

section \<open>Opening a stream\<close>

definition OpenStream :: "randomness \<Rightarrow> session \<Rightarrow> session \<times> (go_error + nat)" where
  "OpenStream rnd s =
     (if IsClosed s then (s, Inl ErrClosedPipe)
      else
        (let i = streamId s + 1;
             a = nextObj s;
             s1 = s\<lparr>streamId := i, nextObj := Suc a, objs := (objs s)(a \<mapsto> newStream i)\<rparr>;
             s2 = (if i \<ge> 2 \<and> peerVersion s1 \<ge> 2 then NewDeadlineWatcher (call_synDone s1) else s1)
         in case writeControlFrame rnd s2 (newFrame cmdSYN i) of
              (s3, _, Some e) \<Rightarrow> (s3, Inl e)
            | (s3, _, None) \<Rightarrow>
                (let s4 = s3\<lparr>buffering := False\<rparr>
                 in if die s4 then (s4, Inl ErrClosedPipe)
                    else (s4\<lparr>streams := (streams s4)(i \<mapsto> a)\<rparr>, Inr a))))"

section \<open>Starting a session\<close>

text \<open>The settings a client announces; \<open>order\<close> is the order in which \<open>range\<close> visits the map
  literal.\<close>

definition ProgramVersionName :: string where
  "ProgramVersionName = ''anytls/0.0.12''"

definition client_settings :: "session \<Rightarrow> string_map" where
  "client_settings s =
     [(''v'', ''2''), (''client'', ProgramVersionName), (''padding-md5'', Md5 (padding s))]"

definition Run_client ::
    "randomness \<Rightarrow> (string_map \<Rightarrow> string_map) \<Rightarrow> session \<Rightarrow> session" where
  "Run_client rnd order s =
     fst (writeControlFrame rnd (s\<lparr>buffering := True\<rparr>)
       ((newFrame cmdSettings 0)\<lparr>data := ToBytes (order (client_settings s))\<rparr>))"

section \<open>The session invariant\<close>

text \<open>A stream has died exactly when it has an error to report and its pipe is closed.\<close>

definition stream_ok :: "stream \<Rightarrow> bool" where
  "stream_ok st \<longleftrightarrow> (st_dieOnce st \<longleftrightarrow> st_dieErr st \<noteq> None) \<and> (st_dieOnce st \<longleftrightarrow> p_done (st_pipe st))"

text \<open>At most one watcher waits, and it is the one \<open>synDone\<close> would cancel.\<close>

definition watchers_ok :: "session \<Rightarrow> bool" where
  "watchers_ok s \<longleftrightarrow>
     (\<forall>j < length (watchers s). watchers s ! j = Armed \<longrightarrow> synDone s = Some j)"

text \<open>The invariant: addresses are allocated and streams well formed; the registry maps an id
  to a live object of that id; a closed session has an empty registry and a closed connection;
  only clients pad. \<open>X\<close> names objects that may be dead though registered, as a stream is
  between its \<open>dieOnce\<close> and its removal.\<close>

definition heap_ok :: "session \<Rightarrow> bool" where
  "heap_ok s \<longleftrightarrow>
     (\<forall>a st. objs s a = Some st \<longrightarrow> a < nextObj s \<and> stream_ok st)
     \<and> (\<forall>a \<in> set (accepted s). a < nextObj s)"

definition registry_ok :: "nat set \<Rightarrow> session \<Rightarrow> bool" where
  "registry_ok X s \<longleftrightarrow>
     (\<forall>i a. streams s i = Some a \<longrightarrow>
        (\<exists>st. objs s a = Some st \<and> st_id st = i \<and> (st_dieOnce st \<longrightarrow> a \<in> X)))"

definition status_ok :: "session \<Rightarrow> bool" where
  "status_ok s \<longleftrightarrow>
     (die s \<longrightarrow> streams s = Map.empty) \<and> die s = c_closed (conn s)
     \<and> (sendPadding s \<longrightarrow> isClient s)"

definition inv_but :: "nat set \<Rightarrow> session \<Rightarrow> bool" where
  "inv_but X s \<longleftrightarrow> heap_ok s \<and> registry_ok X s \<and> status_ok s \<and> watchers_ok s"

definition session_inv :: "session \<Rightarrow> bool" where
  "session_inv s \<longleftrightarrow> inv_but {} s"

lemma registry_ok_mono: "registry_ok {} s \<Longrightarrow> registry_ok X s"
  unfolding registry_ok_def by blast

lemma registry_ok_empty: "streams s = Map.empty \<Longrightarrow> registry_ok X s"
  by (simp add: registry_ok_def)

lemma inv_but_mono: "session_inv s \<Longrightarrow> inv_but X s"
  unfolding session_inv_def inv_but_def using registry_ok_mono by blast

lemma session_inv_registered:
  "session_inv s \<Longrightarrow> streams s i = Some a \<Longrightarrow>
   \<exists>st. objs s a = Some st \<and> st_id st = i \<and> \<not> st_dieOnce st"
  unfolding session_inv_def inv_but_def registry_ok_def by blast

lemmas inv_parts = session_inv_def inv_but_def heap_ok_def registry_ok_def status_ok_def
  watchers_ok_def

lemma session_inv_NewClient:
  "\<not> c_closed c \<Longrightarrow> session_inv (NewClientSession c p)"
  by (simp add: inv_parts NewClientSession_def)

lemma session_inv_NewServer:
  "\<not> c_closed c \<Longrightarrow> session_inv (NewServerSession c h p)"
  by (simp add: inv_parts NewServerSession_def)

lemma stream_ok_newStream [simp]: "stream_ok (newStream i)"
  by (simp add: stream_ok_def newStream_def newPipe_def)

lemma newStream_fields [simp]:
  "st_id (newStream i) = i" "\<not> st_dieOnce (newStream i)" "\<not> p_done (st_pipe (newStream i))"
  "p_delivered (st_pipe (newStream i)) = []" "st_dieErr (newStream i) = None"
  by (simp_all add: newStream_def newPipe_def)

lemma stream_ok_kill [simp]: "stream_ok (kill closed e st)"
  by (simp add: stream_ok_def kill_def)

lemma stream_ok_closeLocally [simp]: "stream_ok st \<Longrightarrow> stream_ok (closeLocally closed st)"
  by (simp add: closeLocally_def)

lemma kill_id [simp]: "st_id (kill closed e st) = st_id st"
  by (simp add: kill_def)

lemma closeLocally_id [simp]: "st_id (closeLocally closed st) = st_id st"
  by (simp add: closeLocally_def)

text \<open>The wire fields do not matter to the invariant, but for the closed flag and the padding
  switch. \<open>same_but_wire\<close> says what a write leaves alone.\<close>

definition same_but_wire :: "session \<Rightarrow> session \<Rightarrow> bool" where
  "same_but_wire s s' \<longleftrightarrow>
     (\<exists>c bf sp pk. s' = s\<lparr>conn := c, buffer := bf, sendPadding := sp, pktCounter := pk\<rparr>
        \<and> c_closed c = c_closed (conn s) \<and> c_fail c = c_fail (conn s)
        \<and> (sp \<longrightarrow> sendPadding s))"

lemma same_but_wire_fields:
  assumes "same_but_wire s s'"
  shows "streams s' = streams s" "objs s' = objs s" "nextObj s' = nextObj s"
    "streamId s' = streamId s" "die s' = die s" "dieHook s' = dieHook s"
    "synDone s' = synDone s" "watchers s' = watchers s" "seq s' = seq s"
    "padding s' = padding s" "peerVersion s' = peerVersion s" "isClient s' = isClient s"
    "buffering s' = buffering s" "onNewStream s' = onNewStream s" "accepted s' = accepted s"
    "alerts s' = alerts s" "c_closed (conn s') = c_closed (conn s)"
    "c_fail (conn s') = c_fail (conn s)" "sendPadding s' \<Longrightarrow> sendPadding s"
  using assms by (auto simp: same_but_wire_def)

lemma same_but_wire_trans:
  assumes "same_but_wire s t" and "same_but_wire t u"
  shows "same_but_wire s u"
proof -
  from assms(1) obtain c bf sp pk where
    t: "t = s\<lparr>conn := c, buffer := bf, sendPadding := sp, pktCounter := pk\<rparr>"
    "c_closed c = c_closed (conn s)" "c_fail c = c_fail (conn s)" "sp \<longrightarrow> sendPadding s"
    unfolding same_but_wire_def by blast
  with assms(2) obtain c' bf' sp' pk' where
    "u = s\<lparr>conn := c', buffer := bf', sendPadding := sp', pktCounter := pk'\<rparr>"
    "c_closed c' = c_closed c" "c_fail c' = c_fail c" "sp' \<longrightarrow> sp"
    unfolding same_but_wire_def by auto
  with t show ?thesis unfolding same_but_wire_def by metis
qed

lemma writeConn_sendPadding:
  "writeConn rnd s b = (s', n, e) \<Longrightarrow> sendPadding s' \<Longrightarrow> sendPadding s"
  by (auto simp: writeConn_def Let_def write_raw_def split: if_splits prod.splits option.splits)

lemma writeConn_same: "writeConn rnd s b = (s', n, e) \<Longrightarrow> same_but_wire s s'"
  unfolding same_but_wire_def
  using writeConn_frame [of rnd s b s' n e] writeConn_conn [of rnd s b s' n e]
    writeConn_sendPadding [of rnd s b s' n e] by metis

lemma set_deadline_same: "same_but_wire s (set_deadline d s)"
  unfolding same_but_wire_def
  by (intro exI [of _ "(conn s)\<lparr>c_deadline := d\<rparr>"] exI [of _ "buffer s"]
      exI [of _ "sendPadding s"] exI [of _ "pktCounter s"]) (cases s, simp add: set_deadline_def)

lemma inv_same:
  assumes "inv_but X s" and w: "same_but_wire s s'"
  shows "inv_but X s'"
proof -
  note f = same_but_wire_fields [OF w]
  from assms(1) have "heap_ok s'" "registry_ok X s'" "watchers_ok s'"
    unfolding inv_but_def heap_ok_def registry_ok_def watchers_ok_def f by blast+
  moreover have "status_ok s'"
    using assms(1) f(19) unfolding inv_but_def status_ok_def f(1,5,12,17) by blast
  ultimately show ?thesis by (simp add: inv_but_def)
qed

text \<open>A control frame goes out, or the session is closed.\<close>

lemma writeControlFrame_cases:
  obtains (sent) s' where "writeControlFrame rnd s f = (s', length (data f), None)"
      "same_but_wire s s'"
    | (failed) s1 e where "writeControlFrame rnd s f = (fst (Close s1), 0, Some e)"
      "same_but_wire s s1"
proof -
  obtain s1 n e where w: "writeConn rnd (set_deadline True s) (encode_frame f) = (s1, n, e)"
    by (metis prod_cases3)
  have s1: "same_but_wire s s1"
    using set_deadline_same writeConn_same [OF w] by (rule same_but_wire_trans)
  show ?thesis
  proof (cases e)
    case None
    with w have "writeControlFrame rnd s f = (set_deadline False s1, length (data f), None)"
      by (simp add: writeControlFrame_def)
    then show ?thesis using s1 set_deadline_same by (blast intro: sent same_but_wire_trans)
  next
    case (Some x)
    with w have "writeControlFrame rnd s f = (fst (Close s1), 0, Some x)"
      by (simp add: writeControlFrame_def)
    then show ?thesis using s1 by (rule failed)
  qed
qed

section \<open>Every operation keeps the invariant\<close>

lemma Close_eq:
  "\<not> die s \<Longrightarrow> fst (Close s) =
     s\<lparr>die := True, dieHook := run_hook True (dieHook s),
       objs := (\<lambda>a. map_option
         (\<lambda>st. if registered s a st then closeLocally True st else st) (objs s a)),
       streams := Map.empty, conn := (conn s)\<lparr>c_closed := True\<rparr>\<rparr>"
  by (simp add: Close_def conn_Close_def)

lemma Close_dead: "die s \<Longrightarrow> Close s = (s, Some ErrClosedPipe)"
  by (simp add: Close_def)

lemma inv_Close:
  assumes "inv_but X s"
  shows "session_inv (fst (Close s))"
proof (cases "die s")
  case True
  with assms show ?thesis
    by (auto simp: Close_dead session_inv_def inv_but_def status_ok_def intro: registry_ok_empty)
next
  case False
  have "heap_ok (fst (Close s))"
    using assms unfolding inv_but_def heap_ok_def by (auto simp: Close_eq [OF False])
  moreover have "status_ok (fst (Close s)) \<and> watchers_ok (fst (Close s)) \<and> registry_ok {} (fst (Close s))"
    using assms unfolding inv_but_def status_ok_def watchers_ok_def registry_ok_def
    by (simp add: Close_eq [OF False])
  ultimately show ?thesis by (simp add: session_inv_def inv_but_def)
qed

lemma inv_writeControlFrame: "inv_but X s \<Longrightarrow> inv_but X (fst (writeControlFrame rnd s f))"
  by (cases rule: writeControlFrame_cases [of rnd s f])
    (auto intro: inv_same inv_but_mono inv_Close)

lemma inv_writeDataFrame: "session_inv s \<Longrightarrow> session_inv (fst (writeDataFrame rnd s i d))"
  unfolding session_inv_def writeDataFrame_def
  by (auto split: prod.splits option.splits intro: inv_same writeConn_same)

lemma Close_closed:
  "die (fst (Close s))" "\<not> die s \<Longrightarrow> streams (fst (Close s)) = Map.empty"
  by (simp_all add: Close_def conn_Close_def)

text \<open>Once the stream of the exempt object has left the registry the invariant holds in full.\<close>

lemma inv_remove:
  assumes "inv_but {a} s" and "objs s a = Some st" and "st_id st = i"
  shows "session_inv (s\<lparr>streams := (streams s)(i := None)\<rparr>)"
proof -
  let ?s = "s\<lparr>streams := (streams s)(i := None)\<rparr>"
  have "registry_ok {} ?s"
    using assms unfolding inv_but_def registry_ok_def by auto (metis option.inject)
  moreover have "heap_ok ?s" "status_ok ?s" "watchers_ok ?s"
    using assms(1) unfolding inv_but_def heap_ok_def status_ok_def watchers_ok_def by auto
  ultimately show ?thesis by (simp add: session_inv_def inv_but_def)
qed

lemma inv_streamClosed:
  assumes inv: "inv_but {a} s" and o: "objs s a = Some st" and i: "st_id st = i"
  shows "session_inv (fst (streamClosed rnd s i))"
proof (cases "die s")
  case True
  with inv show ?thesis
    by (auto simp: streamClosed_def session_inv_def inv_but_def status_ok_def
        intro: registry_ok_empty)
next
  case False
  show ?thesis
  proof (cases rule: writeControlFrame_cases [of rnd s "newFrame cmdFIN i"])
    case (sent s')
    with False inv_remove [OF inv_same [OF inv sent(2)]] o i show ?thesis
      by (simp add: streamClosed_def same_but_wire_fields)
  next
    case (failed s1 e)
    have "session_inv (fst (Close s1))"
      using inv_Close inv_same [OF inv failed(2)] by blast
    moreover have "streams (fst (Close s1)) = Map.empty"
      using False failed(2) by (simp add: Close_closed same_but_wire_fields)
    ultimately show ?thesis using False failed(1)
      by (simp add: streamClosed_def inv_parts)
  qed
qed

lemma inv_upd_obj:
  assumes "inv_but X s" and ok: "\<And>st. stream_ok st \<Longrightarrow> stream_ok (f st)"
    and id: "\<And>st. st_id (f st) = st_id st" and X: "\<And>st. st_dieOnce (f st) \<Longrightarrow> st_dieOnce st \<or> a \<in> Y"
    and "X \<subseteq> Y"
  shows "inv_but Y (upd_obj a f s)"
proof -
  have "heap_ok (upd_obj a f s)"
    using assms(1) ok unfolding inv_but_def heap_ok_def by (auto simp: upd_obj_def split: if_splits)
  moreover have "status_ok (upd_obj a f s)" "watchers_ok (upd_obj a f s)"
    using assms(1) unfolding inv_but_def status_ok_def watchers_ok_def upd_obj_def by auto
  moreover have "registry_ok Y (upd_obj a f s)"
    unfolding registry_ok_def
  proof (intro allI impI)
    fix i b assume "streams (upd_obj a f s) i = Some b"
    with assms(1) obtain st where "objs s b = Some st" "st_id st = i" "st_dieOnce st \<longrightarrow> b \<in> X"
      by (auto simp: inv_but_def registry_ok_def upd_obj_def)
    with id X [of st] \<open>X \<subseteq> Y\<close>
    show "\<exists>st. objs (upd_obj a f s) b = Some st \<and> st_id st = i \<and> (st_dieOnce st \<longrightarrow> b \<in> Y)"
      by (auto simp: upd_obj_def)
  qed
  ultimately show ?thesis by (simp add: inv_but_def)
qed

lemma inv_closeWithError: "session_inv s \<Longrightarrow> session_inv (fst (closeWithError rnd s a err))"
proof (cases "objs s a")
  case (Some st)
  assume inv: "session_inv s"
  have "inv_but {a} (upd_obj a (kill (die s) err) s)"
    by (rule inv_upd_obj [OF inv [unfolded session_inv_def]]) simp_all
  moreover have "objs (upd_obj a (kill (die s) err) s) a = Some (kill (die s) err st)"
    using Some by (simp add: upd_obj_def)
  ultimately show ?thesis
    using Some inv inv_streamClosed by (simp add: closeWithError_def)
qed (simp add: closeWithError_def)

lemma inv_stream_Write: "session_inv s \<Longrightarrow> session_inv (fst (stream_Write rnd s a b))"
  by (simp add: stream_Write_def inv_writeDataFrame split: option.splits)

lemma inv_report:
  "session_inv s \<Longrightarrow> session_inv (upd_obj a (\<lambda>st. st\<lparr>st_reportOnce := True\<rparr>) s)"
  unfolding session_inv_def
  by (rule inv_upd_obj [where X = "{}"]) (auto simp: stream_ok_def)

lemma inv_wcf: "session_inv s \<Longrightarrow> writeControlFrame rnd s f = (s', n, e) \<Longrightarrow> session_inv s'"
  using inv_writeControlFrame [of "{}" s rnd f] by (simp add: session_inv_def)

lemma inv_HandshakeFailure: "session_inv s \<Longrightarrow> session_inv (fst (HandshakeFailure rnd s a err))"
  by (auto simp: HandshakeFailure_def Let_def split: option.splits prod.splits
      intro: inv_report inv_wcf [OF inv_report])

lemma inv_HandshakeSuccess: "session_inv s \<Longrightarrow> session_inv (fst (HandshakeSuccess rnd s a))"
  by (auto simp: HandshakeSuccess_def Let_def split: option.splits prod.splits
      intro: inv_report inv_wcf [OF inv_report])


text \<open>Allocating an object, and entering a live one in the registry.\<close>

lemma inv_alloc:
  assumes "session_inv s"
  shows "session_inv (s\<lparr>streamId := i, nextObj := Suc (nextObj s),
    objs := (objs s)(nextObj s \<mapsto> newStream j)\<rparr>)"
proof -
  have new: "a \<noteq> nextObj s" if "streams s i = Some a" for i a
    using assms that unfolding inv_parts by (metis less_irrefl)
  then show ?thesis
    using assms unfolding session_inv_def inv_but_def heap_ok_def registry_ok_def status_ok_def
      watchers_ok_def
    by (auto simp: less_Suc_eq)
qed

lemma inv_register:
  assumes "session_inv s" and "\<not> die s" and "objs s a = Some st" and "st_id st = i"
    and "\<not> st_dieOnce st"
  shows "session_inv (s\<lparr>streams := (streams s)(i \<mapsto> a)\<rparr>)"
  using assms unfolding inv_parts by auto

lemma inv_set_watchers:
  assumes "session_inv s" and "\<And>j. j < length ws \<Longrightarrow> ws ! j = Armed \<Longrightarrow> synDone s = Some j"
  shows "session_inv (s\<lparr>watchers := ws\<rparr>)"
  using assms unfolding session_inv_def inv_but_def
  by (auto simp: heap_ok_def registry_ok_def status_ok_def watchers_ok_def)

lemma inv_set_synDone:
  assumes "session_inv s" and "\<And>j. j < length ws \<Longrightarrow> ws ! j = Armed \<Longrightarrow> d = Some j"
  shows "session_inv (s\<lparr>watchers := ws, synDone := d\<rparr>)"
  using assms unfolding session_inv_def inv_but_def
  by (auto simp: heap_ok_def registry_ok_def status_ok_def watchers_ok_def)

lemma session_inv_watcher:
  "session_inv s \<Longrightarrow> j < length (watchers s) \<Longrightarrow> watchers s ! j = Armed \<Longrightarrow> synDone s = Some j"
  by (simp add: session_inv_def inv_but_def watchers_ok_def)

lemma cancel_watcher_Armed:
  "j < length ws \<Longrightarrow> cancel_watcher i ws ! j = Armed \<Longrightarrow>
   j < length ws \<and> ws ! j = Armed \<and> j \<noteq> i"
  by (auto simp: cancel_watcher_def nth_list_update split: if_splits)

lemma length_cancel_watcher [simp]: "length (cancel_watcher i ws) = length ws"
  by (simp add: cancel_watcher_def)

text \<open>Cancelling the current watcher leaves none waiting.\<close>

lemma call_synDone_none:
  assumes "session_inv s" and "j < length (watchers (call_synDone s))"
  shows "watchers (call_synDone s) ! j \<noteq> Armed"
proof (cases "synDone s")
  case None
  with assms show ?thesis by (auto simp: call_synDone_def dest: session_inv_watcher)
next
  case (Some i)
  with assms show ?thesis
    using cancel_watcher_Armed [of j "watchers s" i] session_inv_watcher [of s j]
    by (auto simp: call_synDone_def)
qed

lemma inv_call_synDone:
  assumes "session_inv s"
  shows "session_inv (call_synDone s)"
proof (cases "synDone s")
  case (Some i)
  have "session_inv (s\<lparr>watchers := cancel_watcher i (watchers s)\<rparr>)"
    using assms
  proof (rule inv_set_watchers)
    fix j assume "j < length (cancel_watcher i (watchers s))" "cancel_watcher i (watchers s) ! j = Armed"
    then show "synDone s = Some j"
      using cancel_watcher_Armed [of j "watchers s" i] session_inv_watcher [OF assms, of j] by simp
  qed
  with Some show ?thesis by (simp add: call_synDone_def)
qed (simp add: call_synDone_def assms)

lemma inv_clear_synDone:
  assumes "session_inv s"
  shows "session_inv ((call_synDone s)\<lparr>synDone := None\<rparr>)"
proof -
  have "session_inv ((call_synDone s)\<lparr>watchers := watchers (call_synDone s), synDone := None\<rparr>)"
    using inv_call_synDone [OF assms] by (rule inv_set_synDone) (simp add: call_synDone_none assms)
  then show ?thesis by simp
qed

lemma inv_new_watcher:
  assumes "session_inv s"
  shows "session_inv (NewDeadlineWatcher (call_synDone s))"
  unfolding NewDeadlineWatcher_def using inv_call_synDone [OF assms]
  by (rule inv_set_synDone) (auto simp: nth_append less_Suc_eq call_synDone_none assms)

lemma watcher_fields:
  "streams (NewDeadlineWatcher (call_synDone s)) = streams s"
  "objs (NewDeadlineWatcher (call_synDone s)) = objs s"
  "nextObj (NewDeadlineWatcher (call_synDone s)) = nextObj s"
  "die (NewDeadlineWatcher (call_synDone s)) = die s"
  by (simp_all add: NewDeadlineWatcher_def call_synDone_def split: option.splits)

lemma inv_watcher_timeout:
  assumes "session_inv s"
  shows "session_inv (watcher_timeout i s)"
proof -
  have "session_inv (s\<lparr>watchers := (watchers s)[i := TimedOut]\<rparr>)"
    using assms
  proof (rule inv_set_watchers)
    fix j assume "j < length ((watchers s)[i := TimedOut])" "(watchers s)[i := TimedOut] ! j = Armed"
    then have "j < length (watchers s) \<and> watchers s ! j = Armed"
      by (cases "i = j") simp_all
    then show "synDone s = Some j" using session_inv_watcher [OF assms] by blast
  qed
  then show ?thesis using assms
    by (auto simp: watcher_timeout_def session_inv_def intro: inv_Close [unfolded session_inv_def])
qed

lemma inv_OpenStream:
  assumes inv: "session_inv s"
  shows "session_inv (fst (OpenStream rnd s))"
proof (cases "die s")
  case True
  with inv show ?thesis by (simp add: OpenStream_def IsClosed_def)
next
  case False
  define i where "i = streamId s + 1"
  define s1 where "s1 = s\<lparr>streamId := i, nextObj := Suc (nextObj s),
    objs := (objs s)(nextObj s \<mapsto> newStream i)\<rparr>"
  define s2 where "s2 = (if i \<ge> 2 \<and> peerVersion s1 \<ge> 2 then NewDeadlineWatcher (call_synDone s1)
    else s1)"
  have i1: "session_inv s1" unfolding s1_def using inv by (rule inv_alloc)
  have i2: "session_inv s2" using i1 inv_new_watcher by (simp add: s2_def)
  have o2: "objs s2 (nextObj s) = Some (newStream i)" "die s2 = die s"
    by (simp_all add: s2_def s1_def watcher_fields)
  have unf: "OpenStream rnd s =
      (case writeControlFrame rnd s2 (newFrame cmdSYN i) of
         (s3, _, Some e) \<Rightarrow> (s3, Inl e)
       | (s3, _, None) \<Rightarrow>
           (if die s3 then (s3\<lparr>buffering := False\<rparr>, Inl ErrClosedPipe)
            else (s3\<lparr>buffering := False, streams := (streams s3)(i \<mapsto> nextObj s)\<rparr>,
                  Inr (nextObj s))))"
    unfolding OpenStream_def Let_def i_def [symmetric] s1_def [symmetric] s2_def [symmetric]
    using False by (simp add: IsClosed_def cong: if_cong)
  show ?thesis
  proof (cases rule: writeControlFrame_cases [of rnd s2 "newFrame cmdSYN i"])
    case (sent s3)
    have "session_inv s3" using i2 inv_wcf [OF _ sent(1)] by blast
    moreover have "objs s3 (nextObj s) = Some (newStream i)" "\<not> die s3"
      using o2 False sent(2) by (simp_all add: same_but_wire_fields)
    ultimately have "session_inv (s3\<lparr>streams := (streams s3)(i \<mapsto> nextObj s)\<rparr>)"
      using \<open>session_inv s3\<close> by (intro inv_register [where st = "newStream i"]) simp_all
    with sent(1) \<open>\<not> die s3\<close> show ?thesis unfolding unf inv_parts by simp
  next
    case (failed s3 e)
    with i2 inv_wcf show ?thesis unfolding unf by simp
  qed
qed

lemma inv_Run_client: "session_inv s \<Longrightarrow> session_inv (Run_client rnd order s)"
proof -
  assume "session_inv s"
  then have "inv_but {} (s\<lparr>buffering := True\<rparr>)" unfolding inv_parts by simp
  then show ?thesis
    unfolding Run_client_def session_inv_def by (rule inv_writeControlFrame)
qed

end
