(* ===== verification/RecvLoop.thy ===== *)
theory RecvLoop
  imports Session
begin

text \<open>
  \<^verbatim>\<open>recvLoop\<close> of \<^verbatim>\<open>proxy/session/session.go\<close>: one definition per command
  of the switch, in the order of the code, then one iteration and the loop. The bytes the
  connection still delivers before its end are the argument \<open>inp\<close>; every handler returns what
  is left of them. What an iteration leaves to the other goroutines is state: a goroutine
  started for a new stream is an entry of \<open>accepted\<close>.
\<close>

text \<open>What the functions outside the session contribute: the random source, the digest, and the
  environment variable \<^verbatim>\<open>CLIENT_DEBUG_PADDING_SCHEME\<close>.\<close>

record env =
  e_rnd :: randomness
  e_md5 :: "bytes \<Rightarrow> string"
  e_debug :: bool

datatype ctl = Continue | Return "go_error option"

section \<open>Reading a payload\<close>

text \<open>The pattern of every command with data: nothing if the length is zero, otherwise read it
  and go on with \<open>k\<close>, or return the read error.\<close>

definition with_payload ::
    "session \<Rightarrow> nat \<Rightarrow> bytes \<Rightarrow> (bytes \<Rightarrow> session \<times> ctl) \<Rightarrow> session \<times> bytes \<times> ctl" where
  "with_payload s len inp k =
     (if len > 0 then
        (case read_full len inp of
           Inl e \<Rightarrow> (s, [], Return (Some e))
         | Inr (buf, rest) \<Rightarrow> (case k buf of (s', c) \<Rightarrow> (s', rest, c)))
      else (s, inp, Continue))"

section \<open>The commands\<close>

definition psh_data :: "session \<Rightarrow> u32 \<Rightarrow> bytes \<Rightarrow> session \<times> ctl" where
  "psh_data s i buf =
     (case streams s i of
        None \<Rightarrow> (s, Continue)
      | Some a \<Rightarrow>
          (upd_obj a (\<lambda>st. st\<lparr>st_pipe := fst (pipe_Write buf (st_pipe st))\<rparr>) s, Continue))"

definition no_settings_alert :: bytes where
  "no_settings_alert = bytes_of ''client did not send its settings''"

definition on_SYN :: "env \<Rightarrow> session \<Rightarrow> bool \<Rightarrow> u32 \<Rightarrow> session \<times> ctl" where
  "on_SYN E s receivedSettings i =
     (if \<not> isClient s \<and> \<not> receivedSettings then
        (fst (writeControlFrame (e_rnd E) s ((newFrame cmdAlert 0)\<lparr>data := no_settings_alert\<rparr>)),
         Return None)
      else
        (case streams s i of
           None \<Rightarrow>
             (let a = nextObj s
              in (s\<lparr>nextObj := Suc a, objs := (objs s)(a \<mapsto> newStream i),
                    streams := (streams s)(i \<mapsto> a), accepted := accepted s @ [a]\<rparr>, Continue))
         | Some _ \<Rightarrow> (s, Continue)))"

text \<open>The goroutine of an accepted stream, where no handler is set: it closes the stream. With a
  handler, what it does is up to \<open>onNewStream\<close>.\<close>

definition accept_goroutine :: "env \<Rightarrow> session \<Rightarrow> nat \<Rightarrow> session" where
  "accept_goroutine E s a =
     (if onNewStream s then s else fst (stream_Close (e_rnd E) s a))"

definition synack_done :: "session \<Rightarrow> session" where
  "synack_done s = (call_synDone s)\<lparr>synDone := None\<rparr>"

definition synack_data :: "env \<Rightarrow> session \<Rightarrow> u32 \<Rightarrow> bytes \<Rightarrow> session \<times> ctl" where
  "synack_data E s i buf =
     (case streams s i of
        None \<Rightarrow> (s, Continue)
      | Some a \<Rightarrow> (fst (closeWithError (e_rnd E) s a (RemoteError buf)), Continue))"

definition on_FIN :: "session \<Rightarrow> u32 \<Rightarrow> session" where
  "on_FIN s i =
     (case streams s i of
        None \<Rightarrow> s
      | Some a \<Rightarrow> upd_obj a (closeLocally (die s)) (s\<lparr>streams := (streams s)(i := None)\<rparr>))"

definition settings_padding :: "env \<Rightarrow> session \<Rightarrow> string_map \<Rightarrow> session \<times> go_error option" where
  "settings_padding E s m =
     (if sm_get m ''padding-md5'' \<noteq> Md5 (padding s) then
        (case writeControlFrame (e_rnd E) s
                ((newFrame cmdUpdatePaddingScheme 0)\<lparr>data := RawScheme (padding s)\<rparr>) of
           (s', _, e) \<Rightarrow> (s', e))
      else (s, None))"

definition settings_version :: "env \<Rightarrow> session \<Rightarrow> string_map \<Rightarrow> session \<times> go_error option" where
  "settings_version E s m =
     (case atoi (sm_get m ''v'') of
        None \<Rightarrow> (s, None)
      | Some v \<Rightarrow>
          (if v \<ge> 2 then
             (case writeControlFrame (e_rnd E) (s\<lparr>peerVersion := word_of_int v\<rparr>)
                     ((newFrame cmdServerSettings 0)\<lparr>data := ToBytes [(''v'', ''2'')]\<rparr>) of
                (s', _, e) \<Rightarrow> (s', e))
           else (s, None)))"

definition settings_data :: "env \<Rightarrow> session \<Rightarrow> bytes \<Rightarrow> session \<times> ctl" where
  "settings_data E s buf =
     (if isClient s then (s, Continue)
      else
        (let m = StringMapFromBytes buf
         in case settings_padding E s m of
              (s1, Some e) \<Rightarrow> (s1, Return (Some e))
            | (s1, None) \<Rightarrow>
                (case settings_version E s1 m of
                   (s2, Some e) \<Rightarrow> (s2, Return (Some e))
                 | (s2, None) \<Rightarrow> (s2, Continue))))"

definition alert_data :: "session \<Rightarrow> bytes \<Rightarrow> session \<times> ctl" where
  "alert_data s buf =
     ((if isClient s then s\<lparr>alerts := alerts s @ [buf]\<rparr> else s), Return None)"

definition update_padding_data :: "env \<Rightarrow> session \<Rightarrow> bytes \<Rightarrow> session \<times> ctl" where
  "update_padding_data E s rawScheme =
     ((if isClient s \<and> \<not> e_debug E
       then s\<lparr>padding := fst (UpdatePaddingScheme (e_md5 E) rawScheme (padding s))\<rparr> else s),
      Continue)"

definition on_HeartRequest :: "env \<Rightarrow> session \<Rightarrow> u32 \<Rightarrow> session \<times> ctl" where
  "on_HeartRequest E s i =
     (case writeControlFrame (e_rnd E) s (newFrame cmdHeartResponse i) of
        (s', _, Some e) \<Rightarrow> (s', Return (Some e))
      | (s', _, None) \<Rightarrow> (s', Continue))"

definition server_settings_data :: "session \<Rightarrow> bytes \<Rightarrow> session \<times> ctl" where
  "server_settings_data s buf =
     ((if isClient s then
         (case atoi (sm_get (StringMapFromBytes buf) ''v'') of
            None \<Rightarrow> s
          | Some v \<Rightarrow> s\<lparr>peerVersion := word_of_int v\<rparr>)
       else s), Continue)"

section \<open>One iteration\<close>

text \<open>The switch on the command, after the header has been read: command, stream id, data
  length, the rest of the input.\<close>

definition dispatch ::
    "env \<Rightarrow> session \<Rightarrow> bool \<Rightarrow> byte \<Rightarrow> u32 \<Rightarrow> nat \<Rightarrow> bytes \<Rightarrow> session \<times> bytes \<times> bool \<times> ctl" where
  "dispatch E s got c i len inp =
     (let keep = (\<lambda>(s', rest, k). (s', rest, got, k));
          nodata = (\<lambda>(s', k). (s', inp, got, k))
      in if c = cmdPSH then keep (with_payload s len inp (psh_data s i))
         else if c = cmdSYN then nodata (on_SYN E s got i)
         else if c = cmdSYNACK then
           keep (with_payload (synack_done s) len inp (synack_data E (synack_done s) i))
         else if c = cmdFIN then nodata (on_FIN s i, Continue)
         else if c = cmdWaste then keep (with_payload s len inp (\<lambda>_. (s, Continue)))
         else if c = cmdSettings then
           (case with_payload s len inp (settings_data E s) of
              (s', rest, k) \<Rightarrow>
                (s', rest, got \<or> (\<not> isClient s \<and> 0 < len \<and> len \<le> length inp), k))
         else if c = cmdAlert then keep (with_payload s len inp (alert_data s))
         else if c = cmdUpdatePaddingScheme then
           keep (with_payload s len inp (update_padding_data E s))
         else if c = cmdHeartRequest then nodata (on_HeartRequest E s i)
         else if c = cmdHeartResponse then nodata (s, Continue)
         else if c = cmdServerSettings then
           keep (with_payload s len inp (server_settings_data s))
         else nodata (s, Continue))"

definition recv_step :: "env \<Rightarrow> session \<Rightarrow> bool \<Rightarrow> bytes \<Rightarrow> session \<times> bytes \<times> bool \<times> ctl" where
  "recv_step E s got inp =
     (if IsClosed s then (s, inp, got, Return (Some ErrClosedPipe))
      else
        (case read_full headerOverHeadSize inp of
           Inl e \<Rightarrow> (s, [], got, Return (Some e))
         | Inr (hdr, rest) \<Rightarrow>
             dispatch E s got (hdr_Cmd hdr) (hdr_StreamID hdr) (unat (hdr_Length hdr)) rest))"

section \<open>The loop\<close>

text \<open>An iteration that goes on has consumed a header at least.\<close>

lemma with_payload_length: "with_payload s len inp k = (s', rest, c) \<Longrightarrow> length rest \<le> length inp"
  by (auto simp: with_payload_def read_full_def split: if_splits sum.splits prod.splits)

lemma dispatch_length:
  "dispatch E s got c i len inp = (s', rest, got', k) \<Longrightarrow> length rest \<le> length inp"
  by (auto simp: dispatch_def Let_def split: if_splits prod.splits dest!: with_payload_length)

lemma recv_step_length:
  "recv_step E s got inp = (s', rest, got', Continue) \<Longrightarrow> length rest < length inp"
  by (auto simp: recv_step_def split: if_splits sum.splits prod.splits
      dest!: dispatch_length read_full_length)

function recv_iter :: "env \<Rightarrow> session \<Rightarrow> bool \<Rightarrow> bytes \<Rightarrow> session \<times> go_error option" where
  "recv_iter E s got inp =
     (case recv_step E s got inp of
        (s', rest, got', Return e) \<Rightarrow> (s', e)
      | (s', rest, got', Continue) \<Rightarrow> recv_iter E s' got' rest)"
  by pat_completeness auto
termination
  by (relation "measure (\<lambda>(E, s, got, inp). length inp)") (auto dest: recv_step_length [OF sym])

declare recv_iter.simps [simp del]

text \<open>\<open>recvLoop\<close> with its deferred \<open>Close\<close>.\<close>

definition recvLoop :: "env \<Rightarrow> session \<Rightarrow> bytes \<Rightarrow> session \<times> go_error option" where
  "recvLoop E s inp =
     (case recv_iter E s False inp of (s', e) \<Rightarrow> (fst (Close s'), e))"

section \<open>What a frame means\<close>

text \<open>The commands whose data the code reads. Any other command must come without data; the
  protocol says so, and the loop would take the data for the next header.\<close>

definition carries_data :: "byte \<Rightarrow> bool" where
  "carries_data c \<longleftrightarrow> c \<in> {cmdPSH, cmdSYNACK, cmdWaste, cmdSettings, cmdAlert,
     cmdUpdatePaddingScheme, cmdServerSettings}"

definition frame_ok :: "frame \<Rightarrow> bool" where
  "frame_ok f \<longleftrightarrow> length (data f) < 2 ^ 16 \<and> (carries_data (cmd f) \<or> data f = [])"

text \<open>The loop seen from above: what a session does with a whole frame, bytes aside. The state is
  the session and whether settings have been received.\<close>

definition when_data :: "session \<Rightarrow> bytes \<Rightarrow> (bytes \<Rightarrow> session \<times> ctl) \<Rightarrow> session \<times> ctl" where
  "when_data s d k = (if d = [] then (s, Continue) else k d)"

definition handle :: "env \<Rightarrow> session \<times> bool \<Rightarrow> frame \<Rightarrow> (session \<times> bool) \<times> ctl" where
  "handle E sg f =
     (case sg of (s, got) \<Rightarrow>
        (let c = cmd f; i = sid f; d = data f;
             (s', k) =
               (if IsClosed s then (s, Return (Some ErrClosedPipe))
                else if c = cmdPSH then when_data s d (psh_data s i)
                else if c = cmdSYN then on_SYN E s got i
                else if c = cmdSYNACK then
                  when_data (synack_done s) d (synack_data E (synack_done s) i)
                else if c = cmdFIN then (on_FIN s i, Continue)
                else if c = cmdSettings then when_data s d (settings_data E s)
                else if c = cmdAlert then when_data s d (alert_data s)
                else if c = cmdUpdatePaddingScheme then when_data s d (update_padding_data E s)
                else if c = cmdHeartRequest then on_HeartRequest E s i
                else if c = cmdServerSettings then when_data s d (server_settings_data s)
                else (s, Continue))
         in ((s', got \<or> (\<not> IsClosed s \<and> c = cmdSettings \<and> \<not> isClient s \<and> d \<noteq> [])), k)))"

fun run_frames :: "('s \<Rightarrow> frame \<Rightarrow> 's \<times> ctl) \<Rightarrow> 's \<Rightarrow> frame list \<Rightarrow> 's \<times> ctl" where
  "run_frames act s [] = (s, Continue)"
| "run_frames act s (f # fs) =
     (case act s f of
        (s', Continue) \<Rightarrow> run_frames act s' fs
      | (s', Return e) \<Rightarrow> (s', Return e))"

section \<open>The interface of a framed loop\<close>

text \<open>A loop over bytes \<open>iter\<close> implements a machine over frames \<open>act\<close> if it takes one encoded
  frame off its input per round; \<open>fin\<close> is its result on return.\<close>

locale framed_loop =
  fixes act :: "'s \<Rightarrow> frame \<Rightarrow> 's \<times> ctl"
    and iter :: "'s \<Rightarrow> bytes \<Rightarrow> 'r"
    and fin :: "'s \<Rightarrow> go_error option \<Rightarrow> 'r"
  assumes iter_frame: "frame_ok f \<Longrightarrow>
    iter s (encode_frame f @ rest) =
      (case act s f of (s', Continue) \<Rightarrow> iter s' rest | (s', Return e) \<Rightarrow> fin s' e)"
begin

lemma iter_frames:
  "list_all frame_ok fs \<Longrightarrow>
   iter s (concat (map encode_frame fs) @ rest) =
     (case run_frames act s fs of (s', Continue) \<Rightarrow> iter s' rest | (s', Return e) \<Rightarrow> fin s' e)"
  by (induction fs arbitrary: s) (simp_all add: iter_frame split: prod.splits ctl.splits)

lemma iter_only_frames:
  "list_all frame_ok fs \<Longrightarrow>
   iter s (concat (map encode_frame fs)) =
     (case run_frames act s fs of (s', Continue) \<Rightarrow> iter s' [] | (s', Return e) \<Rightarrow> fin s' e)"
  using iter_frames [of fs s "[]"] by simp

end

section \<open>The receive loop implements the frame machine\<close>

lemma with_payload_append:
  "with_payload s (length d) (d @ rest) k = (case when_data s d k of (s', c) \<Rightarrow> (s', rest, c))"
  by (auto simp: with_payload_def when_data_def split: prod.splits)

lemma with_payload_empty: "with_payload s 0 inp k = (s, inp, Continue)"
  by (simp add: with_payload_def)

lemma cmds_distinct:
  "distinct [cmdWaste, cmdSYN, cmdPSH, cmdFIN, cmdSettings, cmdAlert, cmdUpdatePaddingScheme,
     cmdSYNACK, cmdHeartRequest, cmdHeartResponse, cmdServerSettings]"
  by (simp add: cmd_defs)

lemma when_data_const [simp]: "when_data s d (\<lambda>_. (s, Continue)) = (s, Continue)"
  by (simp add: when_data_def)

lemma carries_dataD: "frame_ok f \<Longrightarrow> cmd f = c \<Longrightarrow> \<not> carries_data c \<Longrightarrow> data f = []"
  by (auto simp: frame_ok_def)

lemma dispatch_handle:
  assumes ok: "frame_ok f" and live: "\<not> IsClosed s"
  shows "dispatch E s got (cmd f) (sid f) (length (data f)) (data f @ rest) =
    (case handle E (s, got) f of ((s', got'), k) \<Rightarrow> (s', rest, got', k))"
proof -
  let ?c = "cmd f"
  note defs = dispatch_def handle_def Let_def with_payload_append live cmd_defs
  consider "?c = cmdPSH" | "?c = cmdSYN" | "?c = cmdSYNACK" | "?c = cmdFIN" | "?c = cmdWaste"
    | "?c = cmdSettings" | "?c = cmdAlert" | "?c = cmdUpdatePaddingScheme"
    | "?c = cmdHeartRequest" | "?c = cmdServerSettings"
    | "\<not> carries_data ?c" "?c \<noteq> cmdSYN" "?c \<noteq> cmdFIN" "?c \<noteq> cmdHeartRequest"
    unfolding carries_data_def by blast
  then show ?thesis
  proof cases
    case 2
    then have "data f = []" by (intro carries_dataD [OF ok]) (auto simp: carries_data_def cmd_defs)
    with 2 show ?thesis by (simp add: defs split: prod.splits)
  next
    case 4
    then have "data f = []" by (intro carries_dataD [OF ok]) (auto simp: carries_data_def cmd_defs)
    with 4 show ?thesis by (simp add: defs split: prod.splits)
  next
    case 9
    then have "data f = []" by (intro carries_dataD [OF ok]) (auto simp: carries_data_def cmd_defs)
    with 9 show ?thesis by (simp add: defs split: prod.splits)
  next
    case 11
    then have "data f = []" by (intro carries_dataD [OF ok]) auto
    with 11 show ?thesis by (simp add: defs carries_data_def split: prod.splits)
  qed (simp_all add: defs split: prod.splits)
qed

lemma recv_step_frame:
  assumes "frame_ok f"
  shows "recv_step E s got (encode_frame f @ rest) =
    (if IsClosed s then (s, encode_frame f @ rest, got, Return (Some ErrClosedPipe))
     else (case handle E (s, got) f of ((s', got'), k) \<Rightarrow> (s', rest, got', k)))"
proof -
  have "length (data f) mod 65536 = length (data f)"
    using assms by (simp add: frame_ok_def)
  then show ?thesis
    using dispatch_handle [OF assms]
    by (simp add: recv_step_def encode_frame_def encode_header hdr_Cmd_header hdr_StreamID_header
        unat_hdr_Length_header)
qed

text \<open>The loop on a pair of session and settings flag.\<close>

definition iter_pair :: "env \<Rightarrow> session \<times> bool \<Rightarrow> bytes \<Rightarrow> session \<times> go_error option" where
  "iter_pair E sg inp = (case sg of (s, got) \<Rightarrow> recv_iter E s got inp)"

definition fin_pair :: "session \<times> bool \<Rightarrow> go_error option \<Rightarrow> session \<times> go_error option" where
  "fin_pair sg e = (fst sg, e)"

interpretation fl: framed_loop "handle E" "iter_pair E" fin_pair
proof unfold_locales
  fix f rest and s :: "session \<times> bool"
  assume f: "frame_ok f"
  obtain t got where s: "s = (t, got)" by (cases s)
  have closed: "handle E (t, got) f = ((t, got), Return (Some ErrClosedPipe))" if "IsClosed t"
    using that by (simp add: handle_def)
  have "recv_iter E t got (encode_frame f @ rest) =
    (case handle E (t, got) f of
       ((t', got'), Continue) \<Rightarrow> recv_iter E t' got' rest | ((t', got'), Return e) \<Rightarrow> (t', e))"
    by (subst recv_iter.simps)
      (simp add: recv_step_frame [OF f] closed split: prod.split ctl.split)
  then show "iter_pair E s (encode_frame f @ rest) =
    (case handle E s f of (s', Continue) \<Rightarrow> iter_pair E s' rest | (s', Return e) \<Rightarrow> fin_pair s' e)"
    by (simp add: s iter_pair_def fin_pair_def split: prod.split ctl.split)
qed

lemma recv_iter_frames:
  "list_all frame_ok fs \<Longrightarrow>
   recv_iter E s got (concat (map encode_frame fs)) =
     (case run_frames (handle E) (s, got) fs of
        ((s', got'), Continue) \<Rightarrow> recv_iter E s' got' []
      | ((s', got'), Return e) \<Rightarrow> (s', e))"
  using fl.iter_only_frames [of fs E "(s, got)"]
  by (simp add: iter_pair_def fin_pair_def split: prod.splits ctl.splits)

lemma recv_iter_end:
  "recv_iter E s got [] = (s, Some (if IsClosed s then ErrClosedPipe else EOF))"
  by (subst recv_iter.simps) (simp add: recv_step_def read_full_def)

section \<open>The loop keeps the session invariant\<close>

lemma inv_psh_data: "session_inv s \<Longrightarrow> session_inv (fst (psh_data s i buf))"
  unfolding psh_data_def session_inv_def
  by (auto split: option.splits intro!: inv_upd_obj [where X = "{}"] simp: stream_ok_def)

lemma inv_accept:
  assumes "session_inv s" and "\<not> die s"
  shows "session_inv (s\<lparr>nextObj := Suc (nextObj s), objs := (objs s)(nextObj s \<mapsto> newStream i),
    streams := (streams s)(i \<mapsto> nextObj s), accepted := accepted s @ [nextObj s]\<rparr>)"
proof -
  let ?s1 = "s\<lparr>streamId := streamId s, nextObj := Suc (nextObj s),
    objs := (objs s)(nextObj s \<mapsto> newStream i)\<rparr>"
  let ?s2 = "?s1\<lparr>streams := (streams ?s1)(i \<mapsto> nextObj s)\<rparr>"
  have "session_inv ?s1" using assms(1) by (rule inv_alloc)
  then have "session_inv ?s2"
    using assms(2) by (intro inv_register [where st = "newStream i"]) simp_all
  then have "session_inv (?s2\<lparr>accepted := accepted s @ [nextObj s]\<rparr>)"
    unfolding session_inv_def inv_but_def
    by (auto simp: heap_ok_def registry_ok_def status_ok_def watchers_ok_def)
  then show ?thesis by simp
qed

lemma inv_on_SYN: "session_inv s \<Longrightarrow> \<not> die s \<Longrightarrow> session_inv (fst (on_SYN E s got i))"
  using inv_accept [of s i] inv_writeControlFrame [of "{}" s]
  by (auto simp: on_SYN_def Let_def session_inv_def split: option.splits)

lemma inv_on_FIN:
  assumes "session_inv s"
  shows "session_inv (on_FIN s i)"
proof (cases "streams s i")
  case None
  with assms show ?thesis by (simp add: on_FIN_def)
next
  case (Some a)
  then obtain st where st: "objs s a = Some st" "st_id st = i"
    using session_inv_registered [OF assms] by blast
  let ?s = "upd_obj a (closeLocally (die s)) s"
  have "inv_but {a} ?s"
    by (rule inv_upd_obj [OF assms [unfolded session_inv_def]]) simp_all
  moreover have "objs ?s a = Some (closeLocally (die s) st)"
    using st by (simp add: upd_obj_def)
  ultimately have "session_inv (?s\<lparr>streams := (streams ?s)(i := None)\<rparr>)"
    using st by (intro inv_remove [where a = a and st = "closeLocally (die s) st"]) simp_all
  moreover have "on_FIN s i = ?s\<lparr>streams := (streams ?s)(i := None)\<rparr>"
    using Some by (cases s) (simp add: on_FIN_def upd_obj_def)
  ultimately show ?thesis by simp
qed

lemma inv_synack_done: "session_inv s \<Longrightarrow> session_inv (synack_done s)"
  unfolding synack_done_def by (rule inv_clear_synDone)

lemma inv_synack_data: "session_inv s \<Longrightarrow> session_inv (fst (synack_data E s i buf))"
  by (simp add: synack_data_def inv_closeWithError split: option.splits)

lemma inv_peerVersion: "session_inv s \<Longrightarrow> session_inv (s\<lparr>peerVersion := v\<rparr>)"
  unfolding session_inv_def inv_but_def
  by (auto simp: heap_ok_def registry_ok_def status_ok_def watchers_ok_def)

lemma inv_padding: "session_inv s \<Longrightarrow> session_inv (s\<lparr>padding := p\<rparr>)"
  unfolding session_inv_def inv_but_def
  by (auto simp: heap_ok_def registry_ok_def status_ok_def watchers_ok_def)

lemma inv_alerts: "session_inv s \<Longrightarrow> session_inv (s\<lparr>alerts := as\<rparr>)"
  unfolding session_inv_def inv_but_def
  by (auto simp: heap_ok_def registry_ok_def status_ok_def watchers_ok_def)

lemma inv_settings_padding: "session_inv s \<Longrightarrow> session_inv (fst (settings_padding E s m))"
  by (auto simp: settings_padding_def split: prod.splits intro: inv_wcf)

lemma inv_settings_version: "session_inv s \<Longrightarrow> session_inv (fst (settings_version E s m))"
  by (auto simp: settings_version_def split: option.splits prod.splits
      intro: inv_wcf inv_peerVersion)

lemma inv_settings_data: "session_inv s \<Longrightarrow> session_inv (fst (settings_data E s buf))"
  using inv_settings_padding [of s E "StringMapFromBytes buf"]
    inv_settings_version [of "fst (settings_padding E s (StringMapFromBytes buf))" E
      "StringMapFromBytes buf"]
  by (auto simp: settings_data_def Let_def split: prod.splits option.splits)

lemma inv_on_HeartRequest: "session_inv s \<Longrightarrow> session_inv (fst (on_HeartRequest E s i))"
  by (auto simp: on_HeartRequest_def split: prod.splits option.splits intro: inv_wcf)

lemma inv_with_payload:
  "session_inv s \<Longrightarrow> (\<And>buf. session_inv (fst (k buf))) \<Longrightarrow>
   session_inv (fst (with_payload s len inp k))"
  by (auto simp: with_payload_def split: sum.splits prod.splits) (metis fst_conv)

lemma inv_alert_data: "session_inv s \<Longrightarrow> session_inv (fst (alert_data s buf))"
  by (simp add: alert_data_def inv_alerts)

lemma inv_update_padding_data:
  "session_inv s \<Longrightarrow> session_inv (fst (update_padding_data E s buf))"
  by (simp add: update_padding_data_def inv_padding)

lemma inv_server_settings_data: "session_inv s \<Longrightarrow> session_inv (fst (server_settings_data s buf))"
  by (simp add: server_settings_data_def inv_peerVersion split: option.split)

lemmas handler_invs = inv_psh_data inv_on_SYN inv_on_FIN inv_synack_done inv_synack_data
  inv_settings_data inv_on_HeartRequest inv_with_payload inv_alert_data
  inv_update_padding_data inv_server_settings_data

lemma inv_dispatch:
  "session_inv s \<Longrightarrow> \<not> die s \<Longrightarrow> session_inv (fst (dispatch E s got c i len inp))"
  by (simp add: dispatch_def Let_def case_prod_beta handler_invs)

lemma inv_recv_step: "session_inv s \<Longrightarrow> session_inv (fst (recv_step E s got inp))"
  by (simp add: recv_step_def IsClosed_def case_prod_beta inv_dispatch split: sum.split)

lemma inv_recv_iter: "session_inv s \<Longrightarrow> session_inv (fst (recv_iter E s got inp))"
proof (induction E s got inp rule: recv_iter.induct)
  case (1 E s got inp)
  obtain s' rest got' k where st: "recv_step E s got inp = (s', rest, got', k)"
    by (metis prod_cases4)
  have "session_inv s'" using inv_recv_step [OF "1.prems", of E got inp] st by simp
  with 1 st show ?case by (subst recv_iter.simps) (cases k; simp)
qed

lemma inv_recvLoop: "session_inv s \<Longrightarrow> session_inv (fst (recvLoop E s inp))"
  using inv_recv_iter [of s E False inp]
  by (auto simp: recvLoop_def session_inv_def split: prod.splits
      intro: inv_Close [unfolded session_inv_def])

section \<open>Delivery\<close>

text \<open>The bytes a list of frames carries for stream \<open>i\<close>, in order.\<close>

definition stream_data :: "u32 \<Rightarrow> frame list \<Rightarrow> bytes" where
  "stream_data i fs = concat (map data (filter (\<lambda>f. cmd f = cmdPSH \<and> sid f = i) fs))"

definition transfer :: "frame \<Rightarrow> bool" where
  "transfer f \<longleftrightarrow> cmd f = cmdPSH \<or> cmd f = cmdWaste"

lemma stream_data_simps [simp]:
  "stream_data i [] = []"
  "stream_data i (f # fs) =
     (if cmd f = cmdPSH \<and> sid f = i then data f else []) @ stream_data i fs"
  by (simp_all add: stream_data_def)

text \<open>What one object has received: only the bytes delivered may change.\<close>

definition obj_received :: "session \<Rightarrow> session \<Rightarrow> nat \<Rightarrow> bytes \<Rightarrow> bool" where
  "obj_received s s' a d \<longleftrightarrow>
     (\<forall>st. objs s a = Some st \<longrightarrow>
        (\<exists>st'. objs s' a = Some st' \<and> st_id st' = st_id st
           \<and> p_delivered (st_pipe st') = p_delivered (st_pipe st) @ d))"

lemma obj_received_trans:
  "obj_received s t a d \<Longrightarrow> obj_received t u a e \<Longrightarrow> obj_received s u a (d @ e)"
  unfolding obj_received_def by (metis append.assoc)

lemma obj_received_refl [simp]: "obj_received s s a []"
  by (simp add: obj_received_def)

lemma obj_received_Close: "obj_received s (fst (Close s)) a []"
  by (auto simp: obj_received_def Close_def conn_Close_def closeLocally_def kill_def)

lemma registry_inj:
  "session_inv s \<Longrightarrow> streams s i = Some a \<Longrightarrow> streams s j = Some a \<Longrightarrow> i = j"
  using session_inv_registered [of s i a] session_inv_registered [of s j a] by auto

lemma registered_open:
  assumes "session_inv s" and "streams s i = Some a"
  obtains st where "objs s a = Some st" "\<not> p_done (st_pipe st)"
proof -
  obtain st where st: "objs s a = Some st" "\<not> st_dieOnce st"
    using session_inv_registered [OF assms] by blast
  then have "\<not> p_done (st_pipe st)"
    using assms(1) unfolding session_inv_def inv_but_def heap_ok_def stream_ok_def by blast
  with st(1) show ?thesis by (rule that)
qed

text \<open>Data for stream \<open>j\<close> goes to the object registered under \<open>j\<close> and to no other.\<close>

lemma psh_data_received:
  assumes inv: "session_inv s" and a: "streams s i = Some a"
  shows "obj_received s (fst (psh_data s j d)) a (if j = i then d else [])"
proof (cases "streams s j")
  case None
  with a show ?thesis by (auto simp: psh_data_def)
next
  case (Some b)
  show ?thesis
  proof (cases "j = i")
    case True
    obtain st where "objs s a = Some st" "\<not> p_done (st_pipe st)"
      using registered_open [OF inv a] by blast
    with True a show ?thesis
      by (simp add: obj_received_def psh_data_def upd_obj_def pipe_Write_open)
  next
    case False
    with Some a have "a \<noteq> b" using registry_inj [OF inv] by blast
    with False Some show ?thesis by (simp add: obj_received_def psh_data_def upd_obj_def)
  qed
qed

lemma psh_data_fields:
  "streams (fst (psh_data s i d)) = streams s" "die (fst (psh_data s i d)) = die s"
  "snd (psh_data s i d) = Continue" "conn (fst (psh_data s i d)) = conn s"
  "accepted (fst (psh_data s i d)) = accepted s" "peerVersion (fst (psh_data s i d)) = peerVersion s"
  by (simp_all add: psh_data_def upd_obj_def split: option.split)

text \<open>A transfer frame on an open session gives its data to the registered stream and nothing to
  any other object.\<close>

lemma handle_transfer:
  assumes inv: "session_inv s" and live: "\<not> die s" and f: "transfer f"
  obtains s' where "handle E (s, got) f = ((s', got), Continue)" "streams s' = streams s"
    "\<not> die s'" "session_inv s'" "conn s' = conn s" "accepted s' = accepted s"
    "peerVersion s' = peerVersion s"
    "\<And>i a. streams s i = Some a \<Longrightarrow>
       obj_received s s' a (if cmd f = cmdPSH \<and> sid f = i then data f else [])"
proof (cases "cmd f = cmdPSH \<and> data f \<noteq> []")
  case True
  let ?s' = "fst (psh_data s (sid f) (data f))"
  have "psh_data s (sid f) (data f) = (?s', Continue)"
    using psh_data_fields(3) by (metis prod.collapse)
  with True live have h: "handle E (s, got) f = ((?s', got), Continue)"
    by (cases "psh_data s (sid f) (data f)") (simp add: handle_def IsClosed_def when_data_def cmd_defs)
  show ?thesis
  proof (rule that [OF h])
    show "obj_received s ?s' a (if cmd f = cmdPSH \<and> sid f = i then data f else [])"
      if "streams s i = Some a" for i a
      using psh_data_received [OF inv that] True by simp
  qed (use live inv_psh_data [OF inv] in \<open>simp_all add: psh_data_fields\<close>)
next
  case False
  then have "handle E (s, got) f = ((s, got), Continue)"
    using f live by (auto simp: handle_def IsClosed_def when_data_def transfer_def cmd_defs)
  with inv live False show ?thesis by (intro that [of s]) auto
qed

lemma run_transfer:
  assumes "session_inv s" and "\<not> die s" and "list_all transfer fs"
  shows "\<exists>s'. run_frames (handle E) (s, got) fs = ((s', got), Continue) \<and> \<not> die s'
    \<and> session_inv s' \<and> streams s' = streams s \<and> conn s' = conn s \<and> accepted s' = accepted s
    \<and> peerVersion s' = peerVersion s
    \<and> (\<forall>i a. streams s i = Some a \<longrightarrow> obj_received s s' a (stream_data i fs))"
  using assms
proof (induction fs arbitrary: s)
  case Nil
  then show ?case by simp
next
  case (Cons f fs)
  from Cons.prems have f: "transfer f" and fs: "list_all transfer fs" by simp_all
  obtain s1 where s1: "handle E (s, got) f = ((s1, got), Continue)" "streams s1 = streams s"
    "\<not> die s1" "session_inv s1" "conn s1 = conn s" "accepted s1 = accepted s"
    "peerVersion s1 = peerVersion s"
    "\<And>i a. streams s i = Some a \<Longrightarrow>
       obj_received s s1 a (if cmd f = cmdPSH \<and> sid f = i then data f else [])"
    using handle_transfer [OF Cons.prems(1,2) f] by metis
  from Cons.IH [OF s1(4,3) fs] obtain s2 where
    s2: "run_frames (handle E) (s1, got) fs = ((s2, got), Continue)" "\<not> die s2" "session_inv s2"
      "streams s2 = streams s1" "conn s2 = conn s1" "accepted s2 = accepted s1"
      "peerVersion s2 = peerVersion s1"
      "\<And>i a. streams s1 i = Some a \<Longrightarrow> obj_received s1 s2 a (stream_data i fs)"
    by blast
  have "obj_received s s2 a (stream_data i (f # fs))" if "streams s i = Some a" for i a
    using obj_received_trans [OF s1(8) [OF that] s2(8) [of i a]] that s1(2) by simp
  with s1 s2 show ?case by simp
qed

lemma recvLoop_transfer:
  assumes "session_inv s" and "\<not> die s" and "list_all transfer fs" and "list_all frame_ok fs"
    and "streams s i = Some a"
  shows "obj_received s (fst (recvLoop E s (concat (map encode_frame fs)))) a (stream_data i fs)
    \<and> snd (recvLoop E s (concat (map encode_frame fs))) = Some EOF"
proof -
  obtain s' where s': "run_frames (handle E) (s, False) fs = ((s', False), Continue)" "\<not> die s'"
    "obj_received s s' a (stream_data i fs)"
    using run_transfer [OF assms(1-3)] assms(5) by blast
  have "recvLoop E s (concat (map encode_frame fs)) = (fst (Close s'), Some EOF)"
    using s' assms(4) by (simp add: recvLoop_def recv_iter_frames recv_iter_end IsClosed_def)
  moreover have "obj_received s (fst (Close s')) a (stream_data i fs)"
    using obj_received_trans [OF s'(3) obj_received_Close] by simp
  ultimately show ?thesis by simp
qed

end
