(* ===== verification/Lifecycle.thy ===== *)
theory Lifecycle
  imports RecvLoop
begin

text \<open>
  The session as a state machine: its operations and the rounds of its receive loop as the steps
  of one relation, the invariant of every reachable state, and what the single operations of
  \<^verbatim>\<open>proxy/session\<close> promise on a healthy connection.
\<close>

section \<open>Writes on a healthy connection\<close>

text \<open>The connection does not fail and the padding scheme stays within the length field.\<close>

definition healthy :: "randomness \<Rightarrow> session \<Rightarrow> bool" where
  "healthy rnd s \<longleftrightarrow> rand_ok rnd \<and> scheme_bounded (padding s) \<and> no_failure (conn s)"

text \<open>What the session has put out: the bytes sent, and the bytes that wait for the first
  write after the handshake.\<close>

definition outflow :: "session \<Rightarrow> bytes" where
  "outflow s = sent (conn s) @ buffer s"

definition wrote :: "session \<Rightarrow> bytes \<Rightarrow> session \<Rightarrow> bool" where
  "wrote s b s' \<longleftrightarrow>
     (\<exists>w. waste_run w \<and> outflow s' = outflow s @ b @ w
        \<and> (buffering s \<or> \<not> sendPadding s \<longrightarrow> w = [])
        \<and> (if buffering s then sent (conn s') = sent (conn s) else buffer s' = []))"

lemma writeConn_plain:
  "no_failure (conn s) \<Longrightarrow> \<not> buffering s \<Longrightarrow> \<not> sendPadding s \<Longrightarrow>
   writeConn rnd s b =
     (s\<lparr>buffer := [], conn := (conn s)\<lparr>c_calls := Suc (c_calls (conn s)),
        c_out := c_out (conn s) @ [buffer s @ b]\<rparr>\<rparr>, length (buffer s @ b), None)"
  by (simp add: writeConn_flush Let_def write_raw_def conn_Write_no_failure)

lemma writeConn_healthy:
  assumes h: "healthy rnd s" and w: "writeConn rnd s b = (s', n, e)"
  shows "e = None \<and> healthy rnd s' \<and> wrote s b s'"
proof -
  have fits: "scheme_fits rnd (padding s)"
    using h by (simp add: healthy_def scheme_bounded_fits)
  have nf: "no_failure (conn s)" using h by (simp add: healthy_def)
  from writeConn_no_failure [OF fits nf w] have e: "e = None" "no_failure (conn s')" by auto
  have "padding s' = padding s" using same_but_wire_fields(10) [OF writeConn_same [OF w]] .
  with h e have h': "healthy rnd s'" by (simp add: healthy_def)
  have "wrote s b s'"
  proof (cases "buffering s")
    case True
    with w show ?thesis
      by (auto simp: writeConn_buffering wrote_def outflow_def intro!: exI [of _ "[]"])
  next
    case buf: False
    show ?thesis
    proof (cases "sendPadding s")
      case True
      from writeConn_progressed [OF fits buf w] e(1) have "buffer s' = []"
        "\<exists>w. waste_run w \<and> sent (conn s') = sent (conn s) @ buffer s @ b @ w"
        by (auto simp: progressed_def)
      with True buf show ?thesis by (auto simp: wrote_def outflow_def)
    next
      case False
      with w writeConn_plain [OF nf buf False, of rnd b] buf show ?thesis
        by (auto simp: wrote_def outflow_def sent_def intro!: exI [of _ "[]"])
    qed
  qed
  with e h' show ?thesis by simp
qed

lemma wrote_deadline [simp]:
  "wrote (set_deadline d s) b s' = wrote s b s'" "wrote s b (set_deadline d s') = wrote s b s'"
  "healthy rnd (set_deadline d s) = healthy rnd s"
  "wrote s b (s'\<lparr>streams := m\<rparr>) = wrote s b s'"
  "wrote s b (s'\<lparr>buffering := bf\<rparr>) = wrote s b s'"
  by (simp_all add: wrote_def outflow_def sent_def set_deadline_def healthy_def no_failure_def)

lemma writeControlFrame_healthy:
  assumes "healthy rnd s"
  obtains s' where "writeControlFrame rnd s f = (s', length (data f), None)" "same_but_wire s s'"
    "healthy rnd s'" "wrote s (encode_frame f) s'"
proof -
  obtain s1 n e where w: "writeConn rnd (set_deadline True s) (encode_frame f) = (s1, n, e)"
    by (metis prod_cases3)
  have "healthy rnd (set_deadline True s)" using assms by simp
  from writeConn_healthy [OF this w]
  have e: "e = None" "healthy rnd s1" "wrote s (encode_frame f) s1" by simp_all
  have "same_but_wire s (set_deadline False s1)"
    using same_but_wire_trans [OF set_deadline_same writeConn_same [OF w]] set_deadline_same
    by (rule same_but_wire_trans)
  with w e show ?thesis
    by (intro that [of "set_deadline False s1"]) (simp_all add: writeControlFrame_def)
qed

lemma writeDataFrame_healthy:
  assumes "healthy rnd s"
  obtains s' where "writeDataFrame rnd s i d = (s', length d, None)" "same_but_wire s s'"
    "healthy rnd s'" "wrote s (encode cmdPSH i d) s'"
proof -
  obtain s1 n e where w: "writeConn rnd s (encode cmdPSH i d) = (s1, n, e)"
    by (metis prod_cases3)
  from writeConn_healthy [OF assms w] writeConn_same [OF w] w show ?thesis
    by (intro that [of s1]) (simp_all add: writeDataFrame_def)
qed

section \<open>The life of a session\<close>

text \<open>A session with its receive loop: whether settings have come, the bytes the peer still
  delivers, whether the loop runs. Bytes of the peer arrive at any time.\<close>

record life =
  sess :: session
  gotSettings :: bool
  incoming :: bytes
  running :: bool

text \<open>The operations a goroutine other than the loop performs on the session.\<close>

inductive sess_op :: "env \<Rightarrow> session \<Rightarrow> session \<Rightarrow> bool" for E where
  op_Close: "sess_op E s (fst (Close s))"
| op_OpenStream: "sess_op E s (fst (OpenStream (e_rnd E) s))"
| op_stream_Close: "sess_op E s (fst (stream_Close (e_rnd E) s a))"
| op_stream_Write: "sess_op E s (fst (stream_Write (e_rnd E) s a b))"
| op_HandshakeFailure: "sess_op E s (fst (HandshakeFailure (e_rnd E) s a err))"
| op_HandshakeSuccess: "sess_op E s (fst (HandshakeSuccess (e_rnd E) s a))"
| op_SetReadDeadline: "stream_SetReadDeadline t a s = Returns (s', e) \<Longrightarrow> sess_op E s s'"
| op_SetWriteDeadline: "stream_SetWriteDeadline t a s = Returns (s', e) \<Longrightarrow> sess_op E s s'"
| op_read_timer: "objs s a = Some st \<Longrightarrow> deadline_step (st_readDeadline st) d \<Longrightarrow>
    sess_op E s (upd_obj a (\<lambda>st. st\<lparr>st_readDeadline := d\<rparr>) s)"
| op_write_timer: "objs s a = Some st \<Longrightarrow> deadline_step (st_writeDeadline st) d \<Longrightarrow>
    sess_op E s (upd_obj a (\<lambda>st. st\<lparr>st_writeDeadline := d\<rparr>) s)"
| op_watcher: "sess_op E s (watcher_timeout i s)"
| op_accept: "a \<in> set (accepted s) \<Longrightarrow> sess_op E s (accept_goroutine E s a)"

inductive life_step :: "env \<Rightarrow> life \<Rightarrow> life \<Rightarrow> bool" for E where
  step_op: "sess_op E (sess l) s' \<Longrightarrow> life_step E l (l\<lparr>sess := s'\<rparr>)"
| step_arrive: "life_step E l (l\<lparr>incoming := incoming l @ b\<rparr>)"
| step_recv: "running l \<Longrightarrow>
    recv_step E (sess l) (gotSettings l) (incoming l) = (s', rest, got, Continue) \<Longrightarrow>
    life_step E l (l\<lparr>sess := s', incoming := rest, gotSettings := got\<rparr>)"
| step_return: "running l \<Longrightarrow>
    recv_step E (sess l) (gotSettings l) (incoming l) = (s', rest, got, Return e) \<Longrightarrow>
    life_step E l
      (l\<lparr>sess := fst (Close s'), incoming := rest, gotSettings := got, running := False\<rparr>)"

definition client_start ::
    "env \<Rightarrow> (string_map \<Rightarrow> string_map) \<Rightarrow> conn \<Rightarrow> PaddingFactory \<Rightarrow> life" where
  "client_start E order c p =
     \<lparr>sess = Run_client (e_rnd E) order (NewClientSession c p), gotSettings = False,
      incoming = [], running = True\<rparr>"

definition server_start :: "conn \<Rightarrow> bool \<Rightarrow> PaddingFactory \<Rightarrow> life" where
  "server_start c handler p =
     \<lparr>sess = NewServerSession c handler p, gotSettings = False, incoming = [], running = True\<rparr>"

inductive reachable :: "env \<Rightarrow> life \<Rightarrow> bool" for E where
  reach_client: "\<not> c_closed c \<Longrightarrow> reachable E (client_start E order c p)"
| reach_server: "\<not> c_closed c \<Longrightarrow> reachable E (server_start c h p)"
| reach_step: "reachable E l \<Longrightarrow> life_step E l l' \<Longrightarrow> reachable E l'"

inductive_cases sess_opE: "sess_op E s s'"
inductive_cases life_stepE: "life_step E l l'"

lemma inv_accept_goroutine: "session_inv s \<Longrightarrow> session_inv (accept_goroutine E s a)"
  by (simp add: accept_goroutine_def stream_Close_def inv_closeWithError)

lemma deadline_setters:
  "stream_SetReadDeadline t a s = Returns (s', e) \<Longrightarrow>
     s' = s \<or> (\<exists>d. s' = upd_obj a (\<lambda>st. st\<lparr>st_readDeadline := d\<rparr>) s)"
  "stream_SetWriteDeadline t a s = Returns (s', e) \<Longrightarrow>
     s' = s \<or> (\<exists>d. s' = upd_obj a (\<lambda>st. st\<lparr>st_writeDeadline := d\<rparr>) s)"
  by (auto simp: stream_SetReadDeadline_def stream_SetWriteDeadline_def split: option.splits go.splits if_splits)

lemma inv_deadlines:
  "session_inv s \<Longrightarrow> session_inv (upd_obj a (\<lambda>st. st\<lparr>st_readDeadline := d\<rparr>) s)"
  "session_inv s \<Longrightarrow> session_inv (upd_obj a (\<lambda>st. st\<lparr>st_writeDeadline := d\<rparr>) s)"
  unfolding session_inv_def by (erule inv_upd_obj [where X = "{}"]; auto simp: stream_ok_def)+

lemma inv_setters:
  "stream_SetReadDeadline t a s = Returns (s', e) \<Longrightarrow> session_inv s \<Longrightarrow> session_inv s'"
  "stream_SetWriteDeadline t a s = Returns (s', e) \<Longrightarrow> session_inv s \<Longrightarrow> session_inv s'"
  using inv_deadlines by (blast dest: deadline_setters)+

lemma inv_sess_op: "sess_op E s s' \<Longrightarrow> session_inv s \<Longrightarrow> session_inv s'"
  by (induction rule: sess_op.induct)
    (simp_all add: inv_Close [of "{}"] inv_OpenStream inv_stream_Write inv_HandshakeFailure
      inv_HandshakeSuccess inv_watcher_timeout inv_accept_goroutine inv_closeWithError
      stream_Close_def inv_but_mono inv_deadlines, metis inv_setters(1), metis inv_setters(2))


section \<open>What only the receive loop changes\<close>

text \<open>An operation is mild if it keeps the role, the accepted streams and the peer's version,
  and if on a closed session it sends nothing and does not revive it.\<close>

definition mild :: "session \<Rightarrow> session \<Rightarrow> bool" where
  "mild s s' \<longleftrightarrow>
     isClient s' = isClient s \<and> accepted s' = accepted s \<and> peerVersion s' = peerVersion s
     \<and> (die s \<longrightarrow> die s') \<and> (c_closed (conn s) \<longrightarrow> c_closed (conn s'))
     \<and> (c_closed (conn s) \<longrightarrow> c_out (conn s') = c_out (conn s))"

lemma mild_refl [simp]: "mild s s"
  by (simp add: mild_def)

lemma mild_trans: "mild s t \<Longrightarrow> mild t u \<Longrightarrow> mild s u"
  by (simp add: mild_def)

lemma pad_loop_closed:
  "c_closed c \<Longrightarrow> pad_loop ls c b n = (c', b', n', e) \<Longrightarrow> c_out c' = c_out c"
proof (induction ls arbitrary: c b n)
  case (Cons l ls)
  then show ?case
    by (auto simp: pad_loop.simps(2) conn_Write_def Let_def split: if_splits)
qed simp

lemma writeConn_closed:
  "c_closed (conn s) \<Longrightarrow> writeConn rnd s b = (s', n, e) \<Longrightarrow> c_out (conn s') = c_out (conn s)"
  by (auto simp: writeConn_def write_raw_def conn_Write_def Let_def
      split: if_splits prod.splits option.splits dest: pad_loop_closed pad_loop_frame)

lemma mild_writeConn: "writeConn rnd s b = (s', n, e) \<Longrightarrow> mild s s'"
  using writeConn_same [of rnd s b s' n e] writeConn_closed [of s rnd b s' n e]
  by (simp add: mild_def same_but_wire_fields)

lemma mild_Close: "mild s (fst (Close s))"
  by (simp add: mild_def Close_def conn_Close_def)

lemma mild_deadline: "mild s (set_deadline d s)"
  by (simp add: mild_def set_deadline_def)

lemma mild_writeControlFrame:
  assumes "writeControlFrame rnd s f = (s', n, e)"
  shows "mild s s'"
proof -
  obtain t k x where w: "writeConn rnd (set_deadline True s) (encode_frame f) = (t, k, x)"
    by (metis prod_cases3)
  have "mild s t" using mild_deadline mild_writeConn [OF w] by (rule mild_trans)
  then have "mild s (set_deadline False t)" "mild s (fst (Close t))"
    using mild_deadline mild_Close by (blast intro: mild_trans)+
  with assms w show ?thesis by (cases x) (auto simp: writeControlFrame_def)
qed

lemma isClient_writeControlFrame: "isClient (fst (writeControlFrame rnd s f)) = isClient s"
  using mild_writeControlFrame [of rnd s f] by (cases "writeControlFrame rnd s f") (simp add: mild_def)

lemma mild_upd_obj [simp]: "mild (upd_obj a f s) t = mild s t" "mild s (upd_obj a f t) = mild s t"
  by (simp_all add: mild_def upd_obj_def)

lemma mild_updates [simp]:
  "mild s (t\<lparr>streams := m\<rparr>) = mild s t" "mild (t\<lparr>streams := m\<rparr>) s = mild t s"
  "mild s (t\<lparr>watchers := ws\<rparr>) = mild s t" "mild (t\<lparr>watchers := ws\<rparr>) s = mild t s"
  "mild s (t\<lparr>synDone := d\<rparr>) = mild s t" "mild (t\<lparr>synDone := d\<rparr>) s = mild t s"
  "mild s (t\<lparr>buffering := bf\<rparr>) = mild s t" "mild (t\<lparr>buffering := bf\<rparr>) s = mild t s"
  "mild s (t\<lparr>streamId := i\<rparr>) = mild s t" "mild (t\<lparr>streamId := i\<rparr>) s = mild t s"
  "mild s (t\<lparr>nextObj := k\<rparr>) = mild s t" "mild (t\<lparr>nextObj := k\<rparr>) s = mild t s"
  "mild s (t\<lparr>objs := os\<rparr>) = mild s t" "mild (t\<lparr>objs := os\<rparr>) s = mild t s"
  "mild s (t\<lparr>padding := p\<rparr>) = mild s t" "mild s (t\<lparr>alerts := as\<rparr>) = mild s t"
  by (simp_all add: mild_def)

lemma mild_closeWithError: "mild s (fst (closeWithError rnd s a err))"
  by (auto simp: closeWithError_def streamClosed_def split: option.splits prod.splits
      dest: mild_writeControlFrame)

lemma mild_stream_Write: "mild s (fst (stream_Write rnd s a b))"
  by (auto simp: stream_Write_def writeDataFrame_def split: option.splits prod.splits
      dest: mild_writeConn)

lemma mild_HandshakeFailure: "mild s (fst (HandshakeFailure rnd s a err))"
  by (auto simp: HandshakeFailure_def Let_def split: option.splits prod.splits
      dest: mild_writeControlFrame)

lemma mild_HandshakeSuccess: "mild s (fst (HandshakeSuccess rnd s a))"
  by (auto simp: HandshakeSuccess_def Let_def split: option.splits prod.splits
      dest: mild_writeControlFrame)

lemma mild_call_synDone [simp]:
  "mild s (call_synDone t) = mild s t" "mild (call_synDone t) s = mild t s"
  by (simp_all add: call_synDone_def split: option.split)

lemma mild_NewDeadlineWatcher [simp]:
  "mild s (NewDeadlineWatcher t) = mild s t" "mild (NewDeadlineWatcher t) s = mild t s"
  by (simp_all add: NewDeadlineWatcher_def)

lemma mild_watcher_timeout: "mild s (watcher_timeout i s)"
  using mild_Close [of "s\<lparr>watchers := (watchers s)[i := TimedOut]\<rparr>"]
  by (simp add: watcher_timeout_def)

lemma mild_OpenStream: "mild s (fst (OpenStream rnd s))"
  by (auto simp: OpenStream_def Let_def split: prod.splits option.splits if_splits
      dest!: mild_writeControlFrame)

lemma mild_setters:
  "stream_SetReadDeadline t a s = Returns (s', e) \<Longrightarrow> mild s s'"
  "stream_SetWriteDeadline t a s = Returns (s', e) \<Longrightarrow> mild s s'"
  by (auto dest!: deadline_setters)

lemma mild_sess_op: "sess_op E s s' \<Longrightarrow> mild s s'"
  by (induction rule: sess_op.induct)
    (simp_all add: mild_Close mild_OpenStream mild_stream_Write mild_HandshakeFailure
      mild_HandshakeSuccess mild_watcher_timeout mild_closeWithError stream_Close_def
      accept_goroutine_def, metis mild_setters(1), metis mild_setters(2))

section \<open>The receive loop on a server\<close>

text \<open>Before the settings no stream is accepted and no version is known.\<close>

definition settings_first :: "session \<Rightarrow> bool \<Rightarrow> bool" where
  "settings_first s got \<longleftrightarrow> (\<not> isClient s \<and> \<not> got \<longrightarrow> accepted s = [] \<and> peerVersion s = 0)"

lemma settings_first_mild: "mild s s' \<Longrightarrow> settings_first s got \<Longrightarrow> settings_first s' got"
  by (simp add: settings_first_def mild_def)

lemma mild_psh_data: "mild s (fst (psh_data s i d))"
  by (simp add: psh_data_def split: option.split)

lemma mild_on_FIN: "mild s (on_FIN s i)"
  by (simp add: on_FIN_def split: option.split)

lemma mild_synack_done [simp]: "mild s (synack_done t) = mild s t" "mild (synack_done t) s = mild t s"
  by (simp_all add: synack_done_def)

lemma mild_synack_data: "mild s (fst (synack_data E s i d))"
  by (simp add: synack_data_def mild_closeWithError split: option.split)

lemma mild_synack: "mild s (fst (synack_data E (synack_done s) i d))"
  using mild_synack_data [of "synack_done s"] by simp

lemma mild_on_HeartRequest: "mild s (fst (on_HeartRequest E s i))"
  by (auto simp: on_HeartRequest_def split: prod.splits option.splits dest: mild_writeControlFrame)

lemma mild_alert_data: "mild s (fst (alert_data s d))"
  by (simp add: alert_data_def)

lemma mild_update_padding_data: "mild s (fst (update_padding_data E s d))"
  by (simp add: update_padding_data_def)

lemma on_SYN_settings_first:
  "settings_first s got \<Longrightarrow> settings_first (fst (on_SYN E s got i)) got"
  by (cases "writeControlFrame (e_rnd E) s ((newFrame cmdAlert 0)\<lparr>data := no_settings_alert\<rparr>)")
    (auto simp: on_SYN_def settings_first_def Let_def mild_def split: option.split
      dest: mild_writeControlFrame)

lemma settings_data_client: "isClient (fst (settings_data E s d)) = isClient s"
  by (auto simp: settings_data_def Let_def settings_padding_def settings_version_def mild_def
      split: prod.splits option.splits if_splits dest!: mild_writeControlFrame)

lemma mild_server_settings_data:
  "\<not> isClient s \<Longrightarrow> mild s (fst (server_settings_data s d))"
  by (simp add: server_settings_data_def)

lemma settings_first_client: "isClient s \<Longrightarrow> settings_first s got"
  by (simp add: settings_first_def)

lemma settings_first_server_settings:
  "settings_first s got \<Longrightarrow> settings_first (fst (server_settings_data s d)) got"
  by (auto simp: server_settings_data_def settings_first_def split: option.split)

lemma settings_first_payload:
  "settings_first s got \<Longrightarrow> (\<And>d. settings_first (fst (k d)) got) \<Longrightarrow>
   settings_first (fst (with_payload s len inp k)) got"
  by (auto simp: with_payload_def split: sum.splits prod.splits) (metis fst_conv)

lemma settings_first_settings:
  assumes "settings_first s got"
    and "with_payload s len inp (settings_data E s) = (s', rest, c)"
  shows "settings_first s' (got \<or> (\<not> isClient s \<and> 0 < len \<and> len \<le> length inp))"
proof (cases "0 < len \<and> len \<le> length inp")
  case True
  then have "s' = fst (settings_data E s (take len inp))"
    using assms(2) by (auto simp: with_payload_def read_full_def split: prod.splits)
  then have "isClient s' = isClient s" by (simp add: settings_data_client)
  with True show ?thesis by (auto simp: settings_first_def)
next
  case False
  then have "s' = s"
    using assms(2) by (auto simp: with_payload_def read_full_def split: if_splits)
  with assms(1) show ?thesis by (auto simp: settings_first_def)
qed

lemma dispatch_settings_first:
  assumes s: "settings_first s got" and d: "dispatch E s got c i len inp = (s', rest, got', k)"
  shows "settings_first s' got'"
proof -
  have m: "settings_first (fst x) got" if "mild s (fst x)" for x :: "session \<times> ctl"
    using settings_first_mild [OF that s] .
  have sd: "settings_first (synack_done s) got"
    by (rule settings_first_mild [OF _ s]) simp
  have "settings_first (fst (with_payload s len inp (psh_data s i))) got"
    "settings_first (fst (with_payload (synack_done s) len inp (synack_data E (synack_done s) i))) got"
    "settings_first (fst (with_payload s len inp (\<lambda>_. (s, Continue)))) got"
    "settings_first (fst (with_payload s len inp (alert_data s))) got"
    "settings_first (fst (with_payload s len inp (update_padding_data E s))) got"
    "settings_first (fst (with_payload s len inp (server_settings_data s))) got"
    "settings_first (on_FIN s i) got"
    "settings_first (fst (on_SYN E s got i)) got"
    "settings_first (fst (on_HeartRequest E s i)) got"
    using s sd settings_first_mild [OF mild_on_FIN s]
    by (auto intro!: settings_first_payload m mild_psh_data mild_alert_data
        mild_update_padding_data mild_on_HeartRequest settings_first_server_settings
        on_SYN_settings_first mild_synack)
  with d s show ?thesis
    by (auto simp: dispatch_def Let_def split: if_splits prod.splits
        dest: settings_first_settings [OF s])
qed

lemma recv_step_settings_first:
  "settings_first s got \<Longrightarrow> recv_step E s got inp = (s', rest, got', k) \<Longrightarrow> settings_first s' got'"
  by (auto simp: recv_step_def split: if_splits sum.splits prod.splits
      dest: dispatch_settings_first)

lemma recv_step_closed: "die s \<Longrightarrow> recv_step E s got inp = (s, inp, got, Return (Some ErrClosedPipe))"
  by (simp add: recv_step_def IsClosed_def)

section \<open>Reachable states\<close>

definition life_inv :: "life \<Rightarrow> bool" where
  "life_inv l \<longleftrightarrow> session_inv (sess l) \<and> settings_first (sess l) (gotSettings l)
     \<and> (\<not> running l \<longrightarrow> die (sess l))"

lemma life_inv_step:
  assumes "life_step E l l'" and "life_inv l"
  shows "life_inv l'"
  using assms(1)
proof cases
  case (step_op s')
  then show ?thesis
    using assms(2) inv_sess_op [OF step_op(2)] mild_sess_op [OF step_op(2)]
      settings_first_mild [OF mild_sess_op [OF step_op(2)]]
    by (auto simp: life_inv_def mild_def)
next
  case (step_arrive b)
  with assms(2) show ?thesis by (simp add: life_inv_def)
next
  case (step_recv s' rest got)
  then show ?thesis
    using assms(2) inv_recv_step [of "sess l" E "gotSettings l" "incoming l"]
      recv_step_settings_first [OF _ step_recv(3)] by (simp add: life_inv_def)
next
  case (step_return s' rest got e)
  have "session_inv s'" "settings_first s' got"
    using assms(2) inv_recv_step [of "sess l" E "gotSettings l" "incoming l"]
      recv_step_settings_first [OF _ step_return(3)] step_return(3) by (simp_all add: life_inv_def)
  then show ?thesis
    using step_return(1) inv_Close [OF inv_but_mono] settings_first_mild [OF mild_Close]
    by (simp add: life_inv_def Close_closed)
qed

lemma life_inv_start:
  assumes "\<not> c_closed c"
  shows "life_inv (client_start E order c p)" "life_inv (server_start c h p)"
proof -
  have "session_inv (Run_client (e_rnd E) order (NewClientSession c p))"
    using assms session_inv_NewClient inv_Run_client by blast
  moreover have "isClient (Run_client (e_rnd E) order (NewClientSession c p))"
    by (simp add: Run_client_def isClient_writeControlFrame NewClientSession_def)
  ultimately show "life_inv (client_start E order c p)"
    by (simp add: life_inv_def client_start_def settings_first_client)
  show "life_inv (server_start c h p)"
    using assms session_inv_NewServer [of c h p]
    by (simp add: life_inv_def server_start_def settings_first_def NewServerSession_def)
qed

lemma reachable_life_inv: "reachable E l \<Longrightarrow> life_inv l"
  by (induction rule: reachable.induct) (simp_all add: life_inv_start life_inv_step)


section \<open>Claims: the life of a session\<close>


definition sample_env :: env where
  "sample_env = \<lparr>e_rnd = (\<lambda>_ _ _. 0), e_md5 = (\<lambda>_. ''''), e_debug = False\<rparr>"

definition sample_server :: life where
  "sample_server = server_start sample_conn True sample_factory"

lemma reachable_sample: "reachable E sample_server"
  unfolding sample_server_def by (rule reach_server) (simp add: sample_conn_def)

lemma reachable_sample_closed:
  "reachable E (sample_server\<lparr>sess := fst (Close (sess sample_server))\<rparr>)"
  by (rule reach_step [OF reachable_sample step_op [OF op_Close]])




text \<open>The first \<open>Close\<close> closes the connection, runs the session's hook, and closes every
  registered stream locally with \<open>net.ErrClosed\<close>, with its pipe closed and its hook told that the
  session is gone; streams that had left the registry keep their own error. Every later \<open>Close\<close>
  reports \<open>io.ErrClosedPipe\<close> and does nothing.\<close>

lemma Close_once:
  assumes "session_inv s" and "\<not> die s"
  shows "\<exists>s'. Close s = (s', None) \<and> die s' \<and> c_closed (conn s') \<and> streams s' = Map.empty
    \<and> dieHook s' = run_hook True (dieHook s)
    \<and> (\<forall>a st. objs s a = Some st \<longrightarrow>
         objs s' a = Some (if registered s a st then kill True NetErrClosed st else st))
    \<and> Close s' = (s', Some ErrClosedPipe)"
proof -
  have "\<not> c_closed (conn s)"
    using assms unfolding session_inv_def inv_but_def status_ok_def by blast
  moreover have "\<not> st_dieOnce st" if "objs s a = Some st" "registered s a st" for a st
    using session_inv_registered [OF assms(1), of "st_id st" a] that by (auto simp: registered_def)
  ultimately show ?thesis
    using assms(2) by (auto simp: Close_def conn_Close_def closeLocally_def)
qed

section \<open>Claims: streams\<close>

lemma healthy_live: "session_inv s \<Longrightarrow> healthy rnd s \<Longrightarrow> \<not> die s"
  unfolding session_inv_def inv_but_def status_ok_def healthy_def no_failure_def by blast

lemma healthy_upd_obj [simp]:
  "healthy rnd (upd_obj a f s) = healthy rnd s" "wrote (upd_obj a f s) b s' = wrote s b s'"
  by (simp_all add: healthy_def upd_obj_def wrote_def outflow_def)

text \<open>Closing a registered stream on a healthy connection sends one FIN of its id, takes it out
  of the registry, and records the reason, so that readers and writers get that error; other
  streams are not touched. A second close and a later write of the stream send nothing, and
  return the first reason.\<close>

lemma stream_close_effect:
  assumes "session_inv s" and "healthy rnd s" and "streams s i = Some a"
  shows "\<exists>s' st. closeWithError rnd s a err = (s', None) \<and> objs s a = Some st
    \<and> wrote s (encode cmdFIN i []) s' \<and> streams s' = (streams s)(i := None)
    \<and> objs s' = (objs s)(a \<mapsto> kill False err st)
    \<and> closeWithError rnd s' a err' = (s', Some err)
    \<and> stream_Write rnd s' a b = (s', 0, Some (if st_writeExpired st then ErrDeadlineExceeded else err))"
proof -
  obtain st where st: "objs s a = Some st" "st_id st = i" "\<not> st_dieOnce st"
    using session_inv_registered [OF assms(1,3)] by blast
  let ?s = "upd_obj a (kill False err) s"
  have live: "\<not> die s" using healthy_live assms by blast
  have "healthy rnd ?s" using assms(2) by simp
  from writeControlFrame_healthy [OF this, of "newFrame cmdFIN i"] obtain t where
    t: "writeControlFrame rnd ?s (newFrame cmdFIN i) = (t, 0, None)" "same_but_wire ?s t"
      "wrote s (encode cmdFIN i []) t"
    by (auto simp: newFrame_def encode_frame_def)
  let ?t = "t\<lparr>streams := (streams t)(i := None)\<rparr>"
  have f: "streams t = streams s" "objs t = (objs s)(a \<mapsto> kill False err st)"
    using same_but_wire_fields [OF t(2)] st(1) by (simp_all add: upd_obj_def)
  have "closeWithError rnd s a err = (?t, None)"
    using st live t(1) by (simp add: closeWithError_def streamClosed_def upd_obj_def)
  moreover have "wrote s (encode cmdFIN i []) ?t"
    using t(3) by simp
  moreover have "closeWithError rnd ?t a err' = (?t, Some err)"
    "stream_Write rnd ?t a b = (?t, 0, Some (if st_writeExpired st then ErrDeadlineExceeded else err))"
    using f(2) by (simp_all add: closeWithError_def stream_Write_def kill_def)
  ultimately show ?thesis using f st(1) by (intro exI [of _ ?t] exI [of _ st]) simp
qed


text \<open>A client session with one stream open, on a healthy connection.\<close>

definition sample_open :: session where
  "sample_open = sample_client\<lparr>streams := [1 \<mapsto> 0], objs := [0 \<mapsto> newStream 1], nextObj := 1,
     streamId := 1, peerVersion := 2\<rparr>"

lemma sample_open_inv: "session_inv sample_open"
  unfolding inv_parts by (simp add: sample_open_def sample_client_def NewClientSession_def
      sample_conn_def)

lemma sample_open_healthy: "healthy (\<lambda>_ _ _. 0) sample_open"
  by (simp add: healthy_def sample_open_def sample_client_simps sample_bounded rand_ok_zero)

lemma sample_open_fields:
  "streams sample_open 1 = Some 0" "objs sample_open 0 = Some (newStream 1)" "streamId sample_open = 1"
  "peerVersion sample_open = 2" "nextObj sample_open = 1" "watchers sample_open = []"
  "isClient sample_open" "buffering sample_open = False" "buffer sample_open = []"
  "\<not> die sample_open" "synDone sample_open = None" "conn sample_open = sample_conn"
  by (simp_all add: sample_open_def sample_client_def NewClientSession_def)

lemma wrote_fields:
  "conn s' = conn s \<Longrightarrow> buffer s' = buffer s \<Longrightarrow> buffering s' = buffering s \<Longrightarrow>
   sendPadding s' = sendPadding s \<Longrightarrow> wrote s' b t = wrote s b t"
  by (simp add: wrote_def outflow_def)

lemma healthy_fields:
  "conn s' = conn s \<Longrightarrow> padding s' = padding s \<Longrightarrow> healthy rnd s' = healthy rnd s"
  by (simp add: healthy_def)

lemma OpenStream_healthy:
  assumes "session_inv s" and "healthy rnd s"
  shows "\<exists>s'. OpenStream rnd s = (s', Inr (nextObj s))
    \<and> streamId s' = streamId s + 1 \<and> streams s' = (streams s)(streamId s + 1 \<mapsto> nextObj s)
    \<and> objs s' = (objs s)(nextObj s \<mapsto> newStream (streamId s + 1)) \<and> objs s (nextObj s) = None
    \<and> healthy rnd s' \<and> wrote s (encode cmdSYN (streamId s + 1) []) s' \<and> \<not> buffering s'
    \<and> (if streamId s + 1 \<ge> 2 \<and> peerVersion s \<ge> 2
       then {j. j < length (watchers s') \<and> watchers s' ! j = Armed} = {length (watchers s)}
       else watchers s' = watchers s)"
proof -
  define i where "i = streamId s + 1"
  define s1 where "s1 = s\<lparr>streamId := i, nextObj := Suc (nextObj s),
    objs := (objs s)(nextObj s \<mapsto> newStream i)\<rparr>"
  define s2 where "s2 = (if i \<ge> 2 \<and> peerVersion s \<ge> 2 then NewDeadlineWatcher (call_synDone s1)
    else s1)"
  have i1: "session_inv s1" unfolding s1_def using assms(1) by (rule inv_alloc)
  have live: "\<not> die s" using healthy_live assms by blast
  have f2: "conn s2 = conn s" "buffer s2 = buffer s" "buffering s2 = buffering s"
    "sendPadding s2 = sendPadding s" "padding s2 = padding s" "streams s2 = streams s"
    "objs s2 = (objs s)(nextObj s \<mapsto> newStream i)" "die s2 = die s" "streamId s2 = i"
    by (simp_all add: s2_def s1_def NewDeadlineWatcher_def call_synDone_def split: option.splits)
  have ws: "watchers s1 = watchers s" "peerVersion s1 = peerVersion s" by (simp_all add: s1_def)
  have armed: "{j. j < length (watchers s2) \<and> watchers s2 ! j = Armed} = {length (watchers s)}"
    if "i \<ge> 2 \<and> peerVersion s \<ge> 2"
  proof -
    have len: "length (watchers (call_synDone s1)) = length (watchers s)"
      by (simp add: call_synDone_def ws split: option.split)
    have "watchers s2 = watchers (call_synDone s1) @ [Armed]"
      using that by (simp add: s2_def NewDeadlineWatcher_def)
    then show ?thesis
      using call_synDone_none [OF i1] by (auto simp: nth_append less_Suc_eq len split: if_splits)
  qed
  have fresh: "objs s (nextObj s) = None"
    using assms(1) unfolding session_inv_def inv_but_def heap_ok_def
    by (metis less_irrefl not_Some_eq)
  have "healthy rnd s2" using healthy_fields [OF f2(1,5)] assms(2) by simp
  from writeControlFrame_healthy [OF this, of "newFrame cmdSYN i"] obtain t where
    t: "writeControlFrame rnd s2 (newFrame cmdSYN i) = (t, 0, None)" "same_but_wire s2 t"
      "wrote s2 (encode cmdSYN i []) t" "healthy rnd t"
    by (auto simp: newFrame_def encode_frame_def)
  let ?t = "t\<lparr>buffering := False, streams := (streams t)(i \<mapsto> nextObj s)\<rparr>"
  have "OpenStream rnd s = (?t, Inr (nextObj s))"
    using live t(1) same_but_wire_fields(5) [OF t(2)] f2(8)
    unfolding OpenStream_def Let_def i_def [symmetric] s1_def [symmetric] ws(2)
      s2_def [symmetric] by (simp add: IsClosed_def)
  moreover have "wrote s (encode cmdSYN i []) ?t"
    using t(3) wrote_fields [OF f2(1-4)] by simp
  moreover have "healthy rnd ?t" using t(4) by (simp add: healthy_def)
  moreover have "watchers ?t = watchers s2" using same_but_wire_fields(8) [OF t(2)] by simp
  ultimately show ?thesis
    using fresh armed same_but_wire_fields(1,2,4) [OF t(2)] f2 ws
    unfolding i_def [symmetric] by (intro exI [of _ ?t]) (simp add: s2_def)
qed

text \<open>Opening a stream on a healthy client session takes the next id and a fresh object, sends
  (or buffers, for the first stream) one SYN of that id, ends the buffering, and registers the
  stream; from the second stream on, against a peer of version 2, it leaves exactly one SYNACK
  watcher waiting, the new one.\<close>

lemma OpenStream_effect:
  assumes "session_inv s" and "healthy rnd s"
  shows "\<exists>s'. OpenStream rnd s = (s', Inr (nextObj s))
    \<and> streamId s' = streamId s + 1 \<and> streams s' = (streams s)(streamId s + 1 \<mapsto> nextObj s)
    \<and> objs s' = (objs s)(nextObj s \<mapsto> newStream (streamId s + 1)) \<and> objs s (nextObj s) = None
    \<and> wrote s (encode cmdSYN (streamId s + 1) []) s' \<and> \<not> buffering s'
    \<and> (if streamId s + 1 \<ge> 2 \<and> peerVersion s \<ge> 2
       then {j. j < length (watchers s') \<and> watchers s' ! j = Armed} = {length (watchers s)}
       else watchers s' = watchers s)"
  using OpenStream_healthy [OF assms] by blast

text \<open>A write deadline that has passed refuses writes without sending anything, and can be taken back.\<close>

lemma write_deadline:
  assumes "objs s a = Some st" and "deadline_ok (st_writeDeadline st)" and "timer (st_writeDeadline st) \<noteq> Fired"
  shows "\<exists>s1 s2 st2. stream_SetWriteDeadline Past a s = Returns (s1, None)
    \<and> stream_Write rnd s1 a b = (s1, 0, Some ErrDeadlineExceeded)
    \<and> stream_SetWriteDeadline Never a s1 = Returns (s2, None)
    \<and> objs s2 a = Some st2 \<and> \<not> st_writeExpired st2"
proof -
  let ?d = "st_writeDeadline st"
  obtain d1 where d1: "deadline_Set Past ?d = Returns d1" "expired_now d1" "timer d1 = NoTimer" "deadline_ok d1"
    using set_past [OF assms(2,3)] deadline_ok_Set [OF assms(2)] by blast
  obtain d2 where d2: "deadline_Set Never d1 = Returns d2" "\<not> expired_now d2"
    using set_never [OF d1(4,3)] by blast
  show ?thesis
    using assms(1) d1(1,2) d2 by (auto simp: stream_SetWriteDeadline_def stream_Write_def upd_obj_def)
qed

text \<open>The reports a server makes on one stream: success, or a failure with its text.\<close>

fun reports :: "randomness \<Rightarrow> session \<Rightarrow> nat \<Rightarrow> bytes option list \<Rightarrow> session" where
  "reports rnd s a [] = s"
| "reports rnd s a (None # rs) = reports rnd (fst (HandshakeSuccess rnd s a)) a rs"
| "reports rnd s a (Some m # rs) = reports rnd (fst (HandshakeFailure rnd s a (Some m))) a rs"

lemma reported:
  "objs s a = Some st \<Longrightarrow> st_reportOnce st \<Longrightarrow> reports rnd s a rs = s"
proof (induction rs)
  case (Cons r rs)
  have "upd_obj a (\<lambda>st. st\<lparr>st_reportOnce := True\<rparr>) s = s"
    using Cons.prems by (cases s; cases st) (auto simp: upd_obj_def)
  with Cons show ?case
    by (cases r) (simp_all add: HandshakeSuccess_def HandshakeFailure_def)
qed simp

text \<open>Of all the reports on the outcome of a stream's outbound connection only the first is sent,
  as one SYNACK of the stream with the error text (none for success); to a peer below version 2
  none is sent.\<close>

lemma report_once:
  assumes "healthy rnd s" and "objs s a = Some st" and "\<not> st_reportOnce st"
  shows "if peerVersion s \<ge> 2
    then wrote s (encode cmdSYNACK (st_id st) (case r of None \<Rightarrow> [] | Some m \<Rightarrow> m))
           (reports rnd s a (r # rs))
    else conn (reports rnd s a (r # rs)) = conn s \<and> buffer (reports rnd s a (r # rs)) = buffer s"
proof -
  let ?s = "upd_obj a (\<lambda>st. st\<lparr>st_reportOnce := True\<rparr>) s"
  let ?m = "case r of None \<Rightarrow> [] | Some m \<Rightarrow> m"
  have o: "objs ?s a = Some (st\<lparr>st_reportOnce := True\<rparr>)" using assms(2) by (simp add: upd_obj_def)
  show ?thesis
  proof (cases "peerVersion s \<ge> 2")
    case True
    have "healthy rnd ?s" using assms(1) by simp
    from writeControlFrame_healthy [OF this, of "(newFrame cmdSYNACK (st_id st))\<lparr>data := ?m\<rparr>"]
    obtain t where t: "writeControlFrame rnd ?s ((newFrame cmdSYNACK (st_id st))\<lparr>data := ?m\<rparr>)
        = (t, length ?m, None)" "same_but_wire ?s t" "wrote s (encode cmdSYNACK (st_id st) ?m) t"
      by (auto simp: newFrame_def encode_frame_def)
    have "objs t a = Some (st\<lparr>st_reportOnce := True\<rparr>)"
      using same_but_wire_fields(2) [OF t(2)] o by simp
    then have "reports rnd t a rs = t" using reported by simp
    moreover have "reports rnd s a (r # rs) = reports rnd t a rs"
      using t(1) True assms(2,3)
      by (cases r) (simp_all add: HandshakeSuccess_def HandshakeFailure_def newFrame_def)
    ultimately show ?thesis using t(3) True by simp
  next
    case False
    have "reports rnd s a (r # rs) = reports rnd ?s a rs"
      using False assms(2) by (cases r) (simp_all add: HandshakeSuccess_def HandshakeFailure_def)
    also have "\<dots> = ?s" using reported [OF o] by simp
    finally show ?thesis using False by (simp add: upd_obj_def)
  qed
qed



end
