(* ===== verification/Protocol.thy ===== *)
theory Protocol
  imports Lifecycle
begin

text \<open>
  What the two ends of a session say to each other: the receive loop as a machine over frames,
  the handshake of settings, versions and padding schemes, and the delivery of stream data from
  the writer of one end, through padding, to the streams of the other.
\<close>

section \<open>The receive loop on whole frames\<close>

text \<open>C9: On any sequence of well-formed frames the receive loop does what the frame machine
  \<open>handle\<close> does frame by frame, closes the session, and returns the machine's error, or the end of
  the input if the machine asks for more.\<close>

theorem recvLoop_frames:
  assumes "list_all frame_ok fs"
  shows "recvLoop E s (concat (map encode_frame fs)) =
    (case run_frames (handle E) (s, False) fs of
       ((s', got), Continue) \<Rightarrow>
         (fst (Close s'), Some (if die s' then ErrClosedPipe else EOF))
     | ((s', got), Return e) \<Rightarrow> (fst (Close s'), e))"
  by (simp add: recvLoop_def recv_iter_frames [OF assms] recv_iter_end IsClosed_def
      split: prod.split ctl.split)

theorem recvLoop_frames_witness:
  "recvLoop sample_env sample_open (encode_frame (newFrame cmdFIN 1)) =
     (fst (Close (on_FIN sample_open 1)), Some EOF)"
proof -
  have "list_all frame_ok [newFrame cmdFIN 1]" by (simp add: frame_ok_def newFrame_def)
  from recvLoop_frames [OF this, of sample_env sample_open] show ?thesis
    by (simp add: handle_def newFrame_def cmd_defs IsClosed_def sample_open_fields on_FIN_def
        upd_obj_def)
qed

text \<open>Data frames and padding, in any mix, deliver to every stream exactly the data addressed
  to it, in order, appended to what it had, whatever streams the other frames name.\<close>

lemma delivery:
  assumes "session_inv s" and "\<not> die s" and "list_all transfer fs" and "list_all frame_ok fs"
    and "streams s i = Some a" and "objs s a = Some st"
  shows "\<exists>st'. objs (fst (recvLoop E s (concat (map encode_frame fs)))) a = Some st'
    \<and> p_delivered (st_pipe st') = p_delivered (st_pipe st) @ stream_data i fs"
  using recvLoop_transfer [OF assms(1-5), of E] assms(6) by (auto simp: obj_received_def)

definition psh :: "u32 \<Rightarrow> bytes \<Rightarrow> frame" where
  "psh i d = (newFrame cmdPSH i)\<lparr>data := d\<rparr>"

definition waste :: "nat \<Rightarrow> frame" where
  "waste k = (newFrame cmdWaste 0)\<lparr>data := replicate k 0\<rparr>"

lemma psh_fields [simp]: "cmd (psh i d) = cmdPSH" "sid (psh i d) = i" "data (psh i d) = d"
  by (simp_all add: psh_def newFrame_def)

lemma waste_fields [simp]: "cmd (waste k) = cmdWaste" "data (waste k) = replicate k 0"
  by (simp_all add: waste_def newFrame_def)

lemma frame_ok_psh [simp]: "frame_ok (psh i d) \<longleftrightarrow> length d < 2 ^ 16"
  by (simp add: frame_ok_def carries_data_def)

lemma frame_ok_waste [simp]: "frame_ok (waste k) \<longleftrightarrow> k < 2 ^ 16"
  by (simp add: frame_ok_def carries_data_def)

section \<open>Single commands\<close>

lemma recv_iter_step:
  "\<not> IsClosed s \<Longrightarrow> frame_ok f \<Longrightarrow>
   recv_iter E s got (encode_frame f @ rest) =
     (case handle E (s, got) f of
        ((s', got'), Continue) \<Rightarrow> recv_iter E s' got' rest
      | ((s', got'), Return e) \<Rightarrow> (s', e))"
  by (subst recv_iter.simps) (simp add: recv_step_frame split: prod.split ctl.split)

text \<open>A server that gets a SYN before any settings answers with one alert, accepts nothing, and
  ends the session without an error, whatever follows in the input.\<close>

lemma SYN_before_settings:
  assumes "session_inv s" and "healthy (e_rnd E) s" and "\<not> isClient s"
  shows "\<exists>s'. recvLoop E s (encode cmdSYN i [] @ rest) = (fst (Close s'), None)
    \<and> wrote s (encode cmdAlert 0 no_settings_alert) s'
    \<and> accepted (fst (Close s')) = accepted s \<and> streams (fst (Close s')) = Map.empty"
proof -
  have live: "\<not> die s" using healthy_live assms by blast
  let ?f = "(newFrame cmdAlert 0)\<lparr>data := no_settings_alert\<rparr>"
  obtain t n where t: "writeControlFrame (e_rnd E) s ?f = (t, n, None)" "same_but_wire s t"
      "wrote s (encode_frame ?f) t"
    using writeControlFrame_healthy [OF assms(2), of ?f] by metis
  have "frame_ok (newFrame cmdSYN i)" by (simp add: frame_ok_def newFrame_def)
  moreover have "encode cmdSYN i [] = encode_frame (newFrame cmdSYN i)"
    by (simp add: encode_frame_def newFrame_def)
  moreover have "handle E (s, False) (newFrame cmdSYN i) = ((t, False), Return None)"
    using t(1) live assms(3)
    by (simp add: handle_def IsClosed_def newFrame_def cmd_defs on_SYN_def)
  ultimately have "recvLoop E s (encode cmdSYN i [] @ rest) = (fst (Close t), None)"
    using live by (simp add: recvLoop_def recv_iter_step IsClosed_def)
  moreover have "\<not> die t" using same_but_wire_fields(5) [OF t(2)] live by simp
  ultimately show ?thesis
    using t(3) same_but_wire_fields(15) [OF t(2)] mild_Close [of t]
    by (intro exI [of _ t]) (simp add: encode_frame_def newFrame_def mild_def Close_closed)
qed

lemma sample_server_healthy:
  "session_inv (sess sample_server)" "healthy (\<lambda>_ _ _. 0) (sess sample_server)"
  "\<not> isClient (sess sample_server)" "\<not> die (sess sample_server)"
  using session_inv_NewServer [of sample_conn True sample_factory]
  by (simp_all add: sample_server_def server_start_def healthy_def NewServerSession_def
      sample_bounded rand_ok_zero sample_client_simps) (simp add: sample_conn_def)

text \<open>After the settings, a SYN of an unknown id makes a fresh stream of that id, registers it
  and hands it to the handler; a SYN of a registered id changes nothing. Neither is answered.\<close>

lemma SYN_effect:
  assumes "session_inv s" and "isClient s \<or> got"
  shows "case streams s i of
      Some a \<Rightarrow> on_SYN E s got i = (s, Continue)
    | None \<Rightarrow> (\<exists>s'. on_SYN E s got i = (s', Continue) \<and> objs s (nextObj s) = None
        \<and> streams s' = (streams s)(i \<mapsto> nextObj s)
        \<and> objs s' = (objs s)(nextObj s \<mapsto> newStream i)
        \<and> accepted s' = accepted s @ [nextObj s] \<and> nextObj s \<notin> set (accepted s)
        \<and> conn s' = conn s)"
proof -
  have "objs s (nextObj s) = None" "nextObj s \<notin> set (accepted s)"
    using assms(1) unfolding session_inv_def inv_but_def heap_ok_def
    by (metis less_irrefl not_Some_eq)+
  then show ?thesis using assms(2) by (auto simp: on_SYN_def Let_def split: option.split)
qed

text \<open>A FIN closes the stream it names with \<open>net.ErrClosed\<close> and takes it out of the registry,
  sends nothing, leaves the session and all other streams alone, and makes the stream's own
  \<open>Close\<close> silent; a FIN of an unknown id changes nothing.\<close>

lemma FIN_effect:
  assumes "session_inv s"
  shows "conn (on_FIN s i) = conn s \<and> die (on_FIN s i) = die s
    \<and> streams (on_FIN s i) = (streams s)(i := None)
    \<and> (case streams s i of
         None \<Rightarrow> on_FIN s i = s
       | Some a \<Rightarrow> (\<exists>st. objs s a = Some st
           \<and> objs (on_FIN s i) = (objs s)(a \<mapsto> kill (die s) NetErrClosed st)
           \<and> stream_Close rnd (on_FIN s i) a = (on_FIN s i, Some NetErrClosed)))"
proof (cases "streams s i")
  case (Some a)
  then obtain st where "objs s a = Some st" "\<not> st_dieOnce st"
    using session_inv_registered [OF assms] by blast
  with Some show ?thesis
    by (simp add: on_FIN_def upd_obj_def closeLocally_def stream_Close_def closeWithError_def kill_def)
qed (simp add: on_FIN_def fun_upd_idem)

section \<open>Settings, versions and schemes\<close>

text \<open>What a server answers to settings \<open>m\<close> under the padding scheme \<open>p\<close>.\<close>

definition settings_frames :: "PaddingFactory \<Rightarrow> string_map \<Rightarrow> bytes" where
  "settings_frames p m =
     (if sm_get m ''padding-md5'' \<noteq> Md5 p then encode cmdUpdatePaddingScheme 0 (RawScheme p) else [])
     @ (case atoi (sm_get m ''v'') of
          Some v \<Rightarrow> if v \<ge> 2 then encode cmdServerSettings 0 (bytes_of ''v=2'') else []
        | None \<Rightarrow> [])"

text \<open>A server session that answers at once and does not pad.\<close>

definition plain_server :: "randomness \<Rightarrow> session \<Rightarrow> bool" where
  "plain_server rnd s \<longleftrightarrow> healthy rnd s \<and> \<not> isClient s \<and> \<not> sendPadding s \<and> \<not> buffering s
     \<and> buffer s = []"

lemma plain_server_write:
  assumes "plain_server rnd s"
  obtains s' where "writeControlFrame rnd s f = (s', length (data f), None)" "same_but_wire s s'"
    "plain_server rnd s'" "sent (conn s') = sent (conn s) @ encode_frame f"
proof -
  have s: "healthy rnd s" "\<not> isClient s" "\<not> sendPadding s" "\<not> buffering s" "buffer s = []"
    using assms by (simp_all add: plain_server_def)
  obtain s' where w: "writeControlFrame rnd s f = (s', length (data f), None)" "same_but_wire s s'"
    "healthy rnd s'" "wrote s (encode_frame f) s'"
    using writeControlFrame_healthy [OF s(1)] by metis
  have "buffer s' = []" "sent (conn s') = sent (conn s) @ encode_frame f"
    using w(4) s(3-5) by (auto simp: wrote_def outflow_def)
  moreover have "plain_server rnd s'"
    using w(3) s \<open>buffer s' = []\<close> same_but_wire_fields(12,13,19) [OF w(2)]
    by (auto simp: plain_server_def)
  ultimately show ?thesis using that w(1,2) by blast
qed

lemma same_but_wire_refl [simp]: "same_but_wire s s"
  unfolding same_but_wire_def
  by (intro exI [of _ "conn s"] exI [of _ "buffer s"] exI [of _ "sendPadding s"]
      exI [of _ "pktCounter s"]) simp

lemma ToBytes_v2 [simp]: "ToBytes [(''v'', ''2'')] = bytes_of ''v=2''"
  by (simp add: ToBytes_def)

lemma settings_padding_plain:
  assumes "plain_server (e_rnd E) s"
  obtains s' where "settings_padding E s m = (s', None)" "same_but_wire s s'"
    "plain_server (e_rnd E) s'"
    "sent (conn s') = sent (conn s) @ (if sm_get m ''padding-md5'' \<noteq> Md5 (padding s)
       then encode cmdUpdatePaddingScheme 0 (RawScheme (padding s)) else [])"
proof (cases "sm_get m ''padding-md5'' = Md5 (padding s)")
  case True
  with assms that [of s] show ?thesis by (simp add: settings_padding_def)
next
  case False
  let ?f = "(newFrame cmdUpdatePaddingScheme 0)\<lparr>data := RawScheme (padding s)\<rparr>"
  obtain s' where "writeControlFrame (e_rnd E) s ?f = (s', length (data ?f), None)"
    "same_but_wire s s'" "plain_server (e_rnd E) s'"
    "sent (conn s') = sent (conn s) @ encode_frame ?f"
    using plain_server_write [OF assms] by metis
  with False that [of s'] show ?thesis
    by (simp add: settings_padding_def encode_frame_def newFrame_def)
qed

lemma settings_version_plain:
  assumes "plain_server (e_rnd E) s"
  obtains s' v where "settings_version E s m = (s', None)"
    "same_but_wire (s\<lparr>peerVersion := v\<rparr>) s'" "plain_server (e_rnd E) s'"
    "v = (case atoi (sm_get m ''v'') of
        Some n \<Rightarrow> if n \<ge> 2 then word_of_int n else peerVersion s | None \<Rightarrow> peerVersion s)"
    "sent (conn s') = sent (conn s) @ (case atoi (sm_get m ''v'') of
        Some n \<Rightarrow> if n \<ge> 2 then encode cmdServerSettings 0 (bytes_of ''v=2'') else []
      | None \<Rightarrow> [])"
proof (cases "\<exists>n. atoi (sm_get m ''v'') = Some n \<and> n \<ge> 2")
  case False
  with assms that [where s' = s] show ?thesis
    by (auto simp: settings_version_def split: option.splits)
next
  case True
  then obtain n where n: "atoi (sm_get m ''v'') = Some n" "n \<ge> 2" by blast
  let ?s = "s\<lparr>peerVersion := word_of_int n\<rparr>"
  define f where "f = (newFrame cmdServerSettings 0)\<lparr>data := bytes_of ''v=2''\<rparr>"
  have "plain_server (e_rnd E) ?s" using assms by (simp add: plain_server_def healthy_def)
  then obtain s' where w: "writeControlFrame (e_rnd E) ?s f = (s', length (data f), None)"
    "same_but_wire ?s s'" "plain_server (e_rnd E) s'"
    "sent (conn s') = sent (conn ?s) @ encode_frame f"
    using plain_server_write [of "e_rnd E" ?s f] by blast
  have f: "encode_frame f = encode cmdServerSettings 0 (bytes_of ''v=2'')"
    by (simp add: f_def encode_frame_def newFrame_def)
  show ?thesis
  proof (rule that [OF _ w(2,3)])
    show "settings_version E s m = (s', None)"
      unfolding settings_version_def n(1) option.case if_P [OF n(2)] ToBytes_v2 f_def [symmetric] w(1)
      by simp
    show "word_of_int n = (case atoi (sm_get m ''v'') of
        Some n \<Rightarrow> if n \<ge> 2 then word_of_int n else peerVersion s | None \<Rightarrow> peerVersion s)"
      unfolding n(1) option.case if_P [OF n(2)] ..
    show "sent (conn s') = sent (conn s) @ (case atoi (sm_get m ''v'') of
        Some n \<Rightarrow> if n \<ge> 2 then encode cmdServerSettings 0 (bytes_of ''v=2'') else []
      | None \<Rightarrow> [])"
      unfolding n(1) option.case if_P [OF n(2)] using w(4) by (simp add: f)
  qed
qed

lemma same_but_wire_peer:
  "same_but_wire s t \<Longrightarrow> same_but_wire (t\<lparr>peerVersion := v\<rparr>) u \<Longrightarrow>
   same_but_wire (s\<lparr>peerVersion := v\<rparr>) u"
  unfolding same_but_wire_def by (elim exE conjE) (simp, blast?)

lemma settings_data_plain:
  assumes "plain_server (e_rnd E) s" and m: "m = StringMapFromBytes buf"
  obtains s' v where "settings_data E s buf = (s', Continue)"
    "same_but_wire (s\<lparr>peerVersion := v\<rparr>) s'" "plain_server (e_rnd E) s'"
    "v = (case atoi (sm_get m ''v'') of
        Some n \<Rightarrow> if n \<ge> 2 then word_of_int n else peerVersion s | None \<Rightarrow> peerVersion s)"
    "sent (conn s') = sent (conn s) @ settings_frames (padding s) m"
proof -
  obtain s1 where 1: "settings_padding E s m = (s1, None)" "same_but_wire s s1"
    "plain_server (e_rnd E) s1"
    "sent (conn s1) = sent (conn s) @ (if sm_get m ''padding-md5'' \<noteq> Md5 (padding s)
       then encode cmdUpdatePaddingScheme 0 (RawScheme (padding s)) else [])"
    by (rule settings_padding_plain [OF assms(1), of m])
  obtain s2 v where 2: "settings_version E s1 m = (s2, None)"
    "same_but_wire (s1\<lparr>peerVersion := v\<rparr>) s2" "plain_server (e_rnd E) s2"
    "v = (case atoi (sm_get m ''v'') of
        Some n \<Rightarrow> if n \<ge> 2 then word_of_int n else peerVersion s1 | None \<Rightarrow> peerVersion s1)"
    "sent (conn s2) = sent (conn s1) @ (case atoi (sm_get m ''v'') of
        Some n \<Rightarrow> if n \<ge> 2 then encode cmdServerSettings 0 (bytes_of ''v=2'') else []
      | None \<Rightarrow> [])"
    by (rule settings_version_plain [OF 1(3), of m])
  show ?thesis
  proof (rule that [of s2 v])
    show "settings_data E s buf = (s2, Continue)"
      using 1(1) 2(1) assms(1) by (simp add: settings_data_def plain_server_def flip: m)
    show "same_but_wire (s\<lparr>peerVersion := v\<rparr>) s2" using same_but_wire_peer [OF 1(2) 2(2)] .
    show "v = (case atoi (sm_get m ''v'') of
        Some n \<Rightarrow> if n \<ge> 2 then word_of_int n else peerVersion s | None \<Rightarrow> peerVersion s)"
      using 2(4) unfolding same_but_wire_fields(11) [OF 1(2)] .
    show "sent (conn s2) = sent (conn s) @ settings_frames (padding s) m"
      using 1(4) 2(5) by (simp add: settings_frames_def)
  qed (fact 2(3))
qed


text \<open>C32: On the client's settings a server first sends its own scheme, if the client's digest
  differs, then its settings, if the client's version is at least 2, each as one frame without
  padding; it then knows the version, cut to a byte.\<close>

theorem settings_reply:
  assumes "plain_server (e_rnd E) s" and "m = StringMapFromBytes buf"
  shows "\<exists>s'. settings_data E s buf = (s', Continue) \<and> plain_server (e_rnd E) s'
    \<and> sent (conn s') = sent (conn s) @ settings_frames (padding s) m
    \<and> peerVersion s' = (case atoi (sm_get m ''v'') of
        Some n \<Rightarrow> if n \<ge> 2 then word_of_int n else peerVersion s | None \<Rightarrow> peerVersion s)
    \<and> streams s' = streams s \<and> objs s' = objs s \<and> padding s' = padding s"
proof (rule settings_data_plain [OF assms])
  fix s' v
  assume "settings_data E s buf = (s', Continue)" "plain_server (e_rnd E) s'"
    "same_but_wire (s\<lparr>peerVersion := v\<rparr>) s'"
    "v = (case atoi (sm_get m ''v'') of
        Some n \<Rightarrow> if n \<ge> 2 then word_of_int n else peerVersion s | None \<Rightarrow> peerVersion s)"
    "sent (conn s') = sent (conn s) @ settings_frames (padding s) m"
  moreover from this(3) have "peerVersion s' = v" "streams s' = streams s" "objs s' = objs s"
    "padding s' = padding s"
    by (simp_all add: same_but_wire_fields(1,2,10,11))
  ultimately show ?thesis by blast
qed

lemma sample_plain_server: "plain_server (\<lambda>_ _ _. 0) (sess sample_server)"
  using sample_server_healthy(2)
  by (simp add: plain_server_def sample_server_def server_start_def NewServerSession_def)

theorem settings_reply_witness:
  "\<exists>s'. settings_data sample_env (sess sample_server) (bytes_of ''v=256'') = (s', Continue)
     \<and> sent (conn s') = encode cmdServerSettings 0 (bytes_of ''v=2'') \<and> peerVersion s' = 0"
proof -
  let ?m = "StringMapFromBytes (bytes_of ''v=256'')"
  have p: "plain_server (e_rnd sample_env) (sess sample_server)"
    using sample_plain_server by (simp add: sample_env_def)
  have v: "atoi (sm_get ?m ''v'') = Some 256" "sm_get ?m ''padding-md5'' = ''''" by code_simp+
  have s: "padding (sess sample_server) = sample_factory" "sent (conn (sess sample_server)) = []"
    by (simp_all add: sample_server_def server_start_def NewServerSession_def sent_def sample_conn_def)
  have w: "(word_of_int 256 :: byte) = 0" by simp
  have "Md5 sample_factory = ''''" by (simp add: sample_factory_def)
  then have "settings_frames sample_factory ?m = encode cmdServerSettings 0 (bytes_of ''v=2'')"
    by (simp add: settings_frames_def v)
  with settings_reply [OF p refl, of "bytes_of ''v=256''"] show ?thesis
    unfolding v(1) option.case s w by auto
qed

text \<open>What the settings of a client say, whatever order the map is written in.\<close>

definition reorders :: "(string_map \<Rightarrow> string_map) \<Rightarrow> bool" where
  "reorders order \<longleftrightarrow> (\<forall>m. mset (order m) = mset m)"

lemma client_settings_read:
  assumes "reorders order" and "CHR ''\<newline>'' \<notin> set (Md5 (padding s))"
    and m: "m = StringMapFromBytes (ToBytes (order (client_settings s)))"
  shows "sm_get m ''padding-md5'' = Md5 (padding s)" "sm_get m ''v'' = ''2''"
proof -
  let ?m = "client_settings s"
  have d: "distinct (map fst ?m)" by (simp add: client_settings_def)
  have o: "mset (order ?m) = mset ?m" using assms(1) by (simp add: reorders_def)
  then have "distinct (map fst (order ?m))" using d by (metis mset_eq_imp_distinct_iff mset_map)
  moreover have set: "set (order ?m) = set ?m" using o by (metis set_mset_mset)
  moreover have "sm_plain ?m"
    using assms(2) by (simp add: sm_plain_def client_settings_def ProgramVersionName_def)
  ultimately have "map_of m = map_of (order ?m)"
    unfolding m by (intro StringMap_roundtrip_aux) (simp_all add: sm_plain_def)
  also have "\<dots> = map_of ?m"
    using d \<open>distinct (map fst (order ?m))\<close> set by (simp add: map_of_inject_set)
  finally have "map_of m = map_of ?m" .
  then show "sm_get m ''padding-md5'' = Md5 (padding s)" "sm_get m ''v'' = ''2''"
    by (simp_all add: sm_get_def client_settings_def)
qed

lemma atoi_2 [simp]: "atoi ''2'' = Some 2"
  by code_simp

text \<open>C33: Padding schemes converge: a client that gets the update frame of a server installs exactly
  the server's scheme, and a session it starts then is not asked to update again and gets the
  server's settings; a scheme that does not parse leaves the client's own in place.\<close>

theorem padding_convergence:
  assumes "NewPaddingFactory (e_md5 E) raw = Some p" and "isClient c" and "\<not> e_debug E"
    and "CHR ''\<newline>'' \<notin> set (Md5 p)" and "reorders order"
  shows "\<exists>c'. update_padding_data E c (RawScheme p) = (c', Continue) \<and> padding c' = p
    \<and> settings_frames p (StringMapFromBytes (ToBytes (order (client_settings c')))) =
        encode cmdServerSettings 0 (bytes_of ''v=2'')
    \<and> (NewPaddingFactory (e_md5 E) bad = None \<longrightarrow> update_padding_data E c bad = (c, Continue))"
proof -
  have raw: "RawScheme p = raw" using NewPaddingFactory_raw [OF assms(1)] by simp
  let ?c = "c\<lparr>padding := p\<rparr>"
  have "update_padding_data E c (RawScheme p) = (?c, Continue)"
    using assms(1-3) raw by (simp add: update_padding_data_def UpdatePaddingScheme_def)
  moreover have "settings_frames p (StringMapFromBytes (ToBytes (order (client_settings ?c)))) =
      encode cmdServerSettings 0 (bytes_of ''v=2'')"
    using client_settings_read [OF assms(5) _ refl, of ?c] assms(4) by (simp add: settings_frames_def)
  ultimately show ?thesis
    by (intro exI [of _ ?c]) (simp add: update_padding_data_def UpdatePaddingScheme_def)
qed

theorem padding_convergence_witness:
  "\<exists>p c'. NewPaddingFactory (e_md5 sample_env) defaultPaddingScheme = Some p
     \<and> update_padding_data sample_env sample_open (RawScheme p) = (c', Continue) \<and> padding c' = p
     \<and> update_padding_data sample_env sample_open (bytes_of ''x'') = (sample_open, Continue)"
proof -
  have "map_option Md5 (NewPaddingFactory (\<lambda>_. '''') defaultPaddingScheme) = Some ''''"
    by code_simp
  then obtain p where p: "NewPaddingFactory (e_md5 sample_env) defaultPaddingScheme = Some p"
    "Md5 p = ''''" by (auto simp: sample_env_def)
  have "NewPaddingFactory (\<lambda>_. '''') (bytes_of ''x'') = None" by code_simp
  then have bad: "NewPaddingFactory (e_md5 sample_env) (bytes_of ''x'') = None"
    by (simp add: sample_env_def)
  have "\<not> e_debug sample_env" by (simp add: sample_env_def)
  from padding_convergence [where order = "\<lambda>m. m" and bad = "bytes_of ''x''",
      OF p(1) sample_open_fields(7) this] p bad
  show ?thesis by (auto simp: reorders_def)
qed

section \<open>Claims: the loop returns\<close>

text \<open>The loop with a bound on its rounds: \<open>None\<close> if they are used up.\<close>

fun recv_rounds :: "nat \<Rightarrow> env \<Rightarrow> session \<Rightarrow> bool \<Rightarrow> bytes \<Rightarrow> (session \<times> go_error option) option" where
  "recv_rounds 0 E s got inp = None"
| "recv_rounds (Suc n) E s got inp =
     (case recv_step E s got inp of
        (s', rest, got', Return e) \<Rightarrow> Some (s', e)
      | (s', rest, got', Continue) \<Rightarrow> recv_rounds n E s' got' rest)"

lemma recv_step_header:
  "recv_step E s got inp = (s', rest, got', Continue) \<Longrightarrow> length rest + headerOverHeadSize \<le> length inp"
  by (auto simp: recv_step_def split: if_splits sum.splits prod.splits
      dest!: dispatch_length read_full_length)

lemma recv_rounds_enough:
  "length inp < headerOverHeadSize * n \<Longrightarrow> recv_rounds n E s got inp = Some (recv_iter E s got inp)"
proof (induction n arbitrary: s got inp)
  case (Suc n)
  obtain s' rest got' k where r: "recv_step E s got inp = (s', rest, got', k)" by (metis prod_cases4)
  show ?case
  proof (cases k)
    case Continue
    then have "length rest < headerOverHeadSize * n"
      using recv_step_header [of E s got inp s' rest got'] r Suc.prems by simp
    with Suc.IH r Continue show ?thesis by (simp add: recv_iter.simps [of E s got inp])
  next
    case (Return e)
    with r show ?thesis by (simp add: recv_iter.simps [of E s got inp])
  qed
qed simp


end
