(* ===== verification/EndToEnd.thy ===== *)
theory EndToEnd
  imports Protocol
begin

text \<open>
  The two ends together: what a client writes to its streams, cut and padded on the way, is what
  the server's streams deliver; and the first flight of a session, from \<open>Run\<close> to the first data.
\<close>

section \<open>Padding is frames\<close>

lemma encode_frame_waste: "encode_frame (waste k) = encode cmdWaste 0 (replicate k 0)"
  by (simp add: waste_def encode_frame_def newFrame_def)

lemma encode_frame_psh: "encode_frame (psh i d) = encode cmdPSH i d"
  by (simp add: psh_def encode_frame_def newFrame_def)

text \<open>Bytes that are well-formed data and padding frames with data \<open>d i\<close> for each stream \<open>i\<close>.\<close>

definition carries :: "bytes \<Rightarrow> (u32 \<Rightarrow> bytes) \<Rightarrow> bool" where
  "carries b d \<longleftrightarrow>
     (\<exists>fs. b = concat (map encode_frame fs) \<and> list_all transfer fs \<and> list_all frame_ok fs
        \<and> (\<forall>i. stream_data i fs = d i))"

lemma carries_Nil [simp]: "carries [] (\<lambda>_. [])"
  unfolding carries_def by (rule exI [of _ "[]"]) simp

lemma carries_append: "carries a d \<Longrightarrow> carries b e \<Longrightarrow> carries (a @ b) (\<lambda>i. d i @ e i)"
proof -
  assume "carries a d" "carries b e"
  then obtain fs gs where
    "a = concat (map encode_frame fs)" "list_all transfer fs" "list_all frame_ok fs"
      "\<forall>i. stream_data i fs = d i"
    "b = concat (map encode_frame gs)" "list_all transfer gs" "list_all frame_ok gs"
      "\<forall>i. stream_data i gs = e i"
    unfolding carries_def by blast
  then show ?thesis
    unfolding carries_def by (intro exI [of _ "fs @ gs"]) (auto simp: stream_data_def)
qed

lemma carries_psh: "length d < 2 ^ 16 \<Longrightarrow> carries (encode cmdPSH i d) (\<lambda>j. if j = i then d else [])"
  unfolding carries_def
  by (intro exI [of _ "[psh i d]"]) (auto simp: encode_frame_psh transfer_def)

lemma carries_waste: "waste_run w \<Longrightarrow> carries w (\<lambda>_. [])"
proof -
  assume "waste_run w"
  then obtain ks where ks: "\<forall>k \<in> set ks. k < 2 ^ 16"
    "w = concat (map (\<lambda>k. encode cmdWaste 0 (replicate k 0)) ks)"
    unfolding waste_run_def by blast
  have "stream_data i (map waste ks) = []" for i
    by (induction ks) (simp_all add: cmd_defs)
  with ks show ?thesis
    unfolding carries_def
    by (intro exI [of _ "map waste ks"])
      (auto simp: encode_frame_waste list_all_iff transfer_def comp_def)
qed

section \<open>Delivery from one end to the other\<close>

text \<open>A sequence of writes to stream objects of a session.\<close>

fun writes :: "randomness \<Rightarrow> session \<Rightarrow> (nat \<times> bytes) list \<Rightarrow> session" where
  "writes rnd s [] = s"
| "writes rnd s ((a, d) # ws) = writes rnd (fst (stream_Write rnd s a d)) ws"

text \<open>The data of a sequence of writes for the stream with id \<open>i\<close>.\<close>

definition written :: "(nat \<Rightarrow> u32) \<Rightarrow> (nat \<times> bytes) list \<Rightarrow> u32 \<Rightarrow> bytes" where
  "written ident ws i = concat (map snd (filter (\<lambda>(a, d). ident a = i) ws))"

definition open_stream :: "session \<Rightarrow> (nat \<Rightarrow> u32) \<Rightarrow> nat \<Rightarrow> bool" where
  "open_stream s ident a \<longleftrightarrow>
     (\<exists>st. objs s a = Some st \<and> st_id st = ident a \<and> \<not> st_writeExpired st \<and> st_dieErr st = None)"

lemma stream_Write_open:
  assumes "healthy rnd s" and "open_stream s ident a"
  obtains s' where "stream_Write rnd s a d = (s', length d, None)" "same_but_wire s s'"
    "healthy rnd s'" "wrote s (encode cmdPSH (ident a) d) s'"
proof (rule writeDataFrame_healthy [OF assms(1), of "ident a" d])
  fix s' assume "writeDataFrame rnd s (ident a) d = (s', length d, None)" "same_but_wire s s'"
    "healthy rnd s'" "wrote s (encode cmdPSH (ident a) d) s'"
  with assms(2) that [of s'] show ?thesis by (auto simp: open_stream_def stream_Write_def)
qed

lemma writes_carries:
  assumes "healthy rnd c" and "\<not> buffering c" and "buffer c = []"
    and "\<forall>(a, d) \<in> set ws. open_stream c ident a \<and> length d < 2 ^ 16"
  shows "\<exists>b. sent (conn (writes rnd c ws)) = sent (conn c) @ b \<and> carries b (written ident ws)"
  using assms
proof (induction ws arbitrary: c)
  case Nil
  then show ?case by (intro exI [of _ "[]"]) (simp add: written_def)
next
  case (Cons ad ws)
  obtain a d where ad: "ad = (a, d)" by (cases ad)
  with Cons.prems(4) have o: "open_stream c ident a" "length d < 2 ^ 16" by auto
  obtain t where t: "stream_Write rnd c a d = (t, length d, None)" "same_but_wire c t"
    "healthy rnd t" "wrote c (encode cmdPSH (ident a) d) t"
    by (rule stream_Write_open [OF Cons.prems(1) o(1)])
  from t(4) Cons.prems(2,3) have "buffer t = []"
    "\<exists>w. waste_run w \<and> sent (conn t) = sent (conn c) @ encode cmdPSH (ident a) d @ w"
    by (auto simp: wrote_def outflow_def)
  then obtain w where w: "waste_run w" "buffer t = []"
    "sent (conn t) = sent (conn c) @ encode cmdPSH (ident a) d @ w"
    by blast
  have "objs t = objs c" "\<not> buffering t"
    using same_but_wire_fields(2,13) [OF t(2)] Cons.prems(2) by simp_all
  with Cons.prems(4) have "\<forall>(a, d) \<in> set ws. open_stream t ident a \<and> length d < 2 ^ 16"
    by (auto simp: open_stream_def)
  from Cons.IH [OF t(3) \<open>\<not> buffering t\<close> w(2) this] obtain b where
    b: "sent (conn (writes rnd t ws)) = sent (conn t) @ b" "carries b (written ident ws)"
    by blast
  have "carries ((encode cmdPSH (ident a) d @ w) @ b)
      (\<lambda>i. ((if i = ident a then d else []) @ []) @ written ident ws i)"
    by (intro carries_append carries_psh carries_waste o(2) w(1) b(2))
  moreover have "(\<lambda>i. ((if i = ident a then d else []) @ []) @ written ident ws i)
      = written ident (ad # ws)"
    by (auto simp: written_def ad)
  ultimately show ?case using w(3) b(1) t(1) ad by auto
qed

text \<open>C2: What is written to the streams of a client, through cutting and padding, is what the
  streams of the server deliver: every stream the server has registered gets exactly the data
  written under its id, in the order written, and nothing else. Writes are below 64 KiB and the
  connection does not fail.\<close>

theorem end_to_end:
  assumes "healthy rnd c" and "\<not> buffering c" and "buffer c = []"
    and "\<forall>(a, d) \<in> set ws. open_stream c ident a \<and> length d < 2 ^ 16"
    and "sent (conn (writes rnd c ws)) = sent (conn c) @ b"
    and "session_inv s" and "\<not> die s" and "streams s i = Some a" and "objs s a = Some st"
  shows "\<exists>st'. objs (fst (recvLoop E s b)) a = Some st'
    \<and> p_delivered (st_pipe st') = p_delivered (st_pipe st) @ written ident ws i"
proof -
  obtain fs where "b = concat (map encode_frame fs)" "list_all transfer fs" "list_all frame_ok fs"
    "stream_data i fs = written ident ws i"
    using writes_carries [OF assms(1-4)] assms(5) unfolding carries_def by auto
  with recvLoop_transfer [OF assms(6,7) _ _ assms(8), of fs E] assms(9) show ?thesis
    by (auto simp: obj_received_def)
qed

theorem end_to_end_witness:
  "\<exists>b st'. sent (conn (writes (\<lambda>_ _ _. 0) sample_open [(0, [1, 2]), (0, [3])])) = b
     \<and> objs (fst (recvLoop sample_env sample_open b)) 0 = Some st'
     \<and> p_delivered (st_pipe st') = [1, 2, 3]"
proof -
  let ?ws = "[(0, [1, 2]), (0, [3])] :: (nat \<times> bytes) list"
  let ?b = "sent (conn (writes (\<lambda>_ _ _. 0) sample_open ?ws))"
  have "\<forall>(a, d) \<in> set ?ws. open_stream sample_open (\<lambda>_. 1) a \<and> length d < 2 ^ 16"
    by (simp add: open_stream_def sample_open_fields newStream_def)
  moreover have "?b = sent (conn sample_open) @ ?b"
    by (simp add: sample_open_fields sent_def sample_conn_def)
  ultimately have "\<exists>st'. objs (fst (recvLoop sample_env sample_open ?b)) 0 = Some st'
    \<and> p_delivered (st_pipe st') = p_delivered (st_pipe (newStream 1)) @ written (\<lambda>_. 1) ?ws 1"
    by (intro end_to_end [OF sample_open_healthy _ sample_open_fields(9) _ _ sample_open_inv
          sample_open_fields(10,1,2)]) (simp_all only: sample_open_fields not_False_eq_True)
  moreover have "written (\<lambda>_. 1) ?ws 1 = [1, 2, 3]" by (simp add: written_def)
  ultimately show ?thesis by simp
qed


section \<open>The first flight\<close>

text \<open>The client's side: the settings and the SYN wait in the buffer and leave with the first data,
  in this order, in one go.\<close>

lemma client_flight:
  assumes h: "healthy rnd c" and c: "c = NewClientSession cc p" and empty: "c_out cc = []"
  obtains c2 c3 w where
    "OpenStream rnd (Run_client rnd order c) = (c2, Inr 0)" "sent (conn c2) = []"
    "stream_Write rnd c2 0 d = (c3, length d, None)" "buffer c3 = []" "waste_run w"
    "sent (conn c3) = encode cmdSettings 0 (ToBytes (order (client_settings c)))
       @ encode cmdSYN 1 [] @ encode cmdPSH 1 d @ w"
proof -
  let ?f = "(newFrame cmdSettings 0)\<lparr>data := ToBytes (order (client_settings c))\<rparr>"
  let ?c = "c\<lparr>buffering := True\<rparr>"
  have inv: "session_inv (Run_client rnd order c)"
    using h unfolding c by (intro inv_Run_client session_inv_NewClient)
      (simp add: healthy_def NewClientSession_def no_failure_def)
  have "healthy rnd ?c" using h by (simp add: healthy_def)
  then obtain c1 where c1: "writeControlFrame rnd ?c ?f = (c1, length (data ?f), None)"
    "same_but_wire ?c c1" "healthy rnd c1" "wrote ?c (encode_frame ?f) c1"
    by (rule writeControlFrame_healthy)
  have run: "Run_client rnd order c = c1"
    using c1(1) by (simp add: Run_client_def)
  note inv1 = inv [unfolded run]
  have f1: "streamId c1 = 0" "nextObj c1 = 0" "buffering c1"
    using same_but_wire_fields(3,4,13) [OF c1(2)] by (simp_all add: c NewClientSession_def)
  have o1: "outflow c1 = encode_frame ?f"
    using c1(4) empty by (simp add: wrote_def outflow_def sent_def c NewClientSession_def)
  from OpenStream_healthy [OF inv1 c1(3)] f1 obtain c2 where
    c2: "OpenStream rnd c1 = (c2, Inr 0)" "objs c2 0 = Some (newStream 1)" "healthy rnd c2"
      "wrote c1 (encode cmdSYN 1 []) c2" "\<not> buffering c2"
    by auto
  have o2: "outflow c2 = encode_frame ?f @ encode cmdSYN 1 []"
    using c2(4) f1(3) o1 by (auto simp: wrote_def)
  have "open_stream c2 (\<lambda>_. 1) 0" using c2(2) by (simp add: open_stream_def newStream_def)
  from stream_Write_open [OF c2(3) this, of d] obtain c3 where
    c3: "stream_Write rnd c2 0 d = (c3, length d, None)" "wrote c2 (encode cmdPSH 1 d) c3"
    by metis
  then obtain w where w: "waste_run w" "outflow c3 = outflow c2 @ encode cmdPSH 1 d @ w"
    "buffer c3 = []"
    using c2(5) unfolding wrote_def by (auto split: if_splits)
  have "sent (conn c2) = []"
    using c1(4) c2(4) f1(3) empty
    by (auto simp: wrote_def c NewClientSession_def sent_def split: if_splits)
  moreover have "sent (conn c3) = encode_frame ?f @ encode cmdSYN 1 [] @ encode cmdPSH 1 d @ w"
    using w o2 by (simp add: outflow_def)
  ultimately show ?thesis
    using that [of c2 c3 w] c2(1) c3(1) w(1,3) by (simp add: run encode_frame_def newFrame_def)
qed


lemma run_frames_append:
  "run_frames act s (fs @ gs) =
     (case run_frames act s fs of (s', Continue) \<Rightarrow> run_frames act s' gs | r \<Rightarrow> r)"
  by (induction fs arbitrary: s) (simp_all split: prod.split ctl.split)

text \<open>The server's side: the settings, a SYN and transfer frames give one accepted stream with the
  data.\<close>

lemma server_flight:
  assumes p: "plain_server (e_rnd E) s" and inv: "session_inv s" and new: "streams s i = None"
    and m: "m = StringMapFromBytes buf" and buf: "buf \<noteq> []"
    and fs: "list_all transfer fs"
  obtains s' st v where
    "run_frames (handle E) (s, False)
       ((newFrame cmdSettings 0)\<lparr>data := buf\<rparr> # newFrame cmdSYN i # fs) = ((s', True), Continue)"
    "\<not> die s'" "session_inv s'" "accepted s' = accepted s @ [nextObj s]"
    "objs s' (nextObj s) = Some st" "st_id st = i" "p_delivered (st_pipe st) = stream_data i fs"
    "sent (conn s') = sent (conn s) @ settings_frames (padding s) m"
    "peerVersion s' = (case atoi (sm_get m ''v'') of
        Some n \<Rightarrow> if n \<ge> 2 then word_of_int n else peerVersion s | None \<Rightarrow> peerVersion s)"
proof -
  have server: "\<not> isClient s" "healthy (e_rnd E) s" using p by (simp_all add: plain_server_def)
  have live: "\<not> die s" using healthy_live [OF inv server(2)] .
  obtain t v where t: "settings_data E s buf = (t, Continue)"
    "same_but_wire (s\<lparr>peerVersion := v\<rparr>) t" "plain_server (e_rnd E) t"
    "v = (case atoi (sm_get m ''v'') of
        Some n \<Rightarrow> if n \<ge> 2 then word_of_int n else peerVersion s | None \<Rightarrow> peerVersion s)"
    "sent (conn t) = sent (conn s) @ settings_frames (padding s) m"
    by (rule settings_data_plain [OF p m])
  have ft: "streams t = streams s" "objs t = objs s" "nextObj t = nextObj s" "die t = die s"
    "peerVersion t = v" "accepted t = accepted s" "isClient t = isClient s"
    using same_but_wire_fields(1-3,5,11,12,15) [OF t(2)] by simp_all
  have invt: "session_inv t" using inv_settings_data [OF inv, of E buf] t(1) by simp
  have h1: "handle E (s, False) ((newFrame cmdSettings 0)\<lparr>data := buf\<rparr>) = ((t, True), Continue)"
    using t(1) live buf server(1)
    by (simp add: handle_def newFrame_def cmd_defs IsClosed_def when_data_def)
  let ?u = "fst (on_SYN E t True i)"
  have u: "on_SYN E t True i = (?u, Continue)" "accepted ?u = accepted s @ [nextObj s]"
    "objs ?u (nextObj s) = Some (newStream i)" "streams ?u i = Some (nextObj s)"
    "conn ?u = conn t" "peerVersion ?u = v" "\<not> die ?u"
    using new ft live by (simp_all add: on_SYN_def Let_def)
  have h2: "handle E (t, True) (newFrame cmdSYN i) = ((?u, True), Continue)"
    using u(1) live ft(4)
    by (cases "on_SYN E t True i") (simp add: handle_def newFrame_def cmd_defs IsClosed_def)
  have "session_inv ?u" using inv_on_SYN [OF invt] live ft(4) by blast
  from run_transfer [OF this u(7) fs, of E True] u(4) obtain s' where
    s': "run_frames (handle E) (?u, True) fs = ((s', True), Continue)" "\<not> die s'" "session_inv s'"
      "conn s' = conn ?u" "accepted s' = accepted ?u" "peerVersion s' = peerVersion ?u"
      "obj_received ?u s' (nextObj s) (stream_data i fs)"
    by blast
  then obtain st where "objs s' (nextObj s) = Some st" "st_id st = i"
    "p_delivered (st_pipe st) = stream_data i fs"
    using u(3) by (auto simp: obj_received_def)
  moreover have "run_frames (handle E) (s, False)
      ((newFrame cmdSettings 0)\<lparr>data := buf\<rparr> # newFrame cmdSYN i # fs) = ((s', True), Continue)"
    using s'(1) by (simp add: h1 h2)
  ultimately show ?thesis
    using that [of s' st] s'(2-6) u(2,5,6) t(4,5) by simp
qed

lemma first_flight_run:
  assumes client: "rand_ok rnd" "scheme_bounded p" "no_failure cc" "c_out cc = []"
    and server: "rand_ok (e_rnd E)" "scheme_bounded q" "no_failure sc" "c_out sc = []"
    and order: "reorders order" "CHR ''\<newline>'' \<notin> set (Md5 p)"
    and buf: "buf = ToBytes (order (client_settings (NewClientSession cc p)))" "length buf < 2 ^ 16"
    and d: "length d < 2 ^ 16"
  shows "\<exists>c2 c3 s' st. OpenStream rnd (Run_client rnd order (NewClientSession cc p)) = (c2, Inr 0)
    \<and> sent (conn c2) = [] \<and> stream_Write rnd c2 0 d = (c3, length d, None)
    \<and> recvLoop E (NewServerSession sc h q) (sent (conn c3)) = (s', Some EOF)
    \<and> accepted s' = [0] \<and> objs s' 0 = Some st \<and> st_id st = 1 \<and> p_delivered (st_pipe st) = d
    \<and> peerVersion s' = 2
    \<and> sent (conn s') = (if Md5 p = Md5 q then []
        else encode cmdUpdatePaddingScheme 0 (RawScheme q)) @ encode cmdServerSettings 0 (bytes_of ''v=2'')"
proof -
  let ?c = "NewClientSession cc p" and ?s = "NewServerSession sc h q"
  have "healthy rnd ?c" using client by (simp add: healthy_def NewClientSession_def)
  then obtain c2 c3 w where c: "OpenStream rnd (Run_client rnd order ?c) = (c2, Inr 0)"
    "sent (conn c2) = []" "stream_Write rnd c2 0 d = (c3, length d, None)" "waste_run w"
    "sent (conn c3) = encode cmdSettings 0 buf @ encode cmdSYN 1 [] @ encode cmdPSH 1 d @ w"
    unfolding buf(1) by (rule client_flight [OF _ refl client(4)])
  have "carries (encode cmdPSH 1 d @ w) (\<lambda>j. (if j = 1 then d else []) @ [])"
    by (intro carries_append carries_psh carries_waste d c(4))
  then obtain fs where fs: "encode cmdPSH 1 d @ w = concat (map encode_frame fs)"
    "list_all transfer fs" "list_all frame_ok fs" "stream_data 1 fs = d"
    unfolding carries_def by fastforce
  let ?f = "(newFrame cmdSettings 0)\<lparr>data := buf\<rparr>" and ?g = "newFrame cmdSYN 1"
  have bytes: "sent (conn c3) = concat (map encode_frame (?f # ?g # fs))"
    using c(5) fs(1) by (simp add: encode_frame_def newFrame_def)
  have ok: "list_all frame_ok (?f # ?g # fs)"
    using fs(3) buf(2) by (simp add: frame_ok_def newFrame_def carries_data_def)
  have inv: "session_inv ?s"
    using server(3) session_inv_NewServer by (simp add: no_failure_def)
  have plain: "plain_server (e_rnd E) ?s"
    using server(1-3) by (simp add: plain_server_def healthy_def NewServerSession_def)
  let ?m = "StringMapFromBytes buf"
  have m: "sm_get ?m ''padding-md5'' = Md5 p" "sm_get ?m ''v'' = ''2''"
    using client_settings_read [OF order(1), of ?c ?m] order(2) buf(1)
    by (simp_all add: NewClientSession_def)
  then have ne: "buf \<noteq> []"
    by (auto simp: StringMapFromBytes_def string_of_def put_line_def split_two_def sm_get_def)
  have new: "streams ?s 1 = None" by (simp add: NewServerSession_def)
  obtain t st where t: "run_frames (handle E) (?s, False) (?f # ?g # fs) = ((t, True), Continue)"
    "\<not> die t" "accepted t = accepted ?s @ [nextObj ?s]"
    "objs t (nextObj ?s) = Some st" "st_id st = 1" "p_delivered (st_pipe st) = stream_data 1 fs"
    "sent (conn t) = sent (conn ?s) @ settings_frames (padding ?s) ?m"
    "peerVersion t = (case atoi (sm_get ?m ''v'') of
        Some n \<Rightarrow> if n \<ge> 2 then word_of_int n else peerVersion ?s | None \<Rightarrow> peerVersion ?s)"
    by (rule server_flight [OF plain inv new refl ne fs(2)]) blast
  have loop: "recvLoop E ?s (sent (conn c3)) = (fst (Close t), Some EOF)"
    unfolding bytes recvLoop_def recv_iter_frames [OF ok] t(1)
    using t(2) by (simp add: recv_iter_end IsClosed_def)
  obtain st' where st': "objs (fst (Close t)) 0 = Some st'" "st_id st' = 1"
    "p_delivered (st_pipe st') = d"
    using obj_received_Close [of t 0] t(4-6) fs(4) by (auto simp: obj_received_def NewServerSession_def)
  have "accepted (fst (Close t)) = [0]" "peerVersion (fst (Close t)) = 2"
    using mild_Close [of t] t(3,8) m(2) by (simp_all add: mild_def NewServerSession_def)
  moreover have "conn (fst (Close t)) = (conn t)\<lparr>c_closed := True\<rparr>"
    using t(2) by (simp add: Close_eq)
  moreover have "sent (conn t) = (if Md5 p = Md5 q then []
        else encode cmdUpdatePaddingScheme 0 (RawScheme q)) @ encode cmdServerSettings 0 (bytes_of ''v=2'')"
    using t(7) server(4) m by (simp add: settings_frames_def NewServerSession_def sent_def)
  ultimately show ?thesis using c(1-3) loop st'
    by (intro exI [of _ c2] exI [of _ c3] exI [of _ "fst (Close t)"] exI [of _ st']) (simp add: sent_def)
qed

text \<open>C3: The first flight of a session: settings, SYN and first data of the client leave together;
  the server accepts exactly one stream, with id 1, that holds exactly the data; it answers the
  settings, with its scheme only if the client's differs; it knows version 2.\<close>

theorem first_flight:
  assumes client: "rand_ok rnd" "scheme_bounded p" "no_failure cc" "c_out cc = []"
    and server: "rand_ok (e_rnd E)" "scheme_bounded q" "no_failure sc" "c_out sc = []"
    and order: "reorders order" "CHR ''\<newline>'' \<notin> set (Md5 p)"
    and buf: "buf = ToBytes (order (client_settings (NewClientSession cc p)))" "length buf < 2 ^ 16"
    and d: "length d < 2 ^ 16"
  shows "\<exists>c2 c3 s' st. OpenStream rnd (Run_client rnd order (NewClientSession cc p)) = (c2, Inr 0)
    \<and> sent (conn c2) = [] \<and> stream_Write rnd c2 0 d = (c3, length d, None)
    \<and> recvLoop E (NewServerSession sc h q) (sent (conn c3)) = (s', Some EOF)
    \<and> accepted s' = [0] \<and> objs s' 0 = Some st \<and> st_id st = 1 \<and> p_delivered (st_pipe st) = d
    \<and> peerVersion s' = 2
    \<and> sent (conn s') = (if Md5 p = Md5 q then []
        else encode cmdUpdatePaddingScheme 0 (RawScheme q)) @ encode cmdServerSettings 0 (bytes_of ''v=2'')"
  by (rule first_flight_run [OF assms])

theorem first_flight_witness:
  "\<exists>c2 c3 s' st.
     OpenStream (\<lambda>_ _ _. 0) (Run_client (\<lambda>_ _ _. 0) (\<lambda>m. m)
       (NewClientSession sample_conn sample_factory)) = (c2, Inr 0)
     \<and> stream_Write (\<lambda>_ _ _. 0) c2 0 [1, 2, 3] = (c3, 3, None)
     \<and> recvLoop sample_env (NewServerSession sample_conn True sample_factory) (sent (conn c3))
         = (s', Some EOF)
     \<and> objs s' 0 = Some st \<and> p_delivered (st_pipe st) = [1, 2, 3]"
proof -
  have r: "rand_ok (e_rnd sample_env)" by (simp add: sample_env_def rand_ok_zero)
  have c: "c_out sample_conn = []" by (simp add: sample_conn_def)
  have m: "CHR ''\<newline>'' \<notin> set (Md5 sample_factory)" by (simp add: sample_factory_def)
  have o: "reorders (\<lambda>m. m)" by (simp add: reorders_def)
  have l: "length (ToBytes (client_settings (NewClientSession sample_conn sample_factory))) < 2 ^ 16"
    by (simp add: client_settings_def ToBytes_def ProgramVersionName_def NewClientSession_def
        sample_factory_def)
  have d: "length ([1, 2, 3] :: bytes) < 2 ^ 16" by simp
  from first_flight [OF rand_ok_zero sample_bounded sample_client_simps(7) c r sample_bounded
      sample_client_simps(7) c o m refl l d, of True]
  show ?thesis by auto
qed

end
