(* ===== verification/Relay.thy ===== *)
theory Relay
  imports Lifecycle
begin

text \<open>
  What the server does with an accepted stream, \<^verbatim>\<open>internal/server/handler.go\<close> from the
  callback of \<open>NewServerSession\<close> on: it reads the destination, connects out, reports the outcome to
  the client and copies, and whatever happens the stream is closed in the end. The functions of the
  sing library (reading an address or a request, reporting, copying) and the network are a record of
  parameters. Reading from the stream does not change the session as it is modelled here.
\<close>

section \<open>The callback\<close>

text \<open>How a relay ends: with the errors it returns (none for \<open>nil\<close>), or with a panic.\<close>

datatype relay_end = Returned "go_error list" | Panicked

text \<open>\<open>destination\<close> is the outcome of \<open>ReadAddrPort\<close>, \<open>dialled\<close> and \<open>listened\<close> the error text where
  the dialling or the listening fails, \<open>request\<close> the error of \<open>uot.ReadRequest\<close>.\<close>

record outside =
  destination :: "go_error + string"
  dialled :: "bytes option"
  request :: "go_error option"
  listened :: "bytes option"
  reportFailure :: "bytes \<Rightarrow> session \<Rightarrow> session \<times> go_error option"
  reportSuccess :: "session \<Rightarrow> session \<times> go_error option"
  copyConn :: "session \<Rightarrow> session \<times> relay_end"
  copyPackets :: "session \<Rightarrow> session \<times> relay_end"

definition proxyOutboundTCP :: "outside \<Rightarrow> session \<Rightarrow> session \<times> relay_end" where
  "proxyOutboundTCP W s =
     (case dialled W of
        Some err \<Rightarrow>
          (case reportFailure W err s of (s1, e) \<Rightarrow>
             (s1, Returned (RemoteError err # (case e of None \<Rightarrow> [] | Some e' \<Rightarrow> [e']))))
      | None \<Rightarrow>
          (case reportSuccess W s of
             (s1, Some e) \<Rightarrow> (s1, Returned [e])
           | (s1, None) \<Rightarrow> copyConn W s1))"

definition proxyOutboundUoT :: "outside \<Rightarrow> session \<Rightarrow> session \<times> relay_end" where
  "proxyOutboundUoT W s =
     (case request W of
        Some e \<Rightarrow> (s, Returned [e])
      | None \<Rightarrow>
          (case listened W of
             Some err \<Rightarrow>
               (case reportFailure W err s of (s1, e) \<Rightarrow>
                  (s1, Returned (RemoteError err # (case e of None \<Rightarrow> [] | Some e' \<Rightarrow> [e']))))
           | None \<Rightarrow>
               (case reportSuccess W s of
                  (s1, Some e) \<Rightarrow> (s1, Returned [e])
                | (s1, None) \<Rightarrow> copyPackets W s1)))"

text \<open>\<open>strings.Contains\<close>.\<close>

fun contains :: "string \<Rightarrow> string \<Rightarrow> bool" where
  "contains sub [] = (sub = [])"
| "contains sub (c # cs) = (take (length sub) (c # cs) = sub \<or> contains sub cs)"

definition packet_relay :: "outside \<Rightarrow> bool" where
  "packet_relay W \<longleftrightarrow> (\<exists>d. destination W = Inr d \<and> contains ''udp-over-tcp.arpa'' d)"

definition relay :: "outside \<Rightarrow> session \<Rightarrow> session \<times> relay_end" where
  "relay W s =
     (case destination W of
        Inl e \<Rightarrow> (s, Returned [e])
      | Inr d \<Rightarrow>
          (if contains ''udp-over-tcp.arpa'' d then proxyOutboundUoT W s else proxyOutboundTCP W s))"

text \<open>The callback: the deferred \<open>stream.Close\<close> runs on every way out, a panic included, which the
  outer deferred function swallows.\<close>

definition on_new_stream :: "randomness \<Rightarrow> outside \<Rightarrow> nat \<Rightarrow> session \<Rightarrow> session" where
  "on_new_stream rnd W a s = (case relay W s of (s1, _) \<Rightarrow> fst (stream_Close rnd s1 a))"

section \<open>Lemmas\<close>

text \<open>The reports as the library makes them, through the methods of the stream; a copy is made of
  operations on the session, the stream's own and those of other goroutines beside it.\<close>

definition reports_stream :: "env \<Rightarrow> nat \<Rightarrow> outside \<Rightarrow> bool" where
  "reports_stream E a W \<longleftrightarrow>
     (\<forall>s err. reportFailure W err s = HandshakeFailure (e_rnd E) s a (Some err))
     \<and> (\<forall>s. reportSuccess W s = HandshakeSuccess (e_rnd E) s a)"

definition copies_by_ops :: "env \<Rightarrow> outside \<Rightarrow> bool" where
  "copies_by_ops E W \<longleftrightarrow>
     (\<forall>s. (sess_op E)\<^sup>*\<^sup>* s (fst (copyConn W s)) \<and> (sess_op E)\<^sup>*\<^sup>* s (fst (copyPackets W s)))"

lemma ops_relay:
  assumes "reports_stream E a W" and "copies_by_ops E W"
  shows "(sess_op E)\<^sup>*\<^sup>* s (fst (relay W s))"
proof -
  have f: "sess_op E t (fst (reportFailure W err t))" for t err
    using assms(1) by (simp add: reports_stream_def op_HandshakeFailure)
  have g: "sess_op E t (fst (reportSuccess W t))" for t
    using assms(1) by (simp add: reports_stream_def op_HandshakeSuccess)
  have g': "sess_op E t t'" if "reportSuccess W t = (t', e)" for t t' e
    using g [of t] that by simp
  have f': "sess_op E t t'" if "reportFailure W err t = (t', e)" for t t' err e
    using f [of t err] that by simp
  have c: "(sess_op E)\<^sup>*\<^sup>* t (fst (copyConn W t))" "(sess_op E)\<^sup>*\<^sup>* t (fst (copyPackets W t))" for t
    using assms(2) by (simp_all add: copies_by_ops_def)
  show ?thesis
    by (auto simp: relay_def proxyOutboundUoT_def proxyOutboundTCP_def
        intro: f' g' converse_rtranclp_into_rtranclp [OF g' c(1)] converse_rtranclp_into_rtranclp [OF g' c(2)]
        split: sum.splits option.splits prod.splits)
qed

lemma inv_ops: "(sess_op E)\<^sup>*\<^sup>* s s' \<Longrightarrow> session_inv s \<Longrightarrow> session_inv s'"
  by (induction rule: rtranclp_induct) (auto dest: inv_sess_op)

text \<open>No operation drops a stream object.\<close>

definition store :: "session \<Rightarrow> nat set" where
  "store s = dom (objs s)"

lemma store_same: "objs s' = objs s \<Longrightarrow> store s' = store s"
  by (simp add: store_def)

lemma store_Close [simp]: "store (fst (Close s)) = store s"
  by (auto simp: store_def Close_def conn_Close_def dom_def)

lemma store_upd [simp]:
  "store (upd_obj a f s) = store s" "store (s\<lparr>streams := m\<rparr>) = store s" "store (set_deadline d s) = store s"
  "store (s\<lparr>watchers := w\<rparr>) = store s" "store (s\<lparr>synDone := d'\<rparr>) = store s" "store (s\<lparr>buffering := b\<rparr>) = store s"
  by (auto simp: store_def upd_obj_def dom_def set_deadline_def)

lemma store_writeConn: "writeConn rnd s b = (s', n, e) \<Longrightarrow> store s' = store s"
  by (rule store_same) (erule same_but_wire_fields(2) [OF writeConn_same])

lemma store_writeControlFrame: "writeControlFrame rnd s f = (s', n, e) \<Longrightarrow> store s' = store s"
  by (auto simp: writeControlFrame_def dest!: store_writeConn split: prod.splits option.splits)

lemma store_closeWithError [simp]: "store (fst (closeWithError rnd s a err)) = store s"
  by (auto simp: closeWithError_def streamClosed_def dest: store_writeControlFrame split: option.split prod.split)

lemma store_setters:
  "stream_SetReadDeadline t a s = Returns (s', e) \<Longrightarrow> store s' = store s"
  "stream_SetWriteDeadline t a s = Returns (s', e) \<Longrightarrow> store s' = store s"
  by (auto dest!: deadline_setters)

lemma store_sess_op: "sess_op E s s' \<Longrightarrow> store s \<subseteq> store s'"
proof (induction rule: sess_op.induct)
  case (op_OpenStream s)
  have new: "store (s\<lparr>streamId := i, nextObj := k, objs := (objs s)(a \<mapsto> v)\<rparr>) = insert a (store s)" for i k a v
    by (auto simp: store_def)
  have watch: "store (NewDeadlineWatcher (call_synDone t)) = store t" for t
    by (simp add: NewDeadlineWatcher_def call_synDone_def split: option.split)
  show ?case
    by (auto simp: OpenStream_def Let_def new watch dest!: store_writeControlFrame
        split: prod.splits option.splits if_splits)
next
  case (op_stream_Write s a b)
  then show ?case
    by (auto simp: stream_Write_def writeDataFrame_def dest: store_writeConn split: option.split prod.split)
next
  case (op_HandshakeFailure s a err)
  then show ?case
    by (auto simp: HandshakeFailure_def Let_def dest: store_writeControlFrame split: option.split prod.split)
next
  case (op_HandshakeSuccess s a)
  then show ?case
    by (auto simp: HandshakeSuccess_def Let_def dest: store_writeControlFrame split: option.split prod.split)
qed (simp_all add: stream_Close_def watcher_timeout_def accept_goroutine_def store_setters)

lemma store_ops: "(sess_op E)\<^sup>*\<^sup>* s s' \<Longrightarrow> store s \<subseteq> store s'"
  by (induction rule: rtranclp_induct) (use store_sess_op in blast)+

section \<open>Claims\<close>

definition frozen :: "nat \<Rightarrow> stream \<Rightarrow> session \<Rightarrow> bool" where
  "frozen a st s \<longleftrightarrow> objs s a = Some st \<and> st_dieOnce st"

lemma frozen_simps [simp]:
  "frozen a st (s\<lparr>streams := m\<rparr>) = frozen a st s" "frozen a st (set_deadline d s) = frozen a st s"
  by (simp_all add: frozen_def set_deadline_def)

lemma frozen_Close: "frozen a st s \<Longrightarrow> frozen a st (fst (Close s))"
  by (auto simp: frozen_def Close_def conn_Close_def closeLocally_def)

lemma frozen_writeControlFrame:
  assumes "writeControlFrame rnd s f = (s', n, e)" and "frozen a st s"
  shows "frozen a st s'"
proof -
  obtain t k e' where w: "writeConn rnd (set_deadline True s) (encode_frame f) = (t, k, e')"
    by (metis prod_cases3)
  have "objs t = objs s" using same_but_wire_fields(2) [OF writeConn_same [OF w]] by (simp add: set_deadline_def)
  then have "frozen a st t" using assms(2) by (simp add: frozen_def)
  with assms(1) w show ?thesis
    by (auto simp: writeControlFrame_def frozen_Close split: option.splits)
qed

text \<open>The first close of a stream is the one that counts.\<close>

lemma closeWithError_frozen:
  assumes "objs s a = Some st" and "\<not> st_dieOnce st"
  shows "frozen a (kill (die s) err st) (fst (closeWithError rnd s a err))"
proof -
  let ?s = "upd_obj a (kill (die s) err) s"
  have "frozen a (kill (die s) err st) ?s" using assms(1) by (simp add: frozen_def upd_obj_def kill_def)
  then have "frozen a (kill (die s) err st) (fst (streamClosed rnd ?s (st_id st)))"
    by (auto simp: streamClosed_def dest: frozen_writeControlFrame split: prod.split)
  then show ?thesis using assms by (simp add: closeWithError_def)
qed

text \<open>After \<open>stream.Close\<close> the stream is dead and not registered, whatever state it was in.\<close>

lemma stream_Close_done:
  assumes "session_inv s" and "a \<in> store s"
  shows "session_inv (fst (stream_Close rnd s a))"
    and "\<exists>st. objs (fst (stream_Close rnd s a)) a = Some st \<and> st_dieOnce st"
    and "\<forall>i. streams (fst (stream_Close rnd s a)) i \<noteq> Some a"
proof -
  show inv: "session_inv (fst (stream_Close rnd s a))"
    using assms(1) by (simp add: stream_Close_def inv_closeWithError)
  show dead: "\<exists>st. objs (fst (stream_Close rnd s a)) a = Some st \<and> st_dieOnce st"
  proof -
    obtain st where st: "objs s a = Some st" using assms(2) by (auto simp: store_def)
    show ?thesis
    proof (cases "st_dieOnce st")
      case True
      then show ?thesis using st by (simp add: stream_Close_def closeWithError_def)
    next
      case False
      from closeWithError_frozen [OF st this, of ErrClosedPipe rnd] show ?thesis
        by (auto simp: frozen_def stream_Close_def)
    qed
  qed
  show "\<forall>i. streams (fst (stream_Close rnd s a)) i \<noteq> Some a"
    using session_inv_registered [OF inv] dead by fastforce
qed

text \<open>C5: However a stream's relay goes, whether its destination cannot be read or reached, the copying
  returns, fails or panics, and whatever other goroutines do to the session meanwhile: in the end
  the stream is dead and out of the registry, and the session's invariant holds.\<close>

theorem relay_closes:
  assumes "session_inv s" and "objs s a = Some st" and "reports_stream E a W" and "copies_by_ops E W"
  shows "session_inv (on_new_stream (e_rnd E) W a s)
    \<and> (\<exists>st'. objs (on_new_stream (e_rnd E) W a s) a = Some st' \<and> st_dieOnce st' \<and> p_done (st_pipe st'))
    \<and> (\<forall>i. streams (on_new_stream (e_rnd E) W a s) i \<noteq> Some a)"
proof -
  note ops = ops_relay [OF assms(3,4), of s]
  have "session_inv (fst (relay W s))" using inv_ops [OF ops assms(1)] .
  moreover have "a \<in> store (fst (relay W s))" using store_ops [OF ops] assms(2) by (auto simp: store_def)
  ultimately have c: "session_inv (fst (stream_Close (e_rnd E) (fst (relay W s)) a))"
    "\<exists>st. objs (fst (stream_Close (e_rnd E) (fst (relay W s)) a)) a = Some st \<and> st_dieOnce st"
    "\<forall>i. streams (fst (stream_Close (e_rnd E) (fst (relay W s)) a)) i \<noteq> Some a"
    by (rule stream_Close_done)+
  have "on_new_stream (e_rnd E) W a s = fst (stream_Close (e_rnd E) (fst (relay W s)) a)"
    by (simp add: on_new_stream_def split: prod.split)
  moreover have "p_done (st_pipe st')"
    if "objs (fst (stream_Close (e_rnd E) (fst (relay W s)) a)) a = Some st'" "st_dieOnce st'" for st'
    using c(1) that unfolding session_inv_def inv_but_def heap_ok_def stream_ok_def by blast
  ultimately show ?thesis using c by auto
qed

definition steady :: "session \<Rightarrow> session \<Rightarrow> bool" where
  "steady s s' \<longleftrightarrow> streams s' = streams s \<and> buffering s' = buffering s \<and> (sendPadding s' \<longrightarrow> sendPadding s)"

text \<open>A report on a healthy session: sent once as one SYNACK to a peer that understands it.\<close>

definition announced :: "session \<Rightarrow> u32 \<Rightarrow> bytes \<Rightarrow> session \<Rightarrow> bool" where
  "announced s i msg s' \<longleftrightarrow>
     (if peerVersion s \<ge> 2 then wrote s (encode cmdSYNACK i msg) s'
      else conn s' = conn s \<and> buffer s' = buffer s)"

lemma handshake_healthy:
  assumes "session_inv s" and "healthy rnd s" and "objs s a = Some st" and "\<not> st_reportOnce st"
  obtains s1 where
    "(case r of None \<Rightarrow> HandshakeSuccess rnd s a | Some m \<Rightarrow> HandshakeFailure rnd s a (Some m)) = (s1, None)"
    "session_inv s1" "healthy rnd s1" "steady s s1"
    "announced s (st_id st) (case r of None \<Rightarrow> [] | Some m \<Rightarrow> m) s1"
proof -
  let ?s = "upd_obj a (\<lambda>st. st\<lparr>st_reportOnce := True\<rparr>) s"
  let ?m = "case r of None \<Rightarrow> [] | Some m \<Rightarrow> m"
  let ?call = "case r of None \<Rightarrow> HandshakeSuccess rnd s a | Some m \<Rightarrow> HandshakeFailure rnd s a (Some m)"
  have inv: "session_inv (fst ?call)"
    using assms(1) by (simp add: inv_HandshakeSuccess inv_HandshakeFailure split: option.split)
  show thesis
  proof (cases "peerVersion s \<ge> 2")
    case True
    have "healthy rnd ?s" using assms(2) by simp
    from writeControlFrame_healthy [OF this, of "(newFrame cmdSYNACK (st_id st))\<lparr>data := ?m\<rparr>"]
    obtain t where t: "writeControlFrame rnd ?s ((newFrame cmdSYNACK (st_id st))\<lparr>data := ?m\<rparr>)
        = (t, length ?m, None)" "same_but_wire ?s t" "wrote s (encode cmdSYNACK (st_id st) ?m) t" "healthy rnd t"
      by (auto simp: newFrame_def encode_frame_def)
    have c: "?call = (t, None)"
      using t(1) True assms(3,4) by (cases r) (simp_all add: HandshakeSuccess_def HandshakeFailure_def newFrame_def)
    have "steady s t" using same_but_wire_fields(1,13,19) [OF t(2)] by (simp add: upd_obj_def steady_def)
    with that [OF c] inv c t(3,4) True show thesis by (simp add: announced_def)
  next
    case False
    have c: "?call = (?s, None)"
      using False assms(3) by (cases r) (simp_all add: HandshakeSuccess_def HandshakeFailure_def)
    have "announced s (st_id st) ?m ?s" "steady s ?s"
      using False by (simp_all add: announced_def upd_obj_def steady_def)
    with that [OF c] inv c assms(2) show thesis by simp
  qed
qed

text \<open>Where the relay of a stream gets to.\<close>

definition unreadable :: "outside \<Rightarrow> bool" where
  "unreadable W \<longleftrightarrow> (\<exists>e. destination W = Inl e) \<or> (packet_relay W \<and> request W \<noteq> None)"

definition outbound_error :: "outside \<Rightarrow> bytes option" where
  "outbound_error W = (if packet_relay W then listened W else dialled W)"

definition copying :: "outside \<Rightarrow> session \<Rightarrow> session \<times> relay_end" where
  "copying W = (if packet_relay W then copyPackets W else copyConn W)"

lemma relay_cases:
  "relay W s =
     (case destination W of
        Inl e \<Rightarrow> (s, Returned [e])
      | Inr d \<Rightarrow>
          (if packet_relay W \<and> request W \<noteq> None then (s, Returned [the (request W)])
           else
             (case outbound_error W of
                Some err \<Rightarrow>
                  (case reportFailure W err s of (s1, e) \<Rightarrow>
                     (s1, Returned (RemoteError err # (case e of None \<Rightarrow> [] | Some e' \<Rightarrow> [e']))))
              | None \<Rightarrow>
                  (case reportSuccess W s of
                     (s1, Some e) \<Rightarrow> (s1, Returned [e])
                   | (s1, None) \<Rightarrow> copying W s1))))"
  by (auto simp: relay_def packet_relay_def proxyOutboundUoT_def proxyOutboundTCP_def outbound_error_def
      copying_def split: sum.split option.split)

lemma stream_Close_FIN:
  assumes "session_inv s" and "healthy rnd s" and "streams s i = Some a"
  shows "wrote s (encode cmdFIN i []) (fst (stream_Close rnd s a))"
  using stream_close_effect [OF assms, of ErrClosedPipe ErrClosedPipe "[]"] by (auto simp: stream_Close_def)

lemma relay_outcome:
  assumes "session_inv s" and "healthy (e_rnd E) s" and "streams s i = Some a"
    and "objs s a = Some st" and "\<not> st_reportOnce st" and "reports_stream E a W"
  shows "if unreadable W then wrote s (encode cmdFIN i []) (on_new_stream (e_rnd E) W a s)
    else (case outbound_error W of
        Some err \<Rightarrow> (\<exists>s1. announced s i err s1 \<and> steady s s1 \<and> wrote s1 (encode cmdFIN i []) (on_new_stream (e_rnd E) W a s))
      | None \<Rightarrow> (\<exists>s1. announced s i [] s1 \<and> streams s1 i = Some a \<and> healthy (e_rnd E) s1 \<and> session_inv s1
          \<and> on_new_stream (e_rnd E) W a s = fst (stream_Close (e_rnd E) (fst (copying W s1)) a)))"
proof -
  have i: "st_id st = i" using session_inv_registered [OF assms(1,3)] assms(4) by auto
  have new: "on_new_stream (e_rnd E) W a s = fst (stream_Close (e_rnd E) (fst (relay W s)) a)"
    by (simp add: on_new_stream_def split: prod.split)
  show ?thesis
  proof (cases "unreadable W")
    case True
    then have "fst (relay W s) = s" by (auto simp: relay_cases unreadable_def split: sum.split)
    with True new stream_Close_FIN [OF assms(1-3)] show ?thesis by simp
  next
    case False
    then obtain d where d: "destination W = Inr d" "\<not> (packet_relay W \<and> request W \<noteq> None)"
      by (cases "destination W") (auto simp: unreadable_def)
    obtain s1 where s1: "(case outbound_error W of None \<Rightarrow> HandshakeSuccess (e_rnd E) s a
        | Some m \<Rightarrow> HandshakeFailure (e_rnd E) s a (Some m)) = (s1, None)"
      "session_inv s1" "healthy (e_rnd E) s1" "steady s s1"
      "announced s i (case outbound_error W of None \<Rightarrow> [] | Some m \<Rightarrow> m) s1"
      using handshake_healthy [OF assms(1,2,4,5), of "outbound_error W"] unfolding i by blast
    have r: "streams s1 i = Some a" using s1(4) assms(3) by (simp add: steady_def)
    show ?thesis
    proof (cases "outbound_error W")
      case None
      then have "relay W s = copying W s1" using s1(1) d assms(6) by (auto simp: relay_cases reports_stream_def)
      with False None new s1 r show ?thesis by auto
    next
      case (Some err)
      then have "fst (relay W s) = s1" using s1(1) d assms(6) by (auto simp: relay_cases reports_stream_def)
      with False Some new s1 r stream_Close_FIN [OF s1(2,3) r] show ?thesis by auto
    qed
  qed
qed


definition sample_outside :: "env \<Rightarrow> nat \<Rightarrow> outside" where
  "sample_outside E a = \<lparr>destination = Inr ''192.0.2.1:80'', dialled = Some [1, 2], request = None, listened = None,
     reportFailure = (\<lambda>err s. HandshakeFailure (e_rnd E) s a (Some err)),
     reportSuccess = (\<lambda>s. HandshakeSuccess (e_rnd E) s a),
     copyConn = (\<lambda>s. (fst (stream_Write (e_rnd E) s a [7]), Panicked)), copyPackets = (\<lambda>s. (s, Returned []))\<rparr>"

lemma sample_outside_ok: "reports_stream E a (sample_outside E a)" "copies_by_ops E (sample_outside E a)"
  by (simp_all add: reports_stream_def copies_by_ops_def sample_outside_def)
    (meson op_stream_Write r_into_rtranclp)

theorem relay_closes_witness:
  "\<exists>st. objs (on_new_stream (e_rnd sample_env) (sample_outside sample_env 0\<lparr>dialled := None\<rparr>) 0 sample_open) 0 = Some st
    \<and> st_dieOnce st"
proof -
  let ?W = "sample_outside sample_env 0\<lparr>dialled := None\<rparr>"
  have "reports_stream sample_env 0 ?W" "copies_by_ops sample_env ?W"
    using sample_outside_ok by (simp_all add: reports_stream_def copies_by_ops_def)
  from relay_closes [OF sample_open_inv sample_open_fields(2) this] show ?thesis by blast
qed


text \<open>C4: A failed connection is the error of the client's stream: what the server sends about it, read by
  the client's receive loop whatever its state, leaves the client's stream dead with exactly the
  server's error text as its error, so that its reads and writes return it, and the client does not
  take it for the plain end that the FIN behind it announces. The text is not empty and shorter
  than 64 KiB.\<close>

theorem failure_reaches_client:
  assumes "session_inv s" and "healthy (e_rnd E) s" and "streams s i = Some a"
    and "objs s a = Some st" and "\<not> st_reportOnce st" and "reports_stream E a W"
    and "peerVersion s \<ge> 2" and "\<not> isClient s" and "\<not> buffering s" and "buffer s = []"
    and "\<not> unreadable W" and "outbound_error W = Some err" and "err \<noteq> []" and "length err < 2 ^ 16"
    and "session_inv c" and "\<not> die c" and "streams c i = Some a'"
  shows "\<exists>b st'. sent (conn (on_new_stream (e_rnd E) W a s)) = sent (conn s) @ b
    \<and> objs (fst (recvLoop F c b)) a' = Some st' \<and> st_dieErr st' = Some (RemoteError err)
    \<and> stream_Read st' (0, e) = (0, Some (RemoteError err))
    \<and> (\<not> st_writeExpired st' \<longrightarrow>
        stream_Write rnd (fst (recvLoop F c b)) a' d = (fst (recvLoop F c b), 0, Some (RemoteError err)))"
proof -
  let ?f = "(newFrame cmdSYNACK i)\<lparr>data := err\<rparr>" and ?g = "newFrame cmdFIN i"
  obtain s1 where s1: "announced s i err s1" "steady s s1"
    "wrote s1 (encode cmdFIN i []) (on_new_stream (e_rnd E) W a s)"
    using relay_outcome [OF assms(1-6)] assms(11,12) by auto
  have "\<not> sendPadding s" using assms(1,8) by (auto simp: session_inv_def inv_but_def status_ok_def)
  then have plain: "\<not> sendPadding s1" "\<not> buffering s1" using s1(2) assms(9) by (auto simp: steady_def)
  have "sent (conn s1) = sent (conn s) @ encode cmdSYNACK i err" "buffer s1 = []"
    using s1(1) assms(7,9,10) \<open>\<not> sendPadding s\<close> by (auto simp: announced_def wrote_def outflow_def)
  then have bytes: "sent (conn (on_new_stream (e_rnd E) W a s)) = sent (conn s) @ concat (map encode_frame [?f, ?g])"
    using s1(3) plain by (auto simp: wrote_def outflow_def encode_frame_def newFrame_def)
  have ok: "list_all frame_ok [?f, ?g]"
    using assms(14) by (simp add: frame_ok_def newFrame_def carries_data_def)
  let ?c = "synack_done c"
  have c: "session_inv ?c" "streams ?c i = Some a'" "die ?c = die c"
    using inv_synack_done [OF assms(15)] assms(17)
    by (simp_all add: synack_done_def call_synDone_def split: option.split)
  obtain sc where sc: "objs ?c a' = Some sc" "\<not> st_dieOnce sc"
    using session_inv_registered [OF c(1,2)] by blast
  let ?k = "kill (die ?c) (RemoteError err) sc"
  let ?t = "fst (closeWithError (e_rnd F) ?c a' (RemoteError err))"
  have t: "frozen a' ?k ?t" by (rule closeWithError_frozen [OF sc])
  have h1: "handle F (c, False) ?f = ((?t, False), Continue)"
    using assms(13,16) c(2)
    by (simp add: handle_def newFrame_def cmd_defs IsClosed_def when_data_def synack_data_def)
  have fin: "frozen a' ?k (on_FIN ?t i)"
    using t by (auto simp: frozen_def on_FIN_def upd_obj_def closeLocally_def split: option.split)
  have "frozen a' ?k (fst (recvLoop F c (concat (map encode_frame [?f, ?g]))))"
  proof (cases "IsClosed ?t")
    case True
    then have "handle F (?t, False) ?g = ((?t, False), Return (Some ErrClosedPipe))"
      by (simp add: handle_def newFrame_def)
    then show ?thesis
      unfolding recvLoop_def recv_iter_frames [OF ok] using h1 frozen_Close [OF t] by simp
  next
    case False
    then have "handle F (?t, False) ?g = ((on_FIN ?t i, False), Continue)"
      by (simp add: handle_def newFrame_def cmd_defs)
    then show ?thesis
      unfolding recvLoop_def recv_iter_frames [OF ok] using h1 frozen_Close [OF fin]
      by (simp add: recv_iter_end split: prod.split)
  qed
  with bytes show ?thesis
    by (intro exI [of _ "concat (map encode_frame [?f, ?g])"] exI [of _ ?k])
      (simp add: frozen_def kill_def stream_Read_def stream_Write_def)
qed

theorem failure_reaches_client_witness:
  "\<exists>b st'. sent (conn (on_new_stream (e_rnd sample_env) (sample_outside sample_env 0) 0
        (sample_open\<lparr>isClient := False, sendPadding := False\<rparr>))) = b
    \<and> objs (fst (recvLoop sample_env sample_open b)) 0 = Some st' \<and> st_dieErr st' = Some (RemoteError [1, 2])"
proof -
  let ?s = "sample_open\<lparr>isClient := False, sendPadding := False\<rparr>"
  have inv: "session_inv ?s" using sample_open_inv by (simp add: inv_parts)
  have h: "healthy (e_rnd sample_env) ?s" using sample_open_healthy by (simp add: sample_env_def healthy_def)
  have "\<not> contains ''udp-over-tcp.arpa'' ''192.0.2.1:80''" by code_simp
  then have w: "\<not> unreadable (sample_outside sample_env 0)" "outbound_error (sample_outside sample_env 0) = Some [1, 2]"
    by (simp_all add: unreadable_def outbound_error_def packet_relay_def sample_outside_def)
  have f: "streams ?s 1 = Some 0" "objs ?s 0 = Some (newStream 1)" "\<not> st_reportOnce (newStream 1)"
    "peerVersion ?s \<ge> 2" "\<not> isClient ?s" "\<not> buffering ?s" "buffer ?s = []" "sent (conn ?s) = []"
    by (simp_all add: sample_open_fields newStream_def sent_def sample_conn_def)
  from failure_reaches_client [OF inv h f(1,2,3) sample_outside_ok(1) f(4-7) w _ _ sample_open_inv
      sample_open_fields(10) sample_open_fields(1)] f(8)
  show ?thesis by fastforce
qed

end
