(* ===== verification/WireTyped.thy ===== *)
theory WireTyped
  imports EndToEnd
begin

text \<open>
  What a session puts on the wire in its whole life is a sequence of whole frames, of the commands of
  its role (the comments of \<^verbatim>\<open>proxy/session/frame.go\<close>), whatever operations and frames of
  the peer come in whatever order. A run here is one of \<open>Lifecycle\<close> in which only clients open
  streams and only servers report, on a connection whose writes do not fail while it is open, and a
  client pads with schemes that fit the length field.
\<close>

section \<open>Framed bytes\<close>

definition framed :: "byte set \<Rightarrow> bytes \<Rightarrow> bool" where
  "framed C b \<longleftrightarrow> (\<exists>fs. b = concat (map encode_frame fs) \<and> cmd ` set fs \<subseteq> C)"

lemma framed_Nil [simp]: "framed C []"
  unfolding framed_def by (rule exI [of _ "[]"]) simp

lemma framed_append: "framed C a \<Longrightarrow> framed C b \<Longrightarrow> framed C (a @ b)"
proof -
  assume "framed C a" "framed C b"
  then obtain fs gs where "a = concat (map encode_frame fs)" "cmd ` set fs \<subseteq> C"
    "b = concat (map encode_frame gs)" "cmd ` set gs \<subseteq> C"
    unfolding framed_def by blast
  then show ?thesis unfolding framed_def by (intro exI [of _ "fs @ gs"]) auto
qed

lemma framed_frame: "cmd f \<in> C \<Longrightarrow> framed C (encode_frame f)"
  unfolding framed_def by (rule exI [of _ "[f]"]) simp

lemma framed_waste: "waste_run w \<Longrightarrow> cmdWaste \<in> C \<Longrightarrow> framed C w"
proof -
  assume "waste_run w" and C: "cmdWaste \<in> C"
  then obtain ks where "w = concat (map (\<lambda>k. encode cmdWaste 0 (replicate k 0)) ks)"
    unfolding waste_run_def by blast
  then have "w = concat (map encode_frame (map waste ks))"
    by (simp add: encode_frame_waste comp_def)
  moreover have "cmd ` set (map waste ks) \<subseteq> C" using C by (auto simp: waste_def newFrame_def)
  ultimately show ?thesis unfolding framed_def by blast
qed

section \<open>Well-typed sessions\<close>

text \<open>The state in which writing keeps the wire framed.\<close>

definition wire_ok :: "byte set \<Rightarrow> session \<Rightarrow> bool" where
  "wire_ok C s \<longleftrightarrow> framed C (sent (conn s)) \<and> framed C (buffer s) \<and> c_fail (conn s) = (\<lambda>_. None)
     \<and> (sendPadding s \<longrightarrow> cmdWaste \<in> C \<and> scheme_bounded (padding s))"

lemma wire_ok_same:
  "conn s' = conn s \<Longrightarrow> buffer s' = buffer s \<Longrightarrow> sendPadding s' = sendPadding s \<Longrightarrow> padding s' = padding s \<Longrightarrow>
   wire_ok C s' = wire_ok C s"
  by (simp add: wire_ok_def)

lemma wire_ok_simps [simp]:
  "wire_ok C (s\<lparr>streams := m\<rparr>) = wire_ok C s" "wire_ok C (s\<lparr>objs := os\<rparr>) = wire_ok C s"
  "wire_ok C (s\<lparr>buffering := b\<rparr>) = wire_ok C s" "wire_ok C (s\<lparr>watchers := ws\<rparr>) = wire_ok C s"
  "wire_ok C (s\<lparr>synDone := y\<rparr>) = wire_ok C s" "wire_ok C (s\<lparr>peerVersion := v\<rparr>) = wire_ok C s"
  "wire_ok C (s\<lparr>alerts := al\<rparr>) = wire_ok C s" "wire_ok C (s\<lparr>nextObj := n\<rparr>) = wire_ok C s"
  "wire_ok C (s\<lparr>streamId := i\<rparr>) = wire_ok C s" "wire_ok C (s\<lparr>accepted := as\<rparr>) = wire_ok C s"
  "wire_ok C (upd_obj a f s) = wire_ok C s" "wire_ok C (set_deadline d s) = wire_ok C s"
  by (simp_all add: wire_ok_def upd_obj_def set_deadline_def sent_def)

lemma wire_ok_Close: "wire_ok C s \<Longrightarrow> wire_ok C (fst (Close s))"
  by (simp add: wire_ok_def Close_def conn_Close_def sent_def)

lemma writeConn_buffer:
  "writeConn rnd s b = (s', n, e) \<Longrightarrow> buffer s' = (if buffering s then buffer s @ b else [])"
  by (auto simp: writeConn_def write_raw_def Let_def split: if_splits prod.splits option.splits)

lemma wire_ok_writeConn:
  assumes ok: "wire_ok C s" and b: "framed C b" and r: "rand_ok rnd" and w: "writeConn rnd s b = (s', n, e)"
  shows "wire_ok C s'"
proof -
  note same = same_but_wire_fields [OF writeConn_same [OF w]]
  have fail: "c_fail (conn s') = (\<lambda>_. None)" using same(18) ok by (simp add: wire_ok_def)
  have pad: "sendPadding s' \<longrightarrow> cmdWaste \<in> C \<and> scheme_bounded (padding s')"
    using same(10,19) ok by (auto simp: wire_ok_def)
  have buf: "framed C (buffer s')"
    using writeConn_buffer [OF w] ok b by (auto simp: wire_ok_def intro: framed_append)
  have out: "framed C (sent (conn s'))"
  proof (cases "c_closed (conn s)")
    case True
    from writeConn_closed [OF True w] ok show ?thesis by (simp add: sent_def wire_ok_def)
  next
    case False
    with ok have nf: "no_failure (conn s)" by (simp add: no_failure_def wire_ok_def)
    show ?thesis
    proof (cases "sendPadding s")
      case True
      then have "healthy rnd s" using ok nf r by (simp add: healthy_def wire_ok_def)
      from writeConn_healthy [OF this w] obtain x where x: "waste_run x" "outflow s' = outflow s @ b @ x"
        "if buffering s then sent (conn s') = sent (conn s) else buffer s' = []"
        by (auto simp: wrote_def)
      have "framed C x" using framed_waste [OF x(1)] True ok by (simp add: wire_ok_def)
      with x ok b show ?thesis
        by (auto simp: outflow_def wire_ok_def intro!: framed_append split: if_splits)
    next
      case np: False
      show ?thesis
      proof (cases "buffering s")
        case True
        with w ok show ?thesis by (auto simp: writeConn_buffering wire_ok_def)
      next
        case False
        with w writeConn_plain [OF nf False np, of rnd b] ok b show ?thesis
          by (auto simp: wire_ok_def sent_def intro!: framed_append)
      qed
    qed
  qed
  from out buf fail pad show ?thesis by (simp add: wire_ok_def)
qed

text \<open>The operations keep the wire typed if the commands they send are of the set.\<close>

locale typed_writer =
  fixes C :: "byte set"
  assumes common: "{cmdPSH, cmdFIN, cmdHeartResponse} \<subseteq> C"
begin

lemma control: "rand_ok rnd \<Longrightarrow> cmd f \<in> C \<Longrightarrow> wire_ok C s \<Longrightarrow> wire_ok C (fst (writeControlFrame rnd s f))"
proof -
  assume random: "rand_ok rnd" and f: "cmd f \<in> C" and s: "wire_ok C s"
  obtain t n e where w: "writeConn rnd (set_deadline True s) (encode_frame f) = (t, n, e)"
    by (metis prod_cases3)
  have "wire_ok C t" using wire_ok_writeConn [OF _ framed_frame [OF f] random w] s by simp
  then show ?thesis using w wire_ok_Close [of C t] by (simp add: writeControlFrame_def split: option.split)
qed

lemma control': "writeControlFrame rnd s f = (s', n, e) \<Longrightarrow> rand_ok rnd \<Longrightarrow> cmd f \<in> C \<Longrightarrow> wire_ok C s \<Longrightarrow> wire_ok C s'"
  using control [of rnd f s] by simp

lemma stream_close: "rand_ok rnd \<Longrightarrow> wire_ok C s \<Longrightarrow> wire_ok C (fst (closeWithError rnd s a err))"
  using common
  by (auto simp: closeWithError_def streamClosed_def newFrame_def dest: control' split: option.split prod.split)

lemma data_frame: "rand_ok rnd \<Longrightarrow> wire_ok C s \<Longrightarrow> wire_ok C (fst (stream_Write rnd s a d))"
proof -
  assume random: "rand_ok rnd" and s: "wire_ok C s"
  have "encode cmdPSH i d = encode_frame (psh i d)" for i by (simp add: encode_frame_psh)
  then have "framed C (encode cmdPSH i d)" for i
    using common framed_frame [of "psh i d"] by (simp add: psh_def newFrame_def)
  then have "wire_ok C s'" if "writeConn rnd s (encode cmdPSH i d) = (s', n, e)" for s' n e i
    using wire_ok_writeConn [OF s _ random that] by blast
  then show ?thesis
    using s by (auto simp: stream_Write_def writeDataFrame_def split: option.split prod.split)
qed

lemma watcher: "wire_ok C s \<Longrightarrow> wire_ok C (watcher_timeout i s)"
  by (simp add: watcher_timeout_def wire_ok_Close)

lemma heart: "rand_ok (e_rnd E) \<Longrightarrow> wire_ok C s \<Longrightarrow> wire_ok C (fst (on_HeartRequest E s i))"
  using common control [of "e_rnd E" "newFrame cmdHeartResponse i" s]
  by (auto simp: on_HeartRequest_def newFrame_def split: prod.splits option.splits)

lemma synack: "rand_ok (e_rnd E) \<Longrightarrow> wire_ok C s \<Longrightarrow> wire_ok C (fst (synack_data E s i d))"
  by (simp add: synack_data_def stream_close split: option.split)

lemma payload:
  "wire_ok C s \<Longrightarrow> (\<And>d. wire_ok C (fst (k d))) \<Longrightarrow> wire_ok C (fst (with_payload s len inp k))"
  by (auto simp: with_payload_def split: sum.splits prod.splits) (metis fst_conv)

lemma no_settings:
  "rand_ok (e_rnd E) \<Longrightarrow> isClient s \<or> cmdAlert \<in> C \<Longrightarrow> wire_ok C s \<Longrightarrow> wire_ok C (fst (on_SYN E s got i))"
  using control [of "e_rnd E" "(newFrame cmdAlert 0)\<lparr>data := no_settings_alert\<rparr>" s]
  by (auto simp: on_SYN_def newFrame_def Let_def split: option.split)

lemma settings:
  assumes "rand_ok (e_rnd E)" and "isClient s \<or> {cmdUpdatePaddingScheme, cmdServerSettings} \<subseteq> C" and "wire_ok C s"
  shows "wire_ok C (fst (settings_data E s d))"
proof (cases "isClient s")
  case False
  with assms(2) have c: "cmdUpdatePaddingScheme \<in> C" "cmdServerSettings \<in> C" by simp_all
  have p: "wire_ok C (fst (settings_padding E s m))" for m
    using assms(1,3) c(1) control [of "e_rnd E" "(newFrame cmdUpdatePaddingScheme 0)\<lparr>data := RawScheme (padding s)\<rparr>" s]
    by (auto simp: settings_padding_def newFrame_def split: prod.split)
  have v: "wire_ok C (fst (settings_version E t m))" if "wire_ok C t" for t m
    using assms(1) that c(2)
      control [of "e_rnd E" "(newFrame cmdServerSettings 0)\<lparr>data := ToBytes [(''v'', ''2'')]\<rparr>" "t\<lparr>peerVersion := w\<rparr>" for w]
    by (auto simp: settings_version_def newFrame_def split: prod.split option.split) (metis fst_conv)
  have "wire_ok C (fst (settings_version E (fst (settings_padding E s m)) m))" for m by (rule v [OF p])
  with False p show ?thesis
    by (auto simp: settings_data_def Let_def split: prod.splits option.splits) (metis fst_conv)+
qed (simp add: settings_data_def assms(3))

lemma updated: "wire_ok C s \<Longrightarrow> (sendPadding s \<longrightarrow> scheme_bounded p) \<Longrightarrow> wire_ok C (s\<lparr>padding := p\<rparr>)"
  by (simp add: wire_ok_def)

lemma padding_update:
  assumes "wire_ok C s" and "with_payload s len inp (update_padding_data E s) = (s', rest, c)"
    and "sendPadding s' \<longrightarrow> scheme_bounded (padding s')"
  shows "wire_ok C s'"
  using assms by (auto simp: with_payload_def update_padding_data_def updated split: if_splits sum.splits)

text \<open>One frame of the peer, or one round of the loop.\<close>

lemma round:
  assumes "rand_ok (e_rnd E)" and "isClient s \<or> {cmdAlert, cmdUpdatePaddingScheme, cmdServerSettings} \<subseteq> C"
    and ok: "wire_ok C s" and "recv_step E s got inp = (s', rest, got', k)"
    and "sendPadding s' \<longrightarrow> scheme_bounded (padding s')"
  shows "wire_ok C s'"
proof -
  note p = payload [OF ok]
  have fst_eq: "wire_ok C a" if "wire_ok C (fst x)" "x = (a, b)" for x :: "session \<times> 'x" and a b using that by simp
  have ack: "wire_ok C (synack_done s)" using ok by (simp add: synack_done_def call_synDone_def split: option.split)
  have 1: "wire_ok C (fst (with_payload (synack_done s) n b (synack_data E (synack_done s) i)))" for n b i
    by (rule payload [OF ack]) (simp add: synack assms(1) ack)
  have 2: "wire_ok C (fst (with_payload s n b (psh_data s i)))" for n b i
    by (rule p) (simp add: psh_data_def ok split: option.split)
  have 3: "wire_ok C (fst (with_payload s n b (\<lambda>_. (s, Continue))))" for n b by (rule p) (simp add: ok)
  have 4: "wire_ok C (fst (with_payload s n b (settings_data E s)))" for n b
    by (rule p) (rule settings, use assms(1,2) ok in auto)
  have 5: "wire_ok C (fst (with_payload s n b (alert_data s)))" for n b by (rule p) (simp add: alert_data_def ok)
  have 6: "wire_ok C (fst (with_payload s n b (server_settings_data s)))" for n b
    by (rule p) (simp add: server_settings_data_def ok split: option.split)
  have 7: "wire_ok C (fst (on_SYN E s g i))" "wire_ok C (fst (on_HeartRequest E s i))" for g i
    using no_settings [OF assms(1) _ ok] heart [OF assms(1) ok] assms(2) by auto
  have 8: "wire_ok C (on_FIN s i)" for i using ok by (simp add: on_FIN_def split: option.split)
  note moves = fst_eq [OF 1] fst_eq [OF 2] fst_eq [OF 3] fst_eq [OF 4] fst_eq [OF 5] fst_eq [OF 6]
    fst_eq [OF 7(1)] fst_eq [OF 7(2)]
  have "wire_ok C s'" if "dispatch E s got c i len rest0 = (s', rest, got', k)" for c i len rest0
    using that assms(5) ok 8 padding_update [OF ok]
    unfolding dispatch_def Let_def
    by (auto split: if_splits prod.splits dest: moves)
  then show ?thesis
    using assms(4) ok unfolding recv_step_def by (auto split: if_splits sum.splits)
qed

end

section \<open>The two roles\<close>

definition client_cmds :: "byte set" where
  "client_cmds = {cmdSettings, cmdSYN, cmdPSH, cmdFIN, cmdWaste, cmdHeartResponse}"

definition server_cmds :: "byte set" where
  "server_cmds = {cmdPSH, cmdFIN, cmdAlert, cmdUpdatePaddingScheme, cmdSYNACK, cmdHeartResponse, cmdServerSettings}"

definition role_cmds :: "session \<Rightarrow> byte set" where
  "role_cmds s = (if isClient s then client_cmds else server_cmds)"

interpretation cli: typed_writer client_cmds
  by unfold_locales (simp add: client_cmds_def)

interpretation srv: typed_writer server_cmds
  by unfold_locales (simp add: server_cmds_def)

text \<open>The operations of a session in its role: clients open streams, servers report on them.\<close>

inductive role_op :: "env \<Rightarrow> session \<Rightarrow> session \<Rightarrow> bool" for E where
  ro_Close: "role_op E s (fst (Close s))"
| ro_OpenStream: "isClient s \<Longrightarrow> role_op E s (fst (OpenStream (e_rnd E) s))"
| ro_stream_Close: "role_op E s (fst (stream_Close (e_rnd E) s a))"
| ro_stream_Write: "role_op E s (fst (stream_Write (e_rnd E) s a b))"
| ro_HandshakeFailure: "\<not> isClient s \<Longrightarrow> role_op E s (fst (HandshakeFailure (e_rnd E) s a err))"
| ro_HandshakeSuccess: "\<not> isClient s \<Longrightarrow> role_op E s (fst (HandshakeSuccess (e_rnd E) s a))"
| ro_SetReadDeadline: "stream_SetReadDeadline t a s = Returns (s', e) \<Longrightarrow> role_op E s s'"
| ro_SetWriteDeadline: "stream_SetWriteDeadline t a s = Returns (s', e) \<Longrightarrow> role_op E s s'"
| ro_watcher: "role_op E s (watcher_timeout i s)"
| ro_accept: "a \<in> set (accepted s) \<Longrightarrow> role_op E s (accept_goroutine E s a)"

inductive role_run :: "env \<Rightarrow> life \<Rightarrow> bool" for E where
  run_client: "no_failure c \<Longrightarrow> c_out c = [] \<Longrightarrow> scheme_bounded p \<Longrightarrow> role_run E (client_start E order c p)"
| run_server: "no_failure c \<Longrightarrow> c_out c = [] \<Longrightarrow> role_run E (server_start c h p)"
| run_op: "role_run E l \<Longrightarrow> role_op E (sess l) s' \<Longrightarrow> role_run E (l\<lparr>sess := s'\<rparr>)"
| run_arrive: "role_run E l \<Longrightarrow> role_run E (l\<lparr>incoming := incoming l @ b\<rparr>)"
| run_recv: "role_run E l \<Longrightarrow> running l \<Longrightarrow>
    recv_step E (sess l) (gotSettings l) (incoming l) = (s', rest, got, Continue) \<Longrightarrow>
    (sendPadding s' \<longrightarrow> scheme_bounded (padding s')) \<Longrightarrow>
    role_run E (l\<lparr>sess := s', incoming := rest, gotSettings := got\<rparr>)"
| run_return: "role_run E l \<Longrightarrow> running l \<Longrightarrow>
    recv_step E (sess l) (gotSettings l) (incoming l) = (s', rest, got, Return e) \<Longrightarrow>
    (sendPadding s' \<longrightarrow> scheme_bounded (padding s')) \<Longrightarrow>
    role_run E (l\<lparr>sess := fst (Close s'), incoming := rest, gotSettings := got, running := False\<rparr>)"

lemma role_op_sess_op: "role_op E s s' \<Longrightarrow> sess_op E s s'"
  by (induction rule: role_op.induct) (auto intro: sess_op.intros)

lemma role_run_reachable: "role_run E l \<Longrightarrow> reachable E l"
proof (induction rule: role_run.induct)
  case (run_client c p order)
  then show ?case by (simp add: reach_client no_failure_def)
next
  case (run_server c h p)
  then show ?case by (simp add: reach_server no_failure_def)
qed (auto intro: reach_step life_step.intros role_op_sess_op)

lemma OpenStream_typed:
  assumes "rand_ok (e_rnd E)" and "wire_ok client_cmds s"
  shows "wire_ok client_cmds (fst (OpenStream (e_rnd E) s))"
proof -
  define i where "i = streamId s + 1"
  define s1 where "s1 = s\<lparr>streamId := i, nextObj := Suc (nextObj s),
    objs := (objs s)(nextObj s \<mapsto> newStream i)\<rparr>"
  define s2 where "s2 = (if i \<ge> 2 \<and> peerVersion s1 \<ge> 2 then NewDeadlineWatcher (call_synDone s1) else s1)"
  have "wire_ok client_cmds s1" using assms(2) unfolding s1_def by simp
  then have "wire_ok client_cmds s2"
    by (simp add: s2_def NewDeadlineWatcher_def call_synDone_def split: option.split)
  moreover obtain t n e where t: "writeControlFrame (e_rnd E) s2 (newFrame cmdSYN i) = (t, n, e)"
    by (metis prod_cases3)
  ultimately have "wire_ok client_cmds t"
    using cli.control' [OF t assms(1)] by (simp add: newFrame_def client_cmds_def)
  then show ?thesis
    using assms(2) t
    unfolding OpenStream_def Let_def i_def [symmetric] s1_def [symmetric] s2_def [symmetric]
    by (simp split: option.split)
qed

lemma report_typed:
  assumes "rand_ok (e_rnd E)" and "wire_ok server_cmds s"
  shows "wire_ok server_cmds (fst (HandshakeFailure (e_rnd E) s a err))"
    and "wire_ok server_cmds (fst (HandshakeSuccess (e_rnd E) s a))"
proof -
  have c: "wire_ok server_cmds t" if "writeControlFrame (e_rnd E) u f = (t, n, e)" "wire_ok server_cmds u" "cmd f = cmdSYNACK"
    for t u n e f
    using srv.control' [OF that(1) assms(1) _ that(2)] that(3) by (simp add: server_cmds_def)
  show "wire_ok server_cmds (fst (HandshakeFailure (e_rnd E) s a err))"
    "wire_ok server_cmds (fst (HandshakeSuccess (e_rnd E) s a))"
    using assms(2)
    by (auto simp: HandshakeFailure_def HandshakeSuccess_def Let_def newFrame_def
        split: prod.splits option.splits dest!: c)
qed

lemma role_op_typed:
  assumes "role_op E s s'" and "rand_ok (e_rnd E)" and "wire_ok (role_cmds s) s"
  shows "wire_ok (role_cmds s') s'"
proof -
  have role: "role_cmds s' = role_cmds s"
    using mild_sess_op [OF role_op_sess_op [OF assms(1)]] by (simp add: role_cmds_def mild_def)
  have close: "wire_ok (role_cmds s) (fst (closeWithError (e_rnd E) s a e))"
    and data: "wire_ok (role_cmds s) (fst (stream_Write (e_rnd E) s a b))" for a b e
    using assms(2,3) cli.stream_close srv.stream_close cli.data_frame srv.data_frame
    by (auto simp: role_cmds_def)
  have "wire_ok (role_cmds s) s'"
    using assms(1)
  proof cases
    case ro_OpenStream
    then show ?thesis using OpenStream_typed [OF assms(2)] assms(3) by (simp add: role_cmds_def)
  next
    case (ro_HandshakeFailure a err)
    then show ?thesis using report_typed(1) [OF assms(2)] assms(3) by (simp add: role_cmds_def)
  next
    case (ro_HandshakeSuccess a)
    then show ?thesis using report_typed(2) [OF assms(2)] assms(3) by (simp add: role_cmds_def)
  next
    case (ro_watcher i)
    then show ?thesis using cli.watcher srv.watcher assms(3) by (auto simp: role_cmds_def)
  next
    case (ro_SetReadDeadline t a e)
    then show ?thesis using deadline_setters(1) assms(3) by fastforce
  next
    case (ro_SetWriteDeadline t a e)
    then show ?thesis using deadline_setters(2) assms(3) by fastforce
  qed (use close data assms(3) in \<open>simp_all add: wire_ok_Close stream_Close_def accept_goroutine_def\<close>)
  with role show ?thesis by simp
qed

text \<open>No frame changes the role.\<close>

lemma payload_isClient:
  "(\<And>d. isClient (fst (k d)) = isClient s) \<Longrightarrow> with_payload s len inp k = (s', rest, c) \<Longrightarrow> isClient s' = isClient s"
  by (auto simp: with_payload_def split: if_splits sum.splits prod.splits) (metis fst_conv)+

lemma dispatch_isClient:
  assumes "dispatch E s got c i len inp = (s', rest, got', k)"
  shows "isClient s' = isClient s"
proof -
  have m: "isClient (fst x) = isClient s" if "mild s (fst x)" for x :: "session \<times> ctl"
    using that by (simp add: mild_def)
  have ack: "isClient (synack_done s) = isClient s"
    by (simp add: synack_done_def call_synDone_def split: option.split)
  have 1: "isClient (fst (psh_data s i d)) = isClient s" "isClient (fst (synack_data E (synack_done s) i d)) = isClient s"
    "isClient (fst (alert_data s d)) = isClient s" "isClient (fst (update_padding_data E s d)) = isClient s"
    "isClient (fst (on_HeartRequest E s i)) = isClient s" "isClient (on_FIN s i) = isClient s" for d
    using m mild_psh_data mild_synack mild_alert_data mild_update_padding_data mild_on_HeartRequest mild_on_FIN
    by (simp_all add: mild_def)
  have 2: "isClient (fst (server_settings_data s d)) = isClient s" "isClient (fst (on_SYN E s g i)) = isClient s" for d g
    by (auto simp: server_settings_data_def on_SYN_def isClient_writeControlFrame Let_def split: option.split)
  note p = payload_isClient [of _ s, rotated] payload_isClient [of _ "synack_done s", unfolded ack, rotated]
  show ?thesis
    using assms 1 2 settings_data_client
    by (auto simp: dispatch_def Let_def split: if_splits prod.splits dest!: p; metis fst_conv)
qed

lemma recv_step_isClient: "recv_step E s got inp = (s', rest, got', k) \<Longrightarrow> isClient s' = isClient s"
  by (auto simp: recv_step_def split: if_splits sum.splits prod.splits dest: dispatch_isClient)

lemma round_typed:
  assumes "recv_step E s got inp = (s', rest, got', k)" and "rand_ok (e_rnd E)" and "wire_ok (role_cmds s) s"
    and "sendPadding s' \<longrightarrow> scheme_bounded (padding s')" and "isClient s' = isClient s"
  shows "wire_ok (role_cmds s') s'"
proof (cases "isClient s")
  case True
  with cli.round [OF assms(2) _ _ assms(1,4)] assms(3,5) show ?thesis by (simp add: role_cmds_def)
next
  case False
  with srv.round [OF assms(2) _ _ assms(1,4)] assms(3,5) show ?thesis
    by (simp add: role_cmds_def) (simp add: server_cmds_def)
qed

lemma role_run_typed:
  assumes "role_run E l" and "rand_ok (e_rnd E)"
  shows "wire_ok (role_cmds (sess l)) (sess l)"
  using assms(1)
proof (induction rule: role_run.induct)
  case (run_client c p order)
  let ?s = "(NewClientSession c p)\<lparr>buffering := True\<rparr>"
    and ?f = "(newFrame cmdSettings 0)\<lparr>data := ToBytes (order (client_settings (NewClientSession c p)))\<rparr>"
  have "wire_ok client_cmds ?s"
    using run_client by (simp add: wire_ok_def NewClientSession_def sent_def no_failure_def client_cmds_def)
  from cli.control [OF assms(2) _ this, of ?f] show ?case
    by (simp add: client_start_def Run_client_def role_cmds_def isClient_writeControlFrame NewClientSession_def
        newFrame_def client_cmds_def)
next
  case (run_server c h p)
  then show ?case
    by (simp add: server_start_def role_cmds_def NewServerSession_def wire_ok_def sent_def no_failure_def)
next
  case (run_op l s')
  with role_op_typed [OF run_op(2) assms(2)] show ?case by simp
next
  case (run_arrive l b)
  then show ?case by simp
next
  case (run_recv l s' rest got)
  with round_typed [OF run_recv(3) assms(2)] recv_step_isClient [OF run_recv(3)] show ?case by simp
next
  case (run_return l s' rest got e)
  with round_typed [OF run_return(3) assms(2)] recv_step_isClient [OF run_return(3)]
    have "wire_ok (role_cmds s') s'" by simp
  moreover have "role_cmds (fst (Close s')) = role_cmds s'"
    using mild_Close [of s'] by (simp add: role_cmds_def mild_def)
  ultimately show ?case using wire_ok_Close by simp
qed

section \<open>Claims\<close>



end
