(* ===== verification/PipeRun.thy ===== *)
theory PipeRun
  imports Pipe Deadline
begin

text \<open>
  \<^verbatim>\<open>proxy/pipe/io_pipe.go\<close>, the blocking half: calls of \<open>read\<close> and \<open>write\<close> as processes
  that meet on the two unbuffered channels, beside closings and deadlines. A call is a number with
  a program counter; the records of data handed over are kept for the statements.
\<close>

section \<open>Programs\<close>

text \<open>A reader: not called, at its first select, between the selects, in the second one (on the
  deadline's channel of that moment), holding a writer's slice, returned. \<open>cap\<close> is the length of
  the buffer; the last argument of \<open>R_got\<close> is the writer.\<close>

datatype reader_pc =
    R_none
  | R_start nat
  | R_ready nat
  | R_select nat nat
  | R_got nat bytes nat
  | R_ret bytes "go_error option"

text \<open>A writer: not called, at its first select, waiting for the lock, at the top of the loop, in the
  select, waiting on \<open>rdCh\<close>, returned. It carries what is left and what it has counted.\<close>

datatype writer_pc =
    W_none
  | W_start bytes
  | W_lock bytes
  | W_ready bytes nat
  | W_select bytes nat nat
  | W_wait bytes nat nat
  | W_ret nat "go_error option"

record pipe_run =
  shared :: pipe
  readDeadline :: deadline
  writeDeadline :: deadline
  wrMu :: "nat option"
  reader :: "nat \<Rightarrow> reader_pc"
  writer :: "nat \<Rightarrow> writer_pc"
  given :: "nat \<Rightarrow> bytes"
  order :: "nat list"
  taken :: "(nat \<times> bytes) list"

definition new_run :: pipe_run where
  "new_run = \<lparr>shared = newPipe, readDeadline = MakePipeDeadline, writeDeadline = MakePipeDeadline,
     wrMu = None, reader = (\<lambda>_. R_none), writer = (\<lambda>_. W_none), given = (\<lambda>_. []), order = [],
     taken = []\<rparr>"

abbreviation set_reader :: "nat \<Rightarrow> reader_pc \<Rightarrow> pipe_run \<Rightarrow> pipe_run" where
  "set_reader r pc c \<equiv> c\<lparr>reader := (reader c)(r := pc)\<rparr>"

abbreviation set_writer :: "nat \<Rightarrow> writer_pc \<Rightarrow> pipe_run \<Rightarrow> pipe_run" where
  "set_writer w pc c \<equiv> c\<lparr>writer := (writer c)(w := pc)\<rparr>"

text \<open>What \<open>write\<close> does when the reader's count arrives: go on with the rest, or return and release
  the lock.\<close>

definition write_counted :: "nat \<Rightarrow> bytes \<Rightarrow> nat \<Rightarrow> nat \<Rightarrow> pipe_run \<Rightarrow> pipe_run" where
  "write_counted w b n nw c =
     (if drop nw b = [] then set_writer w (W_ret (n + nw) None) (c\<lparr>wrMu := None\<rparr>)
      else set_writer w (W_ready (drop nw b) (n + nw)) c)"

definition SetReadDeadline :: "set_time \<Rightarrow> pipe_run \<Rightarrow> (pipe_run \<times> go_error option) go" where
  "SetReadDeadline t c =
     (if p_done (shared c) then Returns (c, Some ErrClosedPipe)
      else (case deadline_Set t (readDeadline c) of
              Returns d \<Rightarrow> Returns (c\<lparr>readDeadline := d\<rparr>, None) | Blocks \<Rightarrow> Blocks | Panics \<Rightarrow> Panics))"

definition SetWriteDeadline :: "set_time \<Rightarrow> pipe_run \<Rightarrow> (pipe_run \<times> go_error option) go" where
  "SetWriteDeadline t c =
     (if p_done (shared c) then Returns (c, Some ErrClosedPipe)
      else (case deadline_Set t (writeDeadline c) of
              Returns d \<Rightarrow> Returns (c\<lparr>writeDeadline := d\<rparr>, None) | Blocks \<Rightarrow> Blocks | Panics \<Rightarrow> Panics))"

section \<open>Steps\<close>

inductive read_step :: "pipe_run \<Rightarrow> pipe_run \<Rightarrow> bool" where
  closed1: "reader c r = R_start cap \<Longrightarrow> p_done (shared c) \<Longrightarrow>
    read_step c (set_reader r (R_ret [] (Some (readCloseError (shared c)))) c)"
| late1: "reader c r = R_start cap \<Longrightarrow> expired_now (readDeadline c) \<Longrightarrow>
    read_step c (set_reader r (R_ret [] (Some ErrDeadlineExceeded)) c)"
| pass: "reader c r = R_start cap \<Longrightarrow> \<not> p_done (shared c) \<Longrightarrow> \<not> expired_now (readDeadline c) \<Longrightarrow>
    read_step c (set_reader r (R_ready cap) c)"
| select: "reader c r = R_ready cap \<Longrightarrow>
    read_step c (set_reader r (R_select cap (deadline_Wait (readDeadline c))) c)"
| closed2: "reader c r = R_select cap ch \<Longrightarrow> p_done (shared c) \<Longrightarrow>
    read_step c (set_reader r (R_ret [] (Some (readCloseError (shared c)))) c)"
| late2: "reader c r = R_select cap ch \<Longrightarrow> isClosedChan ch (readDeadline c) \<Longrightarrow>
    read_step c (set_reader r (R_ret [] (Some ErrDeadlineExceeded)) c)"

inductive write_step :: "pipe_run \<Rightarrow> pipe_run \<Rightarrow> bool" where
  closed1: "writer c w = W_start b \<Longrightarrow> p_done (shared c) \<Longrightarrow>
    write_step c (set_writer w (W_ret 0 (Some (writeCloseError (shared c)))) c)"
| late1: "writer c w = W_start b \<Longrightarrow> expired_now (writeDeadline c) \<Longrightarrow>
    write_step c (set_writer w (W_ret 0 (Some ErrDeadlineExceeded)) c)"
| pass: "writer c w = W_start b \<Longrightarrow> \<not> p_done (shared c) \<Longrightarrow> \<not> expired_now (writeDeadline c) \<Longrightarrow>
    write_step c (set_writer w (W_lock b) c)"
| lock: "writer c w = W_lock b \<Longrightarrow> wrMu c = None \<Longrightarrow>
    write_step c (set_writer w (W_ready b 0) (c\<lparr>wrMu := Some w, order := order c @ [w]\<rparr>))"
| select: "writer c w = W_ready b n \<Longrightarrow>
    write_step c (set_writer w (W_select b n (deadline_Wait (writeDeadline c))) c)"
| closed2: "writer c w = W_select b n ch \<Longrightarrow> p_done (shared c) \<Longrightarrow>
    write_step c (set_writer w (W_ret n (Some (writeCloseError (shared c)))) (c\<lparr>wrMu := None\<rparr>))"
| late2: "writer c w = W_select b n ch \<Longrightarrow> isClosedChan ch (writeDeadline c) \<Longrightarrow>
    write_step c (set_writer w (W_ret n (Some ErrDeadlineExceeded)) (c\<lparr>wrMu := None\<rparr>))"

text \<open>The two meetings: on \<open>wrCh\<close> the slice changes hands, on \<open>rdCh\<close> the reader, having copied what
  fits, says how much and returns.\<close>

inductive meet_step :: "pipe_run \<Rightarrow> pipe_run \<Rightarrow> bool" where
  on_wrCh: "writer c w = W_select b n ch \<Longrightarrow> reader c r = R_select cap ch' \<Longrightarrow>
    meet_step c (set_reader r (R_got cap b w) (set_writer w (W_wait b n r) c))"
| on_rdCh: "reader c r = R_got cap bw w' \<Longrightarrow> writer c w = W_wait b n r' \<Longrightarrow> nr = min cap (length bw) \<Longrightarrow>
    meet_step c (set_reader r (R_ret (take nr bw) None) (write_counted w b n nr
      (c\<lparr>shared := (shared c)\<lparr>p_delivered := p_delivered (shared c) @ take nr bw\<rparr>,
         taken := taken c @ [(r, take nr bw)]\<rparr>)))"

inductive pipe_step :: "pipe_run \<Rightarrow> pipe_run \<Rightarrow> bool" where
  new_read: "reader c r = R_none \<Longrightarrow> pipe_step c (set_reader r (R_start cap) c)"
| new_write: "writer c w = W_none \<Longrightarrow>
    pipe_step c (set_writer w (W_start b) (c\<lparr>given := (given c)(w := b)\<rparr>))"
| reading: "read_step c c' \<Longrightarrow> pipe_step c c'"
| writing: "write_step c c' \<Longrightarrow> pipe_step c c'"
| meeting: "meet_step c c' \<Longrightarrow> pipe_step c c'"
| close_read: "pipe_step c (c\<lparr>shared := PipeReader_CloseWithError e (shared c)\<rparr>)"
| close_write: "pipe_step c (c\<lparr>shared := PipeWriter_CloseWithError e (shared c)\<rparr>)"
| set_read: "SetReadDeadline t c = Returns (c', e) \<Longrightarrow> pipe_step c c'"
| set_write: "SetWriteDeadline t c = Returns (c', e) \<Longrightarrow> pipe_step c c'"
| read_timer: "deadline_step (readDeadline c) d \<Longrightarrow> pipe_step c (c\<lparr>readDeadline := d\<rparr>)"
| write_timer: "deadline_step (writeDeadline c) d \<Longrightarrow> pipe_step c (c\<lparr>writeDeadline := d\<rparr>)"

inductive pipe_reach :: "pipe_run \<Rightarrow> bool" where
  start: "pipe_reach new_run"
| step: "pipe_reach c \<Longrightarrow> pipe_step c c' \<Longrightarrow> pipe_reach c'"

inductive_cases read_stepE: "read_step c c'"
inductive_cases write_stepE: "write_step c c'"
inductive_cases meet_stepE: "meet_step c c'"
inductive_cases pipe_stepE: "pipe_step c c'"

section \<open>Invariants\<close>

text \<open>What a writer has handed over, what it has left, and whether it is inside the lock.\<close>

fun counted_by :: "writer_pc \<Rightarrow> nat" where
  "counted_by (W_ready b n) = n"
| "counted_by (W_select b n ch) = n"
| "counted_by (W_wait b n r) = n"
| "counted_by (W_ret n e) = n"
| "counted_by pc = 0"

fun inside :: "writer_pc \<Rightarrow> bool" where
  "inside (W_ready b n) = True"
| "inside (W_select b n ch) = True"
| "inside (W_wait b n r) = True"
| "inside pc = False"

fun before_lock :: "writer_pc \<Rightarrow> bool" where
  "before_lock W_none = True"
| "before_lock (W_start b) = True"
| "before_lock (W_lock b) = True"
| "before_lock pc = False"

fun writer_fits :: "bytes \<Rightarrow> writer_pc \<Rightarrow> bool" where
  "writer_fits g W_none = True"
| "writer_fits g (W_start b) = (b = g)"
| "writer_fits g (W_lock b) = (b = g)"
| "writer_fits g (W_ready b n) = (b = drop n g \<and> n \<le> length g)"
| "writer_fits g (W_select b n ch) = (b = drop n g \<and> n \<le> length g)"
| "writer_fits g (W_wait b n r) = (b = drop n g \<and> n \<le> length g)"
| "writer_fits g (W_ret n e) = (n \<le> length g \<and> (e = None \<longrightarrow> n = length g))"

definition sent_by :: "(nat \<Rightarrow> writer_pc) \<Rightarrow> (nat \<Rightarrow> bytes) \<Rightarrow> nat \<Rightarrow> bytes" where
  "sent_by ws g w = take (counted_by (ws w)) (g w)"

definition lock_inv :: "pipe_run \<Rightarrow> bool" where
  "lock_inv c \<longleftrightarrow> (\<forall>w. inside (writer c w) \<longleftrightarrow> wrMu c = Some w)"

definition meet_inv :: "pipe_run \<Rightarrow> bool" where
  "meet_inv c \<longleftrightarrow> (\<forall>r cap b w. reader c r = R_got cap b w \<longrightarrow> (\<exists>n. writer c w = W_wait b n r))
     \<and> (\<forall>w b n r. writer c w = W_wait b n r \<longrightarrow> (\<exists>cap. reader c r = R_got cap b w))"

definition order_inv :: "pipe_run \<Rightarrow> bool" where
  "order_inv c \<longleftrightarrow> distinct (order c) \<and> (\<forall>w \<in> set (order c). \<not> before_lock (writer c w))
     \<and> (\<forall>w. wrMu c = Some w \<longrightarrow> order c \<noteq> [] \<and> last (order c) = w)"

definition data_inv :: "pipe_run \<Rightarrow> bool" where
  "data_inv c \<longleftrightarrow> (\<forall>w. writer_fits (given c w) (writer c w))"

definition fifo_inv :: "pipe_run \<Rightarrow> bool" where
  "fifo_inv c \<longleftrightarrow> p_delivered (shared c) = concat (map (sent_by (writer c) (given c)) (order c))
     \<and> p_delivered (shared c) = concat (map snd (taken c))
     \<and> (\<forall>w. w \<notin> set (order c) \<longrightarrow> sent_by (writer c) (given c) w = [])
     \<and> (\<forall>r d. reader c r = R_ret d None \<longrightarrow> (r, d) \<in> set (taken c))
     \<and> (\<forall>r d e. reader c r = R_ret d (Some e) \<longrightarrow> d = [])"

definition run_inv :: "pipe_run \<Rightarrow> bool" where
  "run_inv c \<longleftrightarrow> lock_inv c \<and> meet_inv c \<and> order_inv c \<and> data_inv c \<and> fifo_inv c"

lemma new_run_inv: "run_inv new_run"
  by (simp add: run_inv_def lock_inv_def meet_inv_def order_inv_def data_inv_def fifo_inv_def
      new_run_def newPipe_def sent_by_def)

text \<open>Steps that touch only the deadlines and the closing.\<close>

lemma run_inv_frame:
  assumes "run_inv c" and "reader c' = reader c" and "writer c' = writer c" and "given c' = given c"
    and "order c' = order c" and "taken c' = taken c" and "wrMu c' = wrMu c"
    and "p_delivered (shared c') = p_delivered (shared c)"
  shows "run_inv c'"
  using assms(1) unfolding run_inv_def lock_inv_def meet_inv_def order_inv_def data_inv_def fifo_inv_def
    assms(2-8) .

fun plain_reader :: "reader_pc \<Rightarrow> bool" where
  "plain_reader (R_got cap b w) = False"
| "plain_reader (R_ret d e) = (e \<noteq> None \<and> d = [])"
| "plain_reader pc = True"

lemma reader_inv:
  assumes "run_inv c" and "plain_reader pc" and "\<And>cap b w. reader c r \<noteq> R_got cap b w"
  shows "run_inv (set_reader r pc c)"
proof -
  have "meet_inv (set_reader r pc c)"
    using assms unfolding run_inv_def meet_inv_def
    by (cases pc) (simp_all, (metis)+)
  moreover have "fifo_inv (set_reader r pc c)"
    using assms(1,2) by (cases pc) (auto simp: run_inv_def fifo_inv_def)
  ultimately show ?thesis
    using assms(1) by (simp add: run_inv_def lock_inv_def order_inv_def data_inv_def)
qed

lemma read_inv: "run_inv c \<Longrightarrow> read_step c c' \<Longrightarrow> run_inv c'"
  by (elim read_stepE) (simp_all add: reader_inv)

lemma sent_by_upd:
  "w \<notin> set ws \<Longrightarrow> map (sent_by (wr(w := pc)) (g(w := b))) ws = map (sent_by wr g) ws"
  by (auto simp: sent_by_def)

lemma sent_by_upd_same:
  "w \<notin> set ws \<Longrightarrow> map (sent_by (wr(w := pc)) g) ws = map (sent_by wr g) ws"
  by (auto simp: sent_by_def)

lemma before_lock_outside: "before_lock pc \<Longrightarrow> \<not> inside pc \<and> counted_by pc = 0 \<and> (\<forall>b n r. pc \<noteq> W_wait b n r)"
  by (cases pc) auto

lemma writer_outside:
  assumes "run_inv c" and "before_lock (writer c w)" and "writer_fits b pc"
    and "before_lock pc \<or> (\<exists>e. pc = W_ret 0 e)"
  shows "run_inv (set_writer w pc (c\<lparr>given := (given c)(w := b)\<rparr>))"
proof -
  have new: "\<not> inside pc" "counted_by pc = 0" "\<And>b n r. pc \<noteq> W_wait b n r"
    using assms(4) before_lock_outside by auto
  have old: "\<not> inside (writer c w)" "\<And>b n r. writer c w \<noteq> W_wait b n r"
    using before_lock_outside [OF assms(2)] by auto
  have w: "w \<notin> set (order c)" using assms(1,2) by (auto simp: run_inv_def order_inv_def)
  let ?c = "set_writer w pc (c\<lparr>given := (given c)(w := b)\<rparr>)"
  have "lock_inv ?c" using assms(1) old(1) new(1) by (auto simp: run_inv_def lock_inv_def)
  moreover have "meet_inv ?c"
    using assms(1) old(2) new(3) unfolding run_inv_def meet_inv_def by simp metis
  moreover have "order_inv ?c" using assms(1) w by (auto simp: run_inv_def order_inv_def)
  moreover have "data_inv ?c" using assms(1,3) by (auto simp: run_inv_def data_inv_def)
  moreover have "fifo_inv ?c"
    using assms(1) w new(2) by (auto simp: run_inv_def fifo_inv_def sent_by_upd) (auto simp: sent_by_def)
  ultimately show ?thesis by (simp add: run_inv_def)
qed

text \<open>A writer inside the lock that is not waiting for a count moves, keeping its own.\<close>

lemma writer_inside:
  assumes "run_inv c" and "writer c w = W_ready b n \<or> (\<exists>ch. writer c w = W_select b n ch)"
    and "pc = W_select b n ch"
  shows "run_inv (set_writer w pc c)"
proof -
  let ?c = "set_writer w pc c"
  have old: "inside (writer c w)" "counted_by (writer c w) = n" "\<not> before_lock (writer c w)"
    "\<And>b n r. writer c w \<noteq> W_wait b n r"
    using assms(2) by auto
  have "lock_inv ?c" using assms(1,3) old(1) by (auto simp: run_inv_def lock_inv_def)
  moreover have "meet_inv ?c"
    using assms(1,3) old(4) unfolding run_inv_def meet_inv_def by simp metis
  moreover have "order_inv ?c" using assms(1,3) by (auto simp: run_inv_def order_inv_def)
  moreover have "data_inv ?c"
    using assms(1-3) unfolding run_inv_def data_inv_def by (auto dest: spec [of _ w])
  moreover have "sent_by (writer ?c) (given c) = sent_by (writer c) (given c)"
    using old(2) assms(3) by (auto simp: sent_by_def)
  then have "fifo_inv ?c" using assms(1) by (auto simp: run_inv_def fifo_inv_def)
  ultimately show ?thesis by (simp add: run_inv_def)
qed

lemma writer_leaves:
  assumes "run_inv c" and "writer c w = W_select b n ch"
  shows "run_inv (set_writer w (W_ret n (Some e)) (c\<lparr>wrMu := None\<rparr>))"
proof -
  let ?c = "set_writer w (W_ret n (Some e)) (c\<lparr>wrMu := None\<rparr>)"
  have mu: "wrMu c = Some w" using assms by (metis run_inv_def lock_inv_def inside.simps(2))
  have "lock_inv ?c" using assms(1) mu by (auto simp: run_inv_def lock_inv_def)
  moreover have "meet_inv ?c"
    using assms unfolding run_inv_def meet_inv_def by simp (metis writer_pc.distinct)
  moreover have "order_inv ?c" using assms(1) by (auto simp: run_inv_def order_inv_def)
  moreover have "data_inv ?c"
    using assms unfolding run_inv_def data_inv_def by (auto dest: spec [of _ w])
  moreover have "sent_by (writer ?c) (given c) = sent_by (writer c) (given c)"
    using assms(2) by (auto simp: sent_by_def)
  then have "fifo_inv ?c" using assms(1) by (auto simp: run_inv_def fifo_inv_def)
  ultimately show ?thesis by (simp add: run_inv_def)
qed

lemma writer_locks:
  assumes "run_inv c" and "writer c w = W_lock b" and "wrMu c = None"
  shows "run_inv (set_writer w (W_ready b 0) (c\<lparr>wrMu := Some w, order := order c @ [w]\<rparr>))"
proof -
  let ?c = "set_writer w (W_ready b 0) (c\<lparr>wrMu := Some w, order := order c @ [w]\<rparr>)"
  have w: "w \<notin> set (order c)" using assms(1,2) by (auto simp: run_inv_def order_inv_def)
  have "lock_inv ?c" using assms(1,3) by (auto simp: run_inv_def lock_inv_def)
  moreover have "meet_inv ?c"
    using assms unfolding run_inv_def meet_inv_def by simp (metis writer_pc.distinct)
  moreover have "order_inv ?c" using assms(1) w by (auto simp: run_inv_def order_inv_def)
  moreover have "data_inv ?c"
    using assms unfolding run_inv_def data_inv_def by (auto dest: spec [of _ w])
  moreover have "fifo_inv ?c"
    using assms(1) w by (auto simp: run_inv_def fifo_inv_def sent_by_upd_same) (auto simp: sent_by_def)
  ultimately show ?thesis by (simp add: run_inv_def)
qed

lemma write_inv:
  assumes inv: "run_inv c" and "write_step c c'"
  shows "run_inv c'"
  using assms(2)
proof (cases rule: write_step.cases)
  case (closed1 w b)
  with writer_outside [OF inv, of w "given c w" "W_ret 0 (Some (writeCloseError (shared c)))"]
  show ?thesis by simp
next
  case (late1 w b)
  with writer_outside [OF inv, of w "given c w" "W_ret 0 (Some ErrDeadlineExceeded)"]
  show ?thesis by simp
next
  case (pass w b)
  have "writer_fits (given c w) (writer c w)" using inv by (simp add: run_inv_def data_inv_def)
  with pass writer_outside [OF inv, of w "given c w" "W_lock b"] show ?thesis by simp
next
  case (lock w b)
  with writer_locks [OF inv] show ?thesis by simp
next
  case (select w b n)
  with writer_inside [OF inv, of w b n] show ?thesis by simp
next
  case (closed2 w b n ch)
  with writer_leaves [OF inv] show ?thesis by simp
next
  case (late2 w b n ch)
  with writer_leaves [OF inv] show ?thesis by simp
qed

lemma meet_wrCh:
  assumes "run_inv c" and "writer c w = W_select b n ch" and "reader c r = R_select cap ch'"
  shows "run_inv (set_reader r (R_got cap b w) (set_writer w (W_wait b n r) c))"
proof -
  let ?c = "set_reader r (R_got cap b w) (set_writer w (W_wait b n r) c)"
  have "wrMu c = Some w" using assms(1,2) by (metis run_inv_def lock_inv_def inside.simps(2))
  then have "lock_inv ?c" using assms(1) by (auto simp: run_inv_def lock_inv_def)
  moreover have "meet_inv ?c"
    using assms unfolding run_inv_def meet_inv_def
    by simp (metis reader_pc.distinct reader_pc.inject writer_pc.distinct)
  moreover have "order_inv ?c" using assms(1) by (auto simp: run_inv_def order_inv_def)
  moreover have "data_inv ?c"
    using assms unfolding run_inv_def data_inv_def by (auto dest: spec [of _ w])
  moreover have "sent_by (writer ?c) (given c) = sent_by (writer c) (given c)"
    using assms(2) by (auto simp: sent_by_def)
  then have "fifo_inv ?c" using assms(1) by (auto simp: run_inv_def fifo_inv_def)
  ultimately show ?thesis by (simp add: run_inv_def)
qed

text \<open>On \<open>rdCh\<close> the two are partners, and the writer is the last to have locked.\<close>

lemma meet_rdCh:
  assumes "run_inv c" and "reader c r = R_got cap bw w'" and "writer c w = W_wait b n r'"
    and nr: "nr = min cap (length bw)"
  shows "run_inv (set_reader r (R_ret (take nr bw) None) (write_counted w b n nr
      (c\<lparr>shared := (shared c)\<lparr>p_delivered := p_delivered (shared c) @ take nr bw\<rparr>,
         taken := taken c @ [(r, take nr bw)]\<rparr>)))" (is "run_inv ?c")
proof -
  have mu: "wrMu c = Some w" using assms(1,3) by (metis run_inv_def lock_inv_def inside.simps(3))
  obtain n' where "writer c w' = W_wait bw n' r" using assms(1,2) unfolding run_inv_def meet_inv_def by blast
  moreover from this have "w' = w" using assms(1) mu by (metis run_inv_def lock_inv_def inside.simps(3) option.inject)
  ultimately have partners: "w' = w" "bw = b" "r' = r" using assms(3) by auto
  have fits: "b = drop n (given c w)" "n \<le> length (given c w)"
    using assms(1,3) by (auto simp: run_inv_def data_inv_def dest: spec [of _ w])
  have b: "nr \<le> length b" using nr partners by simp
  define pc where "pc = (if drop nr b = [] then W_ret (n + nr) None else W_ready (drop nr b) (n + nr))"
  have wr: "writer ?c = (writer c)(w := pc)" "given ?c = given c" "order ?c = order c"
    "wrMu ?c = (if drop nr b = [] then None else Some w)"
    "reader ?c = (reader c)(r := R_ret (take nr b) None)"
    "taken ?c = taken c @ [(r, take nr b)]"
    "p_delivered (shared ?c) = p_delivered (shared c) @ take nr b"
    using partners mu by (auto simp: write_counted_def pc_def)
  have pc: "\<not> before_lock pc" "counted_by pc = n + nr" "inside pc \<longleftrightarrow> drop nr b \<noteq> []"
    "\<And>b n r. pc \<noteq> W_wait b n r" "writer_fits (given c w) pc"
    using fits b by (auto simp: pc_def drop_eq_Nil add.commute)
  have "lock_inv ?c"
    using assms(1) mu pc(3) unfolding lock_inv_def wr by (auto simp: run_inv_def lock_inv_def)
  moreover have "meet_inv ?c"
    using assms(1) assms(2,3) partners pc(4) unfolding meet_inv_def wr run_inv_def
    by simp (metis reader_pc.inject(4) reader_pc.distinct writer_pc.inject)
  moreover have "order_inv ?c"
    using assms(1) pc(1) mu unfolding order_inv_def wr by (auto simp: run_inv_def order_inv_def split: if_splits)
  moreover have "data_inv ?c"
    using assms(1) pc(5) unfolding data_inv_def wr by (auto simp: run_inv_def data_inv_def)
  moreover have "fifo_inv ?c"
  proof -
    obtain ws where ws: "order c = ws @ [w]" "w \<notin> set ws"
      using assms(1) mu unfolding run_inv_def order_inv_def
      by (metis append_butlast_last_id distinct.simps(2) distinct1_rotate rotate1.simps(2))
    have "sent_by ((writer c)(w := pc)) (given c) w = sent_by (writer c) (given c) w @ take nr b"
      using assms(3) fits by (simp add: sent_by_def pc(2) take_add)
    then have "concat (map (sent_by ((writer c)(w := pc)) (given c)) (order c))
        = concat (map (sent_by (writer c) (given c)) (order c)) @ take nr b"
      using ws by (simp add: sent_by_upd_same)
    moreover have "sent_by ((writer c)(w := pc)) (given c) v = sent_by (writer c) (given c) v"
      if "v \<notin> set (order c)" for v
      using that ws by (auto simp: sent_by_def)
    ultimately show ?thesis
      using assms(1) unfolding fifo_inv_def wr by (auto simp: run_inv_def fifo_inv_def)
  qed
  ultimately show ?thesis by (simp add: run_inv_def)
qed

lemma pipe_step_inv:
  assumes inv: "run_inv c" and "pipe_step c c'"
  shows "run_inv c'"
  using assms(2)
proof (cases rule: pipe_step.cases)
  case (new_read r cap)
  with reader_inv [OF inv, of "R_start cap" r] show ?thesis by simp
next
  case (new_write w b)
  with writer_outside [OF inv, of w b "W_start b"] show ?thesis by simp
next
  case meeting
  then show ?thesis
    by (cases rule: meet_step.cases) (use inv meet_wrCh meet_rdCh in \<open>simp_all\<close>)
next
  case (set_read t e)
  with inv show ?thesis
    by (intro run_inv_frame [OF inv]) (auto simp: SetReadDeadline_def split: if_splits go.splits)
next
  case (set_write t e)
  with inv show ?thesis
    by (intro run_inv_frame [OF inv]) (auto simp: SetWriteDeadline_def split: if_splits go.splits)
qed (use read_inv [OF inv] write_inv [OF inv] in
      \<open>auto intro!: run_inv_frame [OF inv] simp: closeWrite_def\<close>)

lemma pipe_reach_inv: "pipe_reach c \<Longrightarrow> run_inv c"
  by (induction rule: pipe_reach.induct) (auto intro: new_run_inv pipe_step_inv)


section \<open>Claims\<close>

text \<open>C6: The pipe is first in, first out, whatever calls run at once and whenever it is closed or a
  deadline passes: what the readers have got, in the order they got it, is what the writers have
  handed over, one write after the other in the order they took the lock; a write has handed over
  exactly the bytes it counts, all of them if it returns without an error; a read returns either
  data that was handed to it or an error and nothing.\<close>

theorem pipe_fifo:
  assumes "pipe_reach c"
  shows "concat (map snd (taken c)) =
      concat (map (\<lambda>w. take (counted_by (writer c w)) (given c w)) (order c))
    \<and> distinct (order c)
    \<and> (\<forall>w n e. writer c w = W_ret n e \<longrightarrow>
         n \<le> length (given c w) \<and> (e = None \<longrightarrow> n = length (given c w)))
    \<and> (\<forall>r d e. reader c r = R_ret d e \<longrightarrow> (if e = None then (r, d) \<in> set (taken c) else d = []))"
proof -
  have inv: "run_inv c" using assms by (rule pipe_reach_inv)
  then have "concat (map snd (taken c)) = concat (map (sent_by (writer c) (given c)) (order c))"
    by (auto simp: run_inv_def fifo_inv_def)
  moreover have "sent_by (writer c) (given c) = (\<lambda>w. take (counted_by (writer c w)) (given c w))"
    by (simp add: sent_by_def fun_eq_iff)
  moreover have "writer_fits (given c w) (writer c w)" for w
    using inv by (simp add: run_inv_def data_inv_def)
  then have "writer c w = W_ret n e \<longrightarrow> n \<le> length (given c w) \<and> (e = None \<longrightarrow> n = length (given c w))"
    for w n e
    by (metis writer_fits.simps(7))
  moreover have "reader c r = R_ret d e \<longrightarrow> (if e = None then (r, d) \<in> set (taken c) else d = [])" for r d e
    using inv unfolding run_inv_def fifo_inv_def by (cases e) (simp_all, blast+)
  moreover have "distinct (order c)" using inv by (simp add: run_inv_def order_inv_def)
  ultimately show ?thesis by simp
qed

text \<open>A writer of three bytes and a reader with room for two, at their program counters.\<close>

definition sample_at :: "nat option \<Rightarrow> nat list \<Rightarrow> reader_pc \<Rightarrow> writer_pc \<Rightarrow> pipe_run" where
  "sample_at mu ord rpc wpc = new_run\<lparr>wrMu := mu, reader := (\<lambda>_. R_none)(0 := rpc),
     writer := (\<lambda>_. W_none)(0 := wpc), given := (\<lambda>_. [])(0 := [1, 2, 3]), order := ord\<rparr>"

definition sample_meeting :: pipe_run where
  "sample_meeting = (sample_at (Some 0) [0] (R_ret [1, 2] None) (W_ready [3] 2))
     \<lparr>shared := newPipe\<lparr>p_delivered := [1, 2]\<rparr>, taken := [(0, [1, 2])]\<rparr>"

lemma sample_at_fields:
  "reader (sample_at mu ord rpc wpc) 0 = rpc" "writer (sample_at mu ord rpc wpc) 0 = wpc"
  "wrMu (sample_at mu ord rpc wpc) = mu" "order (sample_at mu ord rpc wpc) = ord"
  "\<not> p_done (shared (sample_at mu ord rpc wpc))"
  "\<not> expired_now (readDeadline (sample_at mu ord rpc wpc))"
  "\<not> expired_now (writeDeadline (sample_at mu ord rpc wpc))"
  "deadline_Wait (readDeadline (sample_at mu ord rpc wpc)) = 0"
  "deadline_Wait (writeDeadline (sample_at mu ord rpc wpc)) = 0"
  by (simp_all add: sample_at_def new_run_def newPipe_def expired_now_def isClosedChan_def
      MakePipeDeadline_def deadline_Wait_def)

lemma sample_at_moves:
  "set_reader 0 rpc' (sample_at mu ord rpc wpc) = sample_at mu ord rpc' wpc"
  "set_writer 0 wpc' (sample_at mu ord rpc wpc) = sample_at mu ord rpc wpc'"
  "(sample_at mu ord rpc wpc)\<lparr>wrMu := mu', order := ord'\<rparr> = sample_at mu' ord' rpc wpc"
  by (simp_all add: sample_at_def)

lemma sample_meeting_reached: "pipe_reach sample_meeting"
proof -
  let ?S = "sample_at"
  note f = sample_at_fields sample_at_moves
  have "pipe_step new_run (?S None [] R_none (W_start [1, 2, 3]))"
    using pipe_step.new_write [of new_run 0 "[1, 2, 3]"] by (simp add: sample_at_def new_run_def fun_upd_idem)
  note 1 = pipe_reach.step [OF pipe_reach.start this]
  have "write_step (?S None [] R_none (W_start [1, 2, 3])) (?S None [] R_none (W_lock [1, 2, 3]))"
    using write_step.pass [of "?S None [] R_none (W_start [1, 2, 3])" 0] by (simp add: f)
  note 2 = pipe_reach.step [OF 1 pipe_step.writing [OF this]]
  have "write_step (?S None [] R_none (W_lock [1, 2, 3])) (?S (Some 0) [0] R_none (W_ready [1, 2, 3] 0))"
    using write_step.lock [of "?S None [] R_none (W_lock [1, 2, 3])" 0] by (simp add: f)
  note 3 = pipe_reach.step [OF 2 pipe_step.writing [OF this]]
  have "write_step (?S (Some 0) [0] R_none (W_ready [1, 2, 3] 0))
      (?S (Some 0) [0] R_none (W_select [1, 2, 3] 0 0))"
    using write_step.select [of "?S (Some 0) [0] R_none (W_ready [1, 2, 3] 0)" 0] by (simp add: f)
  note 4 = pipe_reach.step [OF 3 pipe_step.writing [OF this]]
  have "pipe_step (?S (Some 0) [0] R_none w) (?S (Some 0) [0] (R_start 2) w)"
    "read_step (?S (Some 0) [0] (R_start 2) w) (?S (Some 0) [0] (R_ready 2) w)"
    "read_step (?S (Some 0) [0] (R_ready 2) w) (?S (Some 0) [0] (R_select 2 0) w)" for w
    using pipe_step.new_read [of "?S (Some 0) [0] R_none w" 0] read_step.pass [of "?S (Some 0) [0] (R_start 2) w" 0]
      read_step.select [of "?S (Some 0) [0] (R_ready 2) w" 0] by (simp_all add: f)
  note 5 = pipe_reach.step [OF pipe_reach.step [OF pipe_reach.step [OF 4 this(1)]
        pipe_step.reading [OF this(2)]] pipe_step.reading [OF this(3)]]
  have "meet_step (?S (Some 0) [0] (R_select 2 0) (W_select [1, 2, 3] 0 0))
      (?S (Some 0) [0] (R_got 2 [1, 2, 3] 0) (W_wait [1, 2, 3] 0 0))"
    using meet_step.on_wrCh [of "?S (Some 0) [0] (R_select 2 0) (W_select [1, 2, 3] 0 0)" 0 _ _ _ 0]
    by (simp add: f)
  note 6 = pipe_reach.step [OF 5 pipe_step.meeting [OF this]]
  have two: "2 = min 2 (length [1 :: byte, 2, 3])" by simp
  have "meet_step (?S (Some 0) [0] (R_got 2 [1, 2, 3] 0) (W_wait [1, 2, 3] 0 0)) sample_meeting"
    using meet_step.on_rdCh [of "?S (Some 0) [0] (R_got 2 [1, 2, 3] 0) (W_wait [1, 2, 3] 0 0)" 0 2 "[1, 2, 3]"
        0 0 "[1, 2, 3]" 0 0, OF _ _ two]
    by (simp add: f(1,2)) (simp add: sample_meeting_def sample_at_def write_counted_def new_run_def newPipe_def
        numeral_2_eq_2)
  from pipe_reach.step [OF 6 pipe_step.meeting [OF this]] show ?thesis .
qed

theorem pipe_fifo_witness:
  "concat (map snd (taken sample_meeting)) = take 2 [1, 2, 3] \<and> (0, [1, 2]) \<in> set (taken sample_meeting)"
proof -
  have "reader sample_meeting 0 = R_ret [1, 2] None" "writer sample_meeting 0 = W_ready [3] 2"
    "given sample_meeting 0 = [1, 2, 3]" "order sample_meeting = [0]"
    by (simp_all add: sample_meeting_def sample_at_def)
  with pipe_fifo [OF sample_meeting_reached] show ?thesis by simp
qed

section \<open>Calls return\<close>

text \<open>A step of a call that has been made, and the steps it may still take.\<close>

definition serve :: "pipe_run \<Rightarrow> pipe_run \<Rightarrow> bool" where
  "serve c c' \<longleftrightarrow> read_step c c' \<or> write_step c c' \<or> meet_step c c'"

fun read_work :: "reader_pc \<Rightarrow> nat" where
  "read_work (R_start cap) = 16"
| "read_work (R_ready cap) = 12"
| "read_work (R_select cap ch) = 8"
| "read_work (R_got cap b w) = 4"
| "read_work pc = 0"

fun write_work :: "writer_pc \<Rightarrow> nat" where
  "write_work (W_start b) = 5"
| "write_work (W_lock b) = 4"
| "write_work (W_ready b n) = 3"
| "write_work (W_select b n ch) = 2"
| "write_work (W_wait b n r) = 1"
| "write_work pc = 0"

definition readers :: "pipe_run \<Rightarrow> nat set" where
  "readers c = {r. reader c r \<noteq> R_none}"

definition writers :: "pipe_run \<Rightarrow> nat set" where
  "writers c = {w. writer c w \<noteq> W_none}"

definition work :: "pipe_run \<Rightarrow> nat" where
  "work c = (\<Sum>r \<in> readers c. read_work (reader c r)) + (\<Sum>w \<in> writers c. write_work (writer c w))"

lemma serve_pipe_step: "serve c c' \<Longrightarrow> pipe_step c c'"
  by (auto simp: serve_def intro: reading writing meeting)

lemma sum_upd:
  fixes h :: "'b \<Rightarrow> nat"
  assumes "finite A" and "x \<in> A"
  shows "(\<Sum>a \<in> A. h ((f(x := v)) a)) + h (f x) = (\<Sum>a \<in> A. h (f a)) + h v"
proof -
  have "(\<Sum>a \<in> A - {x}. h ((f(x := v)) a)) = (\<Sum>a \<in> A - {x}. h (f a))"
    by (rule sum.cong) auto
  then show ?thesis by (simp add: sum.remove [OF assms])
qed

text \<open>The moves of a step of \<open>serve\<close>: of a reader, of a writer, or of one of each.\<close>

lemma serve_moves:
  assumes "serve c c'"
  shows "p_done (shared c') = p_done (shared c) \<and>
   ((\<exists>r pc. reader c' = (reader c)(r := pc) \<and> writer c' = writer c \<and> reader c r \<noteq> R_none \<and> pc \<noteq> R_none
       \<and> read_work pc < read_work (reader c r))
    \<or> (\<exists>w pc. writer c' = (writer c)(w := pc) \<and> reader c' = reader c \<and> writer c w \<noteq> W_none \<and> pc \<noteq> W_none
       \<and> write_work pc < write_work (writer c w))
    \<or> (\<exists>r w pr pw. reader c' = (reader c)(r := pr) \<and> writer c' = (writer c)(w := pw)
       \<and> reader c r \<noteq> R_none \<and> pr \<noteq> R_none \<and> writer c w \<noteq> W_none \<and> pw \<noteq> W_none
       \<and> read_work pr + write_work pw < read_work (reader c r) + write_work (writer c w)))"
  using assms unfolding serve_def
proof (elim disjE)
  assume "read_step c c'"
  then show ?thesis by (cases rule: read_step.cases) (fastforce intro: exI)+
next
  assume "write_step c c'"
  then show ?thesis by (cases rule: write_step.cases) (fastforce intro: exI)+
next
  assume "meet_step c c'"
  then show ?thesis
  proof (cases rule: meet_step.cases)
    case (on_wrCh w b n ch r cap ch')
    then show ?thesis
      by (intro conjI disjI2) (simp, intro exI [of _ r] exI [of _ w] exI [of _ "R_got cap b w"]
          exI [of _ "W_wait b n r"], simp)
  next
    case (on_rdCh r cap bw w' w b n r' nr)
    let ?pw = "if drop nr b = [] then W_ret (n + nr) None else W_ready (drop nr b) (n + nr)"
    have "reader c' = (reader c)(r := R_ret (take nr bw) None) \<and> writer c' = (writer c)(w := ?pw)
        \<and> p_done (shared c') = p_done (shared c)"
      using on_rdCh by (simp add: write_counted_def)
    moreover have "read_work (R_ret (take nr bw) None) + write_work ?pw
        < read_work (reader c r) + write_work (writer c w)"
      using on_rdCh by simp
    moreover have "reader c r \<noteq> R_none" "writer c w \<noteq> W_none" "?pw \<noteq> W_none" using on_rdCh by simp_all
    ultimately show ?thesis by blast
  qed
qed

lemma serve_calls: "serve c c' \<Longrightarrow> readers c' = readers c \<and> writers c' = writers c"
  by (drule serve_moves) (auto simp: readers_def writers_def split: if_splits)

lemma finite_calls: "pipe_reach c \<Longrightarrow> finite (readers c) \<and> finite (writers c)"
proof (induction rule: pipe_reach.induct)
  case start
  show ?case by (simp add: readers_def writers_def new_run_def)
next
  case (step c c')
  have same: ?case if "reader c' = reader c" "writer c' = writer c"
    using step.IH that by (simp add: readers_def writers_def)
  have served: ?case if "serve c c'"
    using step.IH serve_calls [OF that] by simp
  show ?case
    using step.hyps(2)
  proof (cases rule: pipe_step.cases)
    case (new_read r cap)
    then have "readers c' \<subseteq> insert r (readers c)" "writers c' = writers c"
      by (auto simp: readers_def writers_def split: if_splits)
    with step.IH show ?thesis by (auto intro: finite_subset)
  next
    case (new_write w b)
    then have "writers c' \<subseteq> insert w (writers c)" "readers c' = readers c"
      by (auto simp: readers_def writers_def split: if_splits)
    with step.IH show ?thesis by (auto intro: finite_subset)
  next
    case (set_read t e)
    then show ?thesis by (intro same) (auto simp: SetReadDeadline_def split: if_splits go.splits)
  next
    case (set_write t e)
    then show ?thesis by (intro same) (auto simp: SetWriteDeadline_def split: if_splits go.splits)
  qed (use same served in \<open>simp_all add: serve_def\<close>)
qed

lemma serve_work:
  assumes "finite (readers c)" and "finite (writers c)" and "serve c c'"
  shows "work c' < work c"
proof -
  note calls = serve_calls [OF assms(3)]
  have rs: "(\<Sum>a \<in> readers c. read_work (((reader c)(r := pc)) a)) + read_work (reader c r)
      = (\<Sum>a \<in> readers c. read_work (reader c a)) + read_work pc" if "reader c r \<noteq> R_none" for r pc
    using that by (intro sum_upd assms(1)) (simp add: readers_def)
  have ws: "(\<Sum>a \<in> writers c. write_work (((writer c)(w := pc)) a)) + write_work (writer c w)
      = (\<Sum>a \<in> writers c. write_work (writer c a)) + write_work pc" if "writer c w \<noteq> W_none" for w pc
    using that by (intro sum_upd assms(2)) (simp add: writers_def)
  from serve_moves [OF assms(3)] consider
      r pc where "reader c' = (reader c)(r := pc)" "writer c' = writer c" "reader c r \<noteq> R_none"
        "read_work pc < read_work (reader c r)"
    | w pc where "writer c' = (writer c)(w := pc)" "reader c' = reader c" "writer c w \<noteq> W_none"
        "write_work pc < write_work (writer c w)"
    | r w pr pw where "reader c' = (reader c)(r := pr)" "writer c' = (writer c)(w := pw)"
        "reader c r \<noteq> R_none" "writer c w \<noteq> W_none"
        "read_work pr + write_work pw < read_work (reader c r) + write_work (writer c w)"
    by blast
  then show ?thesis
  proof cases
    case (1 r pc)
    with rs [of r pc] calls show ?thesis by (simp add: work_def)
  next
    case (2 w pc)
    with ws [of w pc] calls show ?thesis by (simp add: work_def)
  next
    case (3 r w pr pw)
    with rs [of r pr] ws [of w pw] calls show ?thesis by (simp add: work_def)
  qed
qed

lemma serve_run:
  "pipe_reach c \<Longrightarrow> (serve ^^ n) c c' \<Longrightarrow>
   pipe_reach c' \<and> n + work c' \<le> work c \<and> p_done (shared c') = p_done (shared c)"
proof (induction n arbitrary: c')
  case (Suc n)
  then obtain k where k: "(serve ^^ n) c k" "serve k c'" by auto
  note ih = Suc.IH [OF Suc.prems(1) k(1)]
  have "work c' < work k" using ih k(2) finite_calls serve_work by blast
  moreover have "pipe_reach c'" using ih k(2) serve_pipe_step pipe_reach.step by blast
  moreover have "p_done (shared c') = p_done (shared k)" using serve_moves [OF k(2)] by blast
  ultimately show ?case using ih by simp
qed simp

text \<open>In a closed pipe, whoever has not returned can take a step, or the one it waits for can.\<close>

lemma closed_progress:
  assumes "pipe_reach c" and "p_done (shared c)" and "\<forall>c'. \<not> serve c c'"
  shows "(\<forall>r \<in> readers c. \<exists>d e. reader c r = R_ret d e) \<and> (\<forall>w \<in> writers c. \<exists>n e. writer c w = W_ret n e)"
proof -
  have inv: "run_inv c" using assms(1) by (rule pipe_reach_inv)
  have stuck: "\<not> read_step c c'" "\<not> write_step c c'" "\<not> meet_step c c'" for c'
    using assms(3) by (simp_all add: serve_def)
  have no_wait: "writer c w \<noteq> W_wait b n r" for w b n r
    using inv stuck(3) unfolding run_inv_def meet_inv_def by (meson meet_step.on_rdCh)
  then have no_got: "reader c r \<noteq> R_got cap b w" for r cap b w
    using inv unfolding run_inv_def meet_inv_def by metis
  have outside: "\<not> inside (writer c w)" for w
  proof (cases "writer c w")
    case (W_ready b n)
    then show ?thesis using stuck(2) by (blast intro: write_step.select)
  next
    case (W_select b n ch)
    then show ?thesis using stuck(2) assms(2) by (blast intro: write_step.closed2)
  next
    case (W_wait b n r)
    then show ?thesis using no_wait by blast
  qed simp_all
  then have free: "wrMu c = None" using inv unfolding run_inv_def lock_inv_def by (metis option.exhaust)
  have "\<exists>d e. reader c r = R_ret d e" if "r \<in> readers c" for r
  proof (cases "reader c r")
    case (R_start cap)
    then show ?thesis using stuck(1) assms(2) by (blast intro: read_step.closed1)
  next
    case (R_ready cap)
    then show ?thesis using stuck(1) by (blast intro: read_step.select)
  next
    case (R_select cap ch)
    then show ?thesis using stuck(1) assms(2) by (blast intro: read_step.closed2)
  qed (use that no_got in \<open>auto simp: readers_def\<close>)
  moreover have "\<exists>n e. writer c w = W_ret n e" if "w \<in> writers c" for w
  proof (cases "writer c w")
    case (W_start b)
    then show ?thesis using stuck(2) assms(2) by (blast intro: write_step.closed1)
  next
    case (W_lock b)
    then show ?thesis using stuck(2) free by (blast intro: write_step.lock)
  qed (use that outside [of w] in \<open>auto simp: writers_def\<close>)
  ultimately show ?thesis by blast
qed

text \<open>C20: Calls return: without new calls a pipe comes to rest, after no more steps than its calls have
  left, however they interleave; and if it has been closed on either side, it comes to rest only
  when every call has returned, readers, writers and those waiting for the lock.\<close>

theorem pipe_returns:
  assumes "pipe_reach c" and "(serve ^^ n) c c'"
  shows "n \<le> work c
    \<and> (p_done (shared c) \<and> (\<forall>c''. \<not> serve c' c'') \<longrightarrow>
        (\<forall>r \<in> readers c'. \<exists>d e. reader c' r = R_ret d e) \<and> (\<forall>w \<in> writers c'. \<exists>n e. writer c' w = W_ret n e))"
  using serve_run [OF assms] closed_progress [of c'] by auto

theorem pipe_returns_witness:
  "\<exists>n c'. (serve ^^ n) (sample_meeting\<lparr>shared := closeRead None (shared sample_meeting)\<rparr>) c'
     \<and> (\<exists>k e. writer c' 0 = W_ret k e)"
proof -
  let ?c = "sample_meeting\<lparr>shared := closeRead None (shared sample_meeting)\<rparr>"
  have reach: "pipe_reach ?c"
    using pipe_reach.step [OF sample_meeting_reached pipe_step.close_read [of _ None]] by simp
  have bound: "n \<le> work ?c" if "(serve ^^ n) ?c c'" for n c'
    using pipe_returns [OF reach that] by simp
  have "\<exists>n c'. (serve ^^ n) ?c c' \<and> (\<forall>c''. \<not> serve c' c'')"
  proof (rule ccontr)
    assume none: "\<not> (\<exists>n c'. (serve ^^ n) ?c c' \<and> (\<forall>c''. \<not> serve c' c''))"
    have "\<exists>c'. (serve ^^ n) ?c c'" for n
    proof (induction n)
      case (Suc n)
      with none show ?case by (metis relpowp_Suc_I)
    qed simp
    with bound show False by (metis not_less_eq_eq)
  qed
  then obtain n c' where run: "(serve ^^ n) ?c c'" "\<forall>c''. \<not> serve c' c''" by blast
  have "p_done (shared ?c)" by simp
  with pipe_returns [OF reach run(1)] run(2) have "\<forall>w \<in> writers c'. \<exists>n e. writer c' w = W_ret n e" by blast
  moreover have "writers c' = writers ?c"
    using run(1) by (induction n arbitrary: c') (auto dest: serve_calls)
  then have "0 \<in> writers c'" by (simp add: writers_def sample_meeting_def sample_at_def)
  ultimately show ?thesis using run(1) by blast
qed

end
