(* ===== verification/PipeCalls.thy ===== *)
theory PipeCalls
  imports PipeRun
begin

text \<open>
  The pipe as the session theories use it, \<open>pipe_Write\<close>, against the processes of \<open>PipeRun\<close>: what the
  one does at once the others can do step by step, with readers of any size.
\<close>

text \<open>One more reader of capacity \<open>cap\<close> meets a writer that is ready.\<close>

lemma one_read:
  assumes "writer c w = W_ready b n" and "reader c r = R_none" and "\<not> p_done (shared c)"
    and "\<not> expired_now (readDeadline c)" and "m = min cap (length b)"
  shows "pipe_step\<^sup>*\<^sup>* c (set_reader r (R_ret (take m b) None) (write_counted w b n m
      (c\<lparr>shared := (shared c)\<lparr>p_delivered := p_delivered (shared c) @ take m b\<rparr>,
         taken := taken c @ [(r, take m b)]\<rparr>)))" (is "pipe_step\<^sup>*\<^sup>* c ?e")
proof -
  let ?ch = "deadline_Wait (readDeadline c)" and ?ch' = "deadline_Wait (writeDeadline c)"
  define c1 where "c1 = set_reader r (R_start cap) c"
  define c2 where "c2 = set_reader r (R_ready cap) c1"
  define c3 where "c3 = set_reader r (R_select cap ?ch) c2"
  define c4 where "c4 = set_writer w (W_select b n ?ch') c3"
  define c5 where "c5 = set_reader r (R_got cap b w) (set_writer w (W_wait b n r) c4)"
  note ds = c1_def c2_def c3_def c4_def c5_def
  have 1: "pipe_step c c1" unfolding c1_def by (rule new_read [OF assms(2)])
  have 2: "pipe_step c1 c2"
    unfolding c2_def by (rule reading, rule read_step.pass) (use assms in \<open>simp_all add: ds\<close>)
  have 3: "pipe_step c2 c3"
    using reading [OF read_step.select [of c2 r cap]] by (simp add: ds)
  have 4: "pipe_step c3 c4"
    using writing [OF write_step.select [of c3 w b n]] assms by (simp add: ds)
  have 5: "pipe_step c4 c5"
    unfolding c5_def by (rule meeting, rule meet_step.on_wrCh [where ch' = ?ch and ch = ?ch'])
      (use assms in \<open>simp_all add: ds\<close>)
  have "set_reader r (R_ret (take m b) None) (write_counted w b n m
      (c5\<lparr>shared := (shared c5)\<lparr>p_delivered := p_delivered (shared c5) @ take m b\<rparr>,
         taken := taken c5 @ [(r, take m b)]\<rparr>)) = ?e"
    by (simp add: ds write_counted_def)
  moreover have "reader c5 r = R_got cap b w" "writer c5 w = W_wait b n r" by (simp_all add: ds)
  ultimately have 6: "pipe_step c5 ?e"
    using meeting [OF meet_step.on_rdCh] assms(5) by metis
  from 1 2 3 4 5 6 show ?thesis
    by (meson converse_rtranclp_into_rtranclp rtranclp.rtrancl_refl)
qed

lemma steps_reach: "pipe_step\<^sup>*\<^sup>* c c' \<Longrightarrow> pipe_reach c \<Longrightarrow> pipe_reach c'"
  by (induction rule: rtranclp_induct) (auto intro: pipe_reach.step)

lemma fresh_reader: "pipe_reach c \<Longrightarrow> \<exists>r. reader c r = R_none"
  using finite_calls [of c] by (metis (mono_tags) ex_new_if_finite infinite_UNIV_nat mem_Collect_eq readers_def)

text \<open>Readers of capacity \<open>cap\<close>, one after the other, take all that is left.\<close>

lemma write_rest:
  fixes cap :: nat
  assumes "pipe_reach c" and "writer c w = W_ready b n" and "\<not> p_done (shared c)"
    and "\<not> expired_now (readDeadline c)" and "0 < cap"
  shows "\<exists>c'. pipe_step\<^sup>*\<^sup>* c c' \<and> shared c' = (shared c)\<lparr>p_delivered := p_delivered (shared c) @ b\<rparr>
    \<and> writer c' = (writer c)(w := W_ret (n + length b) None) \<and> wrMu c' = None"
  using assms
proof (induction "length b" arbitrary: b n c rule: less_induct)
  case less
  obtain r where r: "reader c r = R_none" using fresh_reader [OF less.prems(1)] by blast
  let ?m = "min cap (length b)"
  let ?e = "set_reader r (R_ret (take ?m b) None) (write_counted w b n ?m
      (c\<lparr>shared := (shared c)\<lparr>p_delivered := p_delivered (shared c) @ take ?m b\<rparr>,
         taken := taken c @ [(r, take ?m b)]\<rparr>))"
  note e = one_read [OF less.prems(2) r less.prems(3,4) refl, of cap]
  show ?case
  proof (cases "length b \<le> cap")
    case True
    then show ?thesis
      by (intro exI [of _ ?e] conjI e) (simp_all add: write_counted_def)
  next
    case False
    then have m: "?m = cap" by simp
    let ?b = "drop cap b"
    have "length ?b < length b" using False less.prems(5) by simp
    moreover have "writer ?e w = W_ready ?b (n + cap)" "\<not> p_done (shared ?e)" "\<not> expired_now (readDeadline ?e)"
      "shared ?e = (shared c)\<lparr>p_delivered := p_delivered (shared c) @ take cap b\<rparr>"
      "writer ?e = (writer c)(w := W_ready ?b (n + cap))"
      using False m less.prems(3,4) by (simp_all add: write_counted_def)
    moreover have "pipe_reach ?e" using steps_reach [OF e less.prems(1)] .
    ultimately obtain c' where c': "pipe_step\<^sup>*\<^sup>* ?e c'"
      "shared c' = (shared ?e)\<lparr>p_delivered := p_delivered (shared ?e) @ ?b\<rparr>"
      "writer c' = (writer ?e)(w := W_ret (n + cap + length ?b) None)" "wrMu c' = None"
      using less.hyps [of ?b ?e "n + cap"] less.prems(5) by blast
    from e c'(1) have "pipe_step\<^sup>*\<^sup>* c c'" by (rule rtranclp_trans)
    with c' False m show ?thesis
      by (intro exI [of _ c']) (simp add: write_counted_def)
  qed
qed

text \<open>C21: What the session theories take as one step, the pipe's calls can do: whatever state the pipe has
  reached, a write that finds the lock free and the deadlines not passed has a run, with readers of any
  size, one after the other, at whose end it has returned exactly the count and the error of
  \<open>pipe_Write\<close> and the shared state, the delivered bytes included, is that of \<open>pipe_Write\<close>;
  other writers are where they were.\<close>

theorem write_realised:
  fixes cap :: nat
  assumes "pipe_reach c" and "writer c w = W_none" and "wrMu c = None" and "0 < cap"
    and "\<not> expired_now (readDeadline c)" and "\<not> expired_now (writeDeadline c)"
  shows "\<exists>c'. pipe_step\<^sup>*\<^sup>* c c' \<and> (case pipe_Write b (shared c) of (p, n, e) \<Rightarrow>
      shared c' = p \<and> writer c' = (writer c)(w := W_ret n e)) \<and> wrMu c' = None"
proof -
  define c1 where "c1 = set_writer w (W_start b) (c\<lparr>given := (given c)(w := b)\<rparr>)"
  have 1: "pipe_step c c1" unfolding c1_def by (rule new_write [OF assms(2)])
  show ?thesis
  proof (cases "p_done (shared c)")
    case True
    have "pipe_step c1 (set_writer w (W_ret 0 (Some (writeCloseError (shared c)))) c1)"
      using writing [OF write_step.closed1 [of c1 w b]] True by (simp add: c1_def)
    with 1 have "pipe_step\<^sup>*\<^sup>* c (set_writer w (W_ret 0 (Some (writeCloseError (shared c)))) c1)"
      by (meson converse_rtranclp_into_rtranclp r_into_rtranclp)
    with True assms(3) show ?thesis
      by (intro exI [of _ "set_writer w (W_ret 0 (Some (writeCloseError (shared c)))) c1"])
        (simp add: pipe_Write_def c1_def)
  next
    case False
    define c2 where "c2 = set_writer w (W_lock b) c1"
    define c3 where "c3 = set_writer w (W_ready b 0) (c2\<lparr>wrMu := Some w, order := order c2 @ [w]\<rparr>)"
    have 2: "pipe_step c1 c2"
      unfolding c2_def by (rule writing, rule write_step.pass) (use False assms(6) in \<open>simp_all add: c1_def\<close>)
    have 3: "pipe_step c2 c3"
      unfolding c3_def by (rule writing, rule write_step.lock) (use assms(3) in \<open>simp_all add: c1_def c2_def\<close>)
    from 1 2 3 have c3: "pipe_step\<^sup>*\<^sup>* c c3" by (meson converse_rtranclp_into_rtranclp rtranclp.rtrancl_refl)
    have "writer c3 w = W_ready b 0" "\<not> p_done (shared c3)" "\<not> expired_now (readDeadline c3)"
      using False assms(5) by (simp_all add: c1_def c2_def c3_def)
    from write_rest [OF steps_reach [OF c3 assms(1)] this assms(4)] obtain c' where
      "pipe_step\<^sup>*\<^sup>* c3 c'" "shared c' = (shared c3)\<lparr>p_delivered := p_delivered (shared c3) @ b\<rparr>"
      "writer c' = (writer c3)(w := W_ret (0 + length b) None)" "wrMu c' = None"
      by blast
    with c3 False show ?thesis
      by (intro exI [of _ c']) (auto simp: pipe_Write_def c1_def c2_def c3_def)
  qed
qed

theorem write_realised_witness:
  "\<exists>c'. pipe_step\<^sup>*\<^sup>* new_run c' \<and> writer c' 0 = W_ret 3 None \<and> p_delivered (shared c') = [1, 2, 3]"
proof -
  have "\<not> expired_now (readDeadline new_run)" "\<not> expired_now (writeDeadline new_run)" "\<not> p_done (shared new_run)"
    "writer new_run 0 = W_none" "wrMu new_run = None" "p_delivered (shared new_run) = []"
    by (simp_all add: new_run_def newPipe_def)
  with write_realised [OF pipe_reach.start, of 0 2 "[1, 2, 3]"] show ?thesis
    by (auto simp: pipe_Write_def eval_nat_numeral)
qed

end
