(* ===== verification/Users.thy ===== *)
theory Users
  imports Prelude
begin

text \<open>
  \<^verbatim>\<open>internal/user/manager.go\<close>: the table of users and the lookup of a password
  hash. The table is replaced as a whole, so it is the state; \<open>sha256\<close> is an argument, and the
  user type of \<^verbatim>\<open>internal/api/endpoints.go\<close> stands here.
\<close>

record user =
  user_ID :: int
  user_UUID :: string
  user_SpeedLimit :: "int option"
  user_DeviceLimit :: "int option"

record UserEntry =
  entry_ID :: int
  entry_UUID :: string
  SpeedLimit :: int
  DeviceLimit :: int
  PasswordHash :: bytes

record UserTable =
  byPasswordHash :: "(bytes \<times> UserEntry) list"
  byID :: "(int \<times> UserEntry) list"

definition NewManager :: UserTable where
  "NewManager = \<lparr>byPasswordHash = [], byID = []\<rparr>"

definition Authenticate :: "UserTable \<Rightarrow> bytes \<Rightarrow> UserEntry option" where
  "Authenticate tbl h = (if length h \<noteq> 32 then None else map_of (byPasswordHash tbl) h)"

definition mk_entry :: "(bytes \<Rightarrow> bytes) \<Rightarrow> user \<Rightarrow> UserEntry" where
  "mk_entry sha256 u =
     \<lparr>entry_ID = user_ID u, entry_UUID = user_UUID u,
      SpeedLimit = (case user_SpeedLimit u of None \<Rightarrow> 0 | Some n \<Rightarrow> n),
      DeviceLimit = (case user_DeviceLimit u of None \<Rightarrow> 0 | Some n \<Rightarrow> n),
      PasswordHash = sha256 (bytes_of (user_UUID u))\<rparr>"

definition put_user :: "(bytes \<Rightarrow> bytes) \<Rightarrow> user \<Rightarrow> UserTable \<Rightarrow> UserTable" where
  "put_user sha256 u tbl =
     (let entry = mk_entry sha256 u
      in tbl\<lparr>byPasswordHash := AList.update (PasswordHash entry) entry (byPasswordHash tbl),
             byID := AList.update (user_ID u) entry (byID tbl)\<rparr>)"

definition UpdateUsers :: "(bytes \<Rightarrow> bytes) \<Rightarrow> user list \<Rightarrow> UserTable" where
  "UpdateUsers sha256 users = fold (put_user sha256) users NewManager"

definition GetUser :: "UserTable \<Rightarrow> int \<Rightarrow> UserEntry option" where
  "GetUser tbl i = map_of (byID tbl) i"

definition GetUserCount :: "UserTable \<Rightarrow> nat" where
  "GetUserCount tbl = length (byID tbl)"

section \<open>The table as two maps\<close>

text \<open>The last user of a list with a property.\<close>

definition last_user :: "(user \<Rightarrow> bool) \<Rightarrow> user list \<Rightarrow> user option" where
  "last_user P us = List.find P (rev us)"

lemma last_user_snoc: "last_user P (us @ [u]) = (if P u then Some u else last_user P us)"
  by (simp add: last_user_def)

lemma last_user_Nil: "last_user P [] = None"
  by (simp add: last_user_def)

lemma last_user_None: "last_user P us = None \<longleftrightarrow> (\<forall>u \<in> set us. \<not> P u)"
  by (induction us rule: rev_induct) (auto simp: last_user_snoc last_user_Nil)

lemma UpdateUsers_snoc:
  "UpdateUsers sha (us @ [u]) = put_user sha u (UpdateUsers sha us)" "UpdateUsers sha [] = NewManager"
  by (simp_all add: UpdateUsers_def)

lemma table_maps:
  "map_of (byPasswordHash (UpdateUsers sha us)) h =
     map_option (mk_entry sha) (last_user (\<lambda>u. sha (bytes_of (user_UUID u)) = h) us)"
  "map_of (byID (UpdateUsers sha us)) i =
     map_option (mk_entry sha) (last_user (\<lambda>u. user_ID u = i) us)"
  by (induction us rule: rev_induct)
    (simp_all add: UpdateUsers_snoc NewManager_def put_user_def Let_def last_user_snoc last_user_Nil
      update_conv' mk_entry_def)

lemma byID_keys:
  "distinct (map fst (byID (UpdateUsers sha us))) \<and>
   fst ` set (byID (UpdateUsers sha us)) = user_ID ` set us"
  by (induction us rule: rev_induct)
    (simp_all add: UpdateUsers_snoc NewManager_def put_user_def Let_def distinct_update dom_update)

section \<open>Claims\<close>

text \<open>Authentication accepts exactly the hashes of the current users: a lookup finds an entry only
  for 32 bytes that are the hash of the password of a user in the last list, and the entry is that
  of the last such user; users that are no longer listed are refused, unless a listed password has
  the same hash.\<close>

lemma Authenticate_iff:
  "Authenticate (UpdateUsers sha us) h =
     (if length h = 32
      then map_option (mk_entry sha) (last_user (\<lambda>u. sha (bytes_of (user_UUID u)) = h) us)
      else None)
   \<and> (Authenticate (UpdateUsers sha us) h \<noteq> None
      \<longleftrightarrow> length h = 32 \<and> h \<in> (\<lambda>u. sha (bytes_of (user_UUID u))) ` set us)"
proof -
  have "last_user (\<lambda>u. sha (bytes_of (user_UUID u)) = h) us \<noteq> None
      \<longleftrightarrow> h \<in> (\<lambda>u. sha (bytes_of (user_UUID u))) ` set us"
    by (simp add: last_user_None image_iff) blast
  then show ?thesis by (simp add: Authenticate_def table_maps)
qed

text \<open>The table by id has one entry per distinct id of the list, the last user's with that id, and
  the count is the number of distinct ids.\<close>

lemma GetUser_count:
  "GetUser (UpdateUsers sha us) i = map_option (mk_entry sha) (last_user (\<lambda>u. user_ID u = i) us)
   \<and> GetUserCount (UpdateUsers sha us) = card (user_ID ` set us)"
proof -
  have "length (byID (UpdateUsers sha us)) = card (fst ` set (byID (UpdateUsers sha us)))"
    using byID_keys [of sha us] by (metis distinct_card length_map set_map)
  then show ?thesis
    using byID_keys [of sha us] by (simp add: GetUser_def GetUserCount_def table_maps)
qed

end
