(* ===== verification/Traffic.thy ===== *)
theory Traffic
  imports GoStrings "HOL-Library.Multiset"
begin

text \<open>
  \<^verbatim>\<open>internal/traffic\<close> and \<^verbatim>\<open>internal/conn/traffic_conn.go\<close>: the counter
  of bytes per user, its snapshot and merge, and its file. A Go map is an association list
  without duplicate keys, its order the order \<open>range\<close> visits it in. The values are \<open>int64\<close>, kept
  as \<open>int\<close> and wrapped.
\<close>

section \<open>The counter\<close>

type_synonym traffic = "int \<times> int"
type_synonym counter = "(int \<times> traffic) list"

definition NewCounter :: counter where
  "NewCounter = []"

text \<open>The two atomic additions to one user's entry.\<close>

definition tadd :: "traffic \<Rightarrow> traffic \<Rightarrow> traffic" where
  "tadd a b = (wrap64 (fst a + fst b), wrap64 (snd a + snd b))"

definition amount :: "counter \<Rightarrow> int \<Rightarrow> traffic" where
  "amount c uid = (case map_of c uid of None \<Rightarrow> (0, 0) | Some t \<Rightarrow> t)"

definition Add :: "int \<Rightarrow> int \<Rightarrow> int \<Rightarrow> counter \<Rightarrow> counter" where
  "Add uid upload download c = AList.update uid (tadd (amount c uid) (upload, download)) c"

definition positive :: "traffic \<Rightarrow> bool" where
  "positive t \<longleftrightarrow> fst t > 0 \<or> snd t > 0"

text \<open>The loop of swaps, then the loop that deletes the entries that read zero.\<close>

definition swap_all :: "counter \<Rightarrow> counter" where
  "swap_all c = map (\<lambda>(uid, t). (uid, (0, 0))) c"

definition sweep :: "counter \<Rightarrow> counter" where
  "sweep c = filter (\<lambda>(uid, t). t \<noteq> (0, 0)) c"

definition Snapshot :: "counter \<Rightarrow> counter \<times> (int \<times> traffic) list" where
  "Snapshot c = (sweep (swap_all c), filter (\<lambda>(uid, t). positive t) c)"

definition Merge :: "(int \<times> traffic) list \<Rightarrow> counter \<Rightarrow> counter" where
  "Merge data c = fold (\<lambda>(uid, t). Add uid (fst t) (snd t)) data c"

text \<open>\<open>TrafficConn\<close> counts what the connection under it reports; the limiter only delays.\<close>

definition TrafficConn_Read :: "int \<Rightarrow> nat \<Rightarrow> counter \<Rightarrow> counter" where
  "TrafficConn_Read uid n c = (if n > 0 then Add uid 0 (int n) c else c)"

definition TrafficConn_Write :: "int \<Rightarrow> nat \<Rightarrow> counter \<Rightarrow> counter" where
  "TrafficConn_Write uid n c = (if n > 0 then Add uid (int n) 0 c else c)"

section \<open>The file\<close>

text \<open>What the process finds at a path. The contents have type \<open>'f\<close>; \<open>encoding/json\<close> is the
  pair of arguments \<open>marshal\<close> and \<open>unmarshal\<close>.\<close>

datatype 'f disk_file = Absent | Unreadable | Present 'f

record persistedData =
  Timestamp :: int
  Data :: "(string \<times> traffic) list"

definition to_persist :: "counter \<Rightarrow> (string \<times> traffic) list" where
  "to_persist c = map (\<lambda>(uid, t). (itoa uid, t)) (filter (\<lambda>(uid, t). positive t) c)"

text \<open>\<open>SaveToFile\<close>: no data removes the file; \<open>write\<close> is the outcome of \<open>os.WriteFile\<close>.\<close>

definition SaveToFile ::
    "(persistedData \<Rightarrow> go_error + 'f) \<Rightarrow> ('f \<Rightarrow> 'f disk_file \<times> go_error option) \<Rightarrow> int \<Rightarrow> counter \<Rightarrow>
     'f disk_file \<Rightarrow> 'f disk_file \<times> go_error option" where
  "SaveToFile marshal write now c f =
     (if to_persist c = [] then (Absent, None)
      else (case marshal \<lparr>Timestamp = now, Data = to_persist c\<rparr> of
              Inl e \<Rightarrow> (f, Some e)
            | Inr b \<Rightarrow> write b))"

fun from_persist :: "(string \<times> traffic) list \<Rightarrow> (int \<times> traffic) list" where
  "from_persist [] = []"
| "from_persist ((k, t) # d) =
     (case atoi k of
        None \<Rightarrow> from_persist d
      | Some uid \<Rightarrow> AList.update uid t (from_persist d))"

definition LoadFromFile ::
    "('f \<Rightarrow> go_error + persistedData) \<Rightarrow> 'f disk_file \<Rightarrow> counter \<Rightarrow> counter \<times> go_error option" where
  "LoadFromFile unmarshal f c =
     (case f of
        Absent \<Rightarrow> (c, None)
      | Unreadable \<Rightarrow> (c, Some ConnFailure)
      | Present b \<Rightarrow>
          (case unmarshal b of
             Inl e \<Rightarrow> (c, Some e)
           | Inr pd \<Rightarrow> (Merge (from_persist (Data pd)) c, None)))"

section \<open>The interface of a ledger\<close>

text \<open>What the push cycle of the server needs of a traffic counter: adding changes one account,
  taking empties all accounts and returns the positive ones.\<close>

locale ledger =
  fixes ok :: "'s \<Rightarrow> bool"
    and bal :: "'s \<Rightarrow> int \<Rightarrow> traffic"
    and add :: "int \<Rightarrow> traffic \<Rightarrow> 's \<Rightarrow> 's"
    and drain :: "'s \<Rightarrow> 's \<times> (int \<times> traffic) list"
  assumes ok_add: "ok s \<Longrightarrow> ok (add k x s)"
    and bal_add: "ok s \<Longrightarrow> bal (add k x s) j = (if j = k then tadd (bal s k) x else bal s j)"
    and ok_drain: "ok s \<Longrightarrow> ok (fst (drain s))"
    and bal_drain: "ok s \<Longrightarrow> bal (fst (drain s)) k = (0, 0)"
    and drained: "ok s \<Longrightarrow> distinct (map fst (snd (drain s)))"
      "ok s \<Longrightarrow> map_of (snd (drain s)) k = (if positive (bal s k) then Some (bal s k) else None)"
begin

definition put_back :: "(int \<times> traffic) list \<Rightarrow> 's \<Rightarrow> 's" where
  "put_back es s = fold (\<lambda>(k, x). add k x) es s"

lemma ok_put_back: "ok s \<Longrightarrow> ok (put_back es s)"
  by (induction es arbitrary: s) (auto simp: put_back_def ok_add)

lemma bal_put_back:
  "ok s \<Longrightarrow> distinct (map fst es) \<Longrightarrow>
   bal (put_back es s) j = (case map_of es j of None \<Rightarrow> bal s j | Some x \<Rightarrow> tadd (bal s j) x)"
proof (induction es arbitrary: s)
  case (Cons e es)
  obtain k x where e: "e = (k, x)" by (cases e)
  have pb: "put_back (e # es) s = put_back es (add k x s)" by (simp add: put_back_def e)
  have none: "map_of es k = None"
    using Cons.prems(2) by (metis e distinct.simps(2) fst_conv list.simps(9) map_of_eq_None_iff set_map)
  show ?case
    unfolding pb using Cons.IH [OF ok_add [OF Cons.prems(1)]] Cons.prems none
    by (auto simp: e bal_add split: option.split)
qed (simp add: put_back_def)

text \<open>What was drained and put back, in any order, into a ledger that went on counting.\<close>

lemma drain_put_back:
  assumes "ok s" and "ok t" and "mset es = mset (snd (drain s))"
    and "fst (bal s j) \<ge> 0" and "snd (bal s j) \<ge> 0"
  shows "tadd (bal t j) (0, 0) = bal t j \<Longrightarrow> bal (put_back es t) j = tadd (bal t j) (bal s j)"
proof -
  assume id: "tadd (bal t j) (0, 0) = bal t j"
  have d: "distinct (map fst es)"
    using drained(1) [OF assms(1)] assms(3) by (metis mset_eq_imp_distinct_iff mset_map)
  have "map_of es j = map_of (snd (drain s)) j"
    using d drained(1) [OF assms(1)] assms(3)
    by (metis map_of_inject_set set_mset_mset)
  also have "\<dots> = (if positive (bal s j) then Some (bal s j) else None)"
    using drained(2) [OF assms(1)] .
  finally have "map_of es j = (if positive (bal s j) then Some (bal s j) else None)" .
  moreover have "bal s j = (0, 0)" if "\<not> positive (bal s j)"
    using that assms(4,5) by (simp add: positive_def prod_eq_iff)
  ultimately show ?thesis
    using bal_put_back [OF assms(2) d, of j] id by (auto split: if_splits)
qed

end


section \<open>The counter is a ledger\<close>

definition int64_pair :: "traffic \<Rightarrow> bool" where
  "int64_pair t \<longleftrightarrow> in_int64 (fst t) \<and> in_int64 (snd t)"

lemma tadd_zero: "int64_pair t \<Longrightarrow> tadd t (0, 0) = t" "int64_pair t \<Longrightarrow> tadd (0, 0) t = t"
  by (simp_all add: tadd_def int64_pair_def wrap64_id)

lemma int64_tadd [simp]: "int64_pair (tadd a b)"
  by (simp add: tadd_def int64_pair_def in_int64_wrap64)

lemma int64_zero [simp]: "int64_pair (0, 0)"
  by (simp add: int64_pair_def in_int64_def)

definition counter_ok :: "counter \<Rightarrow> bool" where
  "counter_ok c \<longleftrightarrow> distinct (map fst c) \<and> (\<forall>(uid, t) \<in> set c. int64_pair t)"

lemma amount_int64: "counter_ok c \<Longrightarrow> int64_pair (amount c uid)"
  by (auto simp: counter_ok_def amount_def split: option.split dest: map_of_SomeD)

lemma Add_ok: "counter_ok c \<Longrightarrow> counter_ok (Add uid u d c)"
  unfolding counter_ok_def Add_def by (auto simp: distinct_update dest!: set_update_alist)

lemma sweep_swap [simp]: "sweep (swap_all c) = []"
  by (auto simp: sweep_def swap_all_def filter_empty_conv)

lemma map_of_filter_value:
  "distinct (map fst c) \<Longrightarrow>
   map_of (filter (\<lambda>(k, t). P t) c) k = (case map_of c k of
     None \<Rightarrow> None | Some t \<Rightarrow> if P t then Some t else None)"
proof (induction c)
  case (Cons kt c)
  obtain k' t where kt: "kt = (k', t)" by (cases kt)
  have "map_of c k' = None"
    using Cons.prems kt by (metis distinct.simps(2) fst_conv list.simps(9) map_of_eq_None_iff set_map)
  with Cons kt show ?case by (auto split: option.split)
qed simp

interpretation lc: ledger counter_ok amount "\<lambda>k x. Add k (fst x) (snd x)" Snapshot
proof unfold_locales
  fix c :: counter and k j :: int and x :: traffic
  assume ok: "counter_ok c"
  show "counter_ok (Add k (fst x) (snd x) c)" using ok by (rule Add_ok)
  show "amount (Add k (fst x) (snd x) c) j = (if j = k then tadd (amount c k) x else amount c j)"
    by (simp add: amount_def Add_def update_conv')
  show "counter_ok (fst (Snapshot c))" by (simp add: Snapshot_def counter_ok_def)
  show "amount (fst (Snapshot c)) k = (0, 0)" by (simp add: Snapshot_def amount_def)
  show "distinct (map fst (snd (Snapshot c)))"
    using ok by (simp add: Snapshot_def counter_ok_def distinct_map_filter)
  show "map_of (snd (Snapshot c)) k = (if positive (amount c k) then Some (amount c k) else None)"
    using ok
    by (auto simp: Snapshot_def counter_ok_def amount_def map_of_filter_value positive_def
        split: option.split)
qed

lemma Merge_put_back: "Merge es c = lc.put_back es c"
  by (simp add: Merge_def lc.put_back_def case_prod_beta')

text \<open>Accounts that never went below zero.\<close>

definition no_debt :: "counter \<Rightarrow> bool" where
  "no_debt c \<longleftrightarrow> (\<forall>(uid, t) \<in> set c. fst t \<ge> 0 \<and> snd t \<ge> 0)"

lemma no_debt_amount: "no_debt c \<Longrightarrow> fst (amount c uid) \<ge> 0 \<and> snd (amount c uid) \<ge> 0"
  by (fastforce simp: no_debt_def amount_def split: option.split dest: map_of_SomeD)

lemma Merge_snapshot:
  assumes "counter_ok c" and "counter_ok c'" and "no_debt c" and "mset es = mset (snd (Snapshot c))"
  shows "amount (Merge es c') uid = tadd (amount c' uid) (amount c uid)"
  unfolding Merge_put_back
  using no_debt_amount [OF assms(3), of uid] tadd_zero(1) [OF amount_int64 [OF assms(2)]]
  by (intro lc.drain_put_back [OF assms(1,2,4)]) simp_all

lemma same_entries:
  "distinct (map fst xs) \<Longrightarrow> distinct (map fst ys) \<Longrightarrow> map_of xs = map_of ys \<Longrightarrow> mset xs = mset ys"
  by (metis distinct_map map_of_inject_set set_eq_iff_mset_eq_distinct)

section \<open>The counter with its cells\<close>

text \<open>The code holds a pointer per user, and \<open>Add\<close> uses the pointer after it has released the
  lock. This is the same counter with a store of cells; the steps of \<open>Add\<close> are separate.\<close>

record heap_counter =
  table :: "(int \<times> nat) list"
  cells :: "nat \<Rightarrow> traffic"
  nextCell :: nat

definition Add_lookup :: "int \<Rightarrow> heap_counter \<Rightarrow> heap_counter \<times> nat" where
  "Add_lookup uid s =
     (case map_of (table s) uid of
        Some a \<Rightarrow> (s, a)
      | None \<Rightarrow>
          (let a = nextCell s
           in (s\<lparr>table := AList.update uid a (table s), cells := (cells s)(a := (0, 0)),
                 nextCell := Suc a\<rparr>, a)))"

definition Add_upload :: "nat \<Rightarrow> int \<Rightarrow> heap_counter \<Rightarrow> heap_counter" where
  "Add_upload a u s = s\<lparr>cells := (cells s)(a := (wrap64 (fst (cells s a) + u), snd (cells s a)))\<rparr>"

definition Add_download :: "nat \<Rightarrow> int \<Rightarrow> heap_counter \<Rightarrow> heap_counter" where
  "Add_download a d s = s\<lparr>cells := (cells s)(a := (fst (cells s a), wrap64 (snd (cells s a) + d)))\<rparr>"

definition heap_Add :: "int \<Rightarrow> int \<Rightarrow> int \<Rightarrow> heap_counter \<Rightarrow> heap_counter" where
  "heap_Add uid u d s =
     (case Add_lookup uid s of (s', a) \<Rightarrow> Add_download a d (Add_upload a u s'))"

definition heap_Snapshot :: "heap_counter \<Rightarrow> heap_counter \<times> (int \<times> traffic) list" where
  "heap_Snapshot s =
     (let snapshot = filter (\<lambda>(uid, t). positive t) (map (\<lambda>(uid, a). (uid, cells s a)) (table s));
          cs = (\<lambda>a. if a \<in> snd ` set (table s) then (0, 0) else cells s a)
      in (s\<lparr>cells := cs, table := filter (\<lambda>(uid, a). cs a \<noteq> (0, 0)) (table s)\<rparr>, snapshot))"

definition heap_ok :: "heap_counter \<Rightarrow> bool" where
  "heap_ok s \<longleftrightarrow> distinct (map fst (table s)) \<and> distinct (map snd (table s))
     \<and> (\<forall>(uid, a) \<in> set (table s). a < nextCell s \<and> int64_pair (cells s a))"

text \<open>What the store means: the counter of the sequential model.\<close>

definition contents :: "heap_counter \<Rightarrow> counter" where
  "contents s = map (\<lambda>(uid, a). (uid, cells s a)) (table s)"

lemma map_of_contents: "map_of (contents s) uid = map_option (cells s) (map_of (table s) uid)"
  unfolding contents_def by (induction "table s" arbitrary: s) (auto simp: map_of_map)

lemma contents_ok: "heap_ok s \<Longrightarrow> counter_ok (contents s)"
  by (auto simp: heap_ok_def counter_ok_def contents_def comp_def case_prod_beta)

lemma heap_Snapshot_contents:
  "contents (fst (heap_Snapshot s)) = fst (Snapshot (contents s))"
  "snd (heap_Snapshot s) = snd (Snapshot (contents s))"
proof -
  have "filter (\<lambda>(uid, a). (if a \<in> snd ` set (table s) then (0, 0) else cells s a) \<noteq> (0, 0)) (table s)
      = []"
    by (auto simp: filter_empty_conv image_iff)
  then have "table (fst (heap_Snapshot s)) = []"
    by (simp add: heap_Snapshot_def Let_def)
  then show "contents (fst (heap_Snapshot s)) = fst (Snapshot (contents s))"
    by (simp add: contents_def Snapshot_def)
  show "snd (heap_Snapshot s) = snd (Snapshot (contents s))"
    by (simp add: heap_Snapshot_def Let_def Snapshot_def contents_def)
qed

text \<open>The three steps of \<open>Add\<close>, run without interruption, are the \<open>Add\<close> of the model.\<close>

lemma update_map_value:
  "distinct (map fst xs) \<Longrightarrow> distinct (map snd xs) \<Longrightarrow> map_of xs k = Some a \<Longrightarrow>
   AList.update k v (map (\<lambda>(k, a). (k, f a)) xs) = map (\<lambda>(k, a'). (k, (f(a := v)) a')) xs"
proof (induction xs)
  case (Cons y ys)
  obtain k' a' where y: "y = (k', a')" by (cases y)
  show ?case
  proof (cases "k' = k")
    case True
    with Cons.prems y have "a' = a" "a \<notin> snd ` set ys" by auto
    then have "map (\<lambda>(k, a'). (k, (f(a := v)) a')) ys = map (\<lambda>(k, a). (k, f a)) ys"
      by (intro map_cong) (auto simp: image_iff)
    with True y \<open>a' = a\<close> show ?thesis by simp
  next
    case False
    with Cons.prems y have "map_of ys k = Some a" by simp
    then have "a \<in> snd ` set ys" by (metis map_of_SomeD imageI snd_conv)
    with Cons.prems(2) y have "a' \<noteq> a" by auto
    with Cons False y \<open>map_of ys k = Some a\<close> show ?thesis by simp
  qed
qed simp

lemma heap_Add_contents:
  assumes "heap_ok s"
  shows "contents (heap_Add uid u d s) = Add uid u d (contents s)"
proof (cases "map_of (table s) uid")
  case (Some a)
  have "contents (heap_Add uid u d s)
      = map (\<lambda>(k, a'). (k, ((cells s)(a := tadd (cells s a) (u, d))) a')) (table s)"
    using Some by (simp add: heap_Add_def Add_lookup_def Add_upload_def Add_download_def contents_def
        tadd_def)
  also have "\<dots> = AList.update uid (tadd (cells s a) (u, d)) (contents s)"
    using update_map_value [OF _ _ Some, of "tadd (cells s a) (u, d)" "cells s"] assms
    by (simp add: heap_ok_def contents_def)
  finally show ?thesis using Some by (simp add: Add_def amount_def map_of_contents)
next
  case None
  then have fresh: "uid \<notin> fst ` set (table s)" by (simp add: map_of_eq_None_iff)
  have old: "a \<noteq> nextCell s" if "(k, a) \<in> set (table s)" for k a
    using assms that by (auto simp: heap_ok_def)
  have "contents (heap_Add uid u d s) = contents s @ [(uid, tadd (0, 0) (u, d))]"
    using None old
    by (auto simp: heap_Add_def Add_lookup_def Add_upload_def Add_download_def contents_def Let_def
        tadd_def update_fresh [OF fresh] intro!: map_cong)
  also have "\<dots> = Add uid u d (contents s)"
  proof -
    have "uid \<notin> fst ` set (contents s)" using fresh by (force simp: contents_def)
    moreover have "amount (contents s) uid = (0, 0)" using None by (simp add: amount_def map_of_contents)
    ultimately show ?thesis by (simp add: Add_def update_fresh)
  qed
  finally show ?thesis .
qed

lemma heap_Add_ok:
  assumes "heap_ok s"
  shows "heap_ok (heap_Add uid u d s)"
proof (cases "map_of (table s) uid")
  case (Some a)
  with assms show ?thesis
    by (auto simp: heap_Add_def Add_lookup_def Add_upload_def Add_download_def heap_ok_def
        int64_pair_def in_int64_wrap64)
next
  case None
  then have fresh: "uid \<notin> fst ` set (table s)" by (simp add: map_of_eq_None_iff)
  from assms have "nextCell s \<notin> snd ` set (table s)" by (auto simp: heap_ok_def)
  with assms fresh None show ?thesis
    by (auto simp: heap_Add_def Add_lookup_def Add_upload_def Add_download_def heap_ok_def Let_def
        update_fresh [OF fresh] int64_pair_def in_int64_wrap64 image_iff)
qed

interpretation lh: ledger heap_ok "\<lambda>s. amount (contents s)" "\<lambda>k x. heap_Add k (fst x) (snd x)"
  heap_Snapshot
proof unfold_locales
  fix s :: heap_counter and k j :: int and x :: traffic
  assume ok: "heap_ok s"
  note cok = contents_ok [OF ok]
  show "heap_ok (heap_Add k (fst x) (snd x) s)" using ok by (rule heap_Add_ok)
  show "amount (contents (heap_Add k (fst x) (snd x) s)) j =
      (if j = k then tadd (amount (contents s) k) x else amount (contents s) j)"
    using lc.bal_add [OF cok, of k x j] by (simp add: heap_Add_contents [OF ok])
  show "heap_ok (fst (heap_Snapshot s))"
    using ok by (auto simp: heap_Snapshot_def heap_ok_def Let_def distinct_map_filter)
  show "amount (contents (fst (heap_Snapshot s))) k = (0, 0)"
    by (simp add: heap_Snapshot_contents Snapshot_def amount_def)
  show "distinct (map fst (snd (heap_Snapshot s)))"
    unfolding heap_Snapshot_contents by (rule lc.drained(1) [OF cok])
  show "map_of (snd (heap_Snapshot s)) k =
      (if positive (amount (contents s) k) then Some (amount (contents s) k) else None)"
    unfolding heap_Snapshot_contents by (rule lc.drained(2) [OF cok])
qed


section \<open>Claims\<close>

text \<open>A snapshot empties every account, and merging it back after a failed report restores every
  account exactly, in whatever order the map is visited and whatever has been counted in between:
  no byte is lost and none is counted twice.\<close>

lemma snapshot_merge:
  assumes "counter_ok c" and "counter_ok c'" and "mset es = mset (snd (Snapshot c))"
    and "no_debt c"
  shows "amount (fst (Snapshot c)) uid = (0, 0)
    \<and> amount (Merge es c') uid = tadd (amount c' uid) (amount c uid)"
  using lc.bal_drain [OF assms(1)] Merge_snapshot [OF assms(1,2,4,3)] by simp

text \<open>The counter with its shared cells implements the counter: the steps of an \<open>Add\<close> that no
  other call interrupts, and a \<open>Snapshot\<close>, do to the contents what the sequential operations do,
  and keep every user's cell its own.\<close>

lemma heap_counter_refines:
  assumes "heap_ok s"
  shows "contents (heap_Add uid u d s) = Add uid u d (contents s)
    \<and> contents (fst (heap_Snapshot s)) = fst (Snapshot (contents s))
    \<and> snd (heap_Snapshot s) = snd (Snapshot (contents s))
    \<and> heap_ok (heap_Add uid u d s) \<and> heap_ok (fst (heap_Snapshot s))"
  using heap_Add_contents [OF assms] heap_Snapshot_contents heap_Add_ok [OF assms]
    lh.ok_drain [OF assms] by simp

definition empty_heap :: heap_counter where
  "empty_heap = \<lparr>table = [], cells = (\<lambda>_. (0, 0)), nextCell = 0\<rparr>"

lemma empty_heap_ok: "heap_ok empty_heap"
  by (simp add: heap_ok_def empty_heap_def)

lemma Add_lookup_contents:
  assumes "heap_ok s" and "Add_lookup uid s = (s1, a)"
  shows "amount (contents s1) j = amount (contents s) j"
    "filter (\<lambda>(uid, t). positive t) (contents s1) = filter (\<lambda>(uid, t). positive t) (contents s)"
proof -
  have "contents s1 = (if uid \<in> fst ` set (table s) then contents s else contents s @ [(uid, (0, 0))])"
  proof (cases "map_of (table s) uid")
    case (Some b)
    then have "uid \<in> fst ` set (table s)" by (metis map_of_SomeD imageI fst_conv)
    with Some assms(2) show ?thesis by (simp add: Add_lookup_def)
  next
    case None
    then have fresh: "uid \<notin> fst ` set (table s)" by (simp add: map_of_eq_None_iff)
    have "k \<noteq> nextCell s" if "(i, k) \<in> set (table s)" for i k
      using assms(1) that by (auto simp: heap_ok_def)
    with None fresh assms(2) show ?thesis
      by (auto simp: Add_lookup_def Let_def contents_def update_fresh [OF fresh] intro!: map_cong)
  qed
  moreover have "amount (contents s) uid = (0, 0)" if "uid \<notin> fst ` set (table s)"
    using that by (simp add: amount_def map_of_contents flip: map_of_eq_None_iff)
  ultimately show "amount (contents s1) j = amount (contents s) j"
    "filter (\<lambda>(uid, t). positive t) (contents s1) = filter (\<lambda>(uid, t). positive t) (contents s)"
    by (auto simp: amount_def positive_def map_add_def comp_def split: option.splits if_splits)
qed

text \<open>C40: Traffic is lost if a snapshot comes between the lookup of an \<open>Add\<close> and its additions: the
  snapshot has what was there before, all accounts are then empty, and they are still empty after
  the additions, which went to a cell that no account has any more.\<close>

theorem interrupted_Add_lost:
  assumes "heap_ok s" and "Add_lookup uid s = (s1, a)" and "heap_Snapshot s1 = (s2, snap)"
  shows "amount (contents (Add_download a d (Add_upload a u s2))) j = (0, 0)
    \<and> snap = snd (Snapshot (contents s))"
proof -
  have "contents s2 = fst (Snapshot (contents s1))" "snap = snd (Snapshot (contents s1))"
    using heap_Snapshot_contents [of s1] assms(3) by simp_all
  then have "table s2 = []" by (simp add: Snapshot_def contents_def)
  then have "contents (Add_download a d (Add_upload a u s2)) = []"
    by (simp add: contents_def Add_download_def Add_upload_def)
  moreover have "snap = snd (Snapshot (contents s))"
    using \<open>snap = _\<close> Add_lookup_contents(2) [OF assms(1,2)] by (simp add: Snapshot_def)
  ultimately show ?thesis by (simp add: amount_def)
qed

theorem interrupted_Add_lost_witness:
  "\<exists>s1 a s2. Add_lookup 7 empty_heap = (s1, a) \<and> heap_Snapshot s1 = (s2, [])
     \<and> amount (contents (Add_download a 50 (Add_upload a 60 s2))) 7 = (0, 0)"
proof -
  obtain s1 a where l: "Add_lookup 7 empty_heap = (s1, a)" by (metis prod.collapse)
  obtain s2 snap where t: "heap_Snapshot s1 = (s2, snap)" by (metis prod.collapse)
  from interrupted_Add_lost [OF empty_heap_ok l t, of 50 60 7] l t show ?thesis
    by (auto simp: Snapshot_def contents_def empty_heap_def)
qed

text \<open>\<open>encoding/json\<close> gives back what it wrote, for data without duplicate keys.\<close>

definition json_ok :: "(persistedData \<Rightarrow> go_error + 'f) \<Rightarrow> ('f \<Rightarrow> go_error + persistedData) \<Rightarrow> bool" where
  "json_ok marshal unmarshal \<longleftrightarrow>
     (\<forall>pd. distinct (map fst (Data pd)) \<longrightarrow>
        (\<exists>b pd'. marshal pd = Inr b \<and> unmarshal b = Inr pd' \<and> mset (Data pd') = mset (Data pd)))"

lemma from_persist_keys:
  assumes "\<forall>(uid, t) \<in> set es. in_int64 uid"
  shows "map_of (from_persist (map (\<lambda>(uid, t). (itoa uid, t)) es)) = map_of es
    \<and> (distinct (map fst es) \<longrightarrow>
        distinct (map fst (from_persist (map (\<lambda>(uid, t). (itoa uid, t)) es))))"
  using assms
proof (induction es)
  case (Cons e es)
  obtain uid t where "e = (uid, t)" by (cases e)
  with Cons show ?case by (simp add: atoi_itoa update_conv' distinct_update)
qed simp

lemma distinct_from_persist: "distinct (map fst (from_persist d))"
  by (induction d rule: from_persist.induct) (simp_all add: distinct_update split: option.split)

lemma mset_map_split:
  "mset xs = mset (map f ys) \<Longrightarrow> \<exists>zs. mset zs = mset ys \<and> xs = map f zs"
proof (induction xs arbitrary: ys)
  case (Cons x xs)
  then have "x \<in> set (map f ys)" by (metis list.set_intros(1) set_mset_mset)
  then obtain y where "y \<in> set ys" "x = f y" by auto
  then obtain us vs where y: "ys = us @ y # vs" "x = f y" by (metis split_list)
  with Cons.prems have "mset xs = mset (map f (us @ vs))" by simp
  from Cons.IH [OF this] obtain zs where "mset zs = mset (us @ vs)" "xs = map f zs" by blast
  with y show ?case by (intro exI [of _ "y # zs"]) simp
qed simp

text \<open>Traffic survives a restart: what \<open>SaveToFile\<close> writes, \<open>LoadFromFile\<close> adds to the accounts of
  the next process, for every user and both directions, and nothing is written when there is
  nothing to save.\<close>

lemma save_load:
  assumes "counter_ok c" and "counter_ok c'" and "json_ok marshal unmarshal"
    and "\<And>b. write b = (Present b, None)"
    and "no_debt c" and "\<forall>(uid, t) \<in> set c. in_int64 uid"
  shows "\<exists>f' c''. SaveToFile marshal write now c f = (f', None)
    \<and> LoadFromFile unmarshal f' c' = (c'', None)
    \<and> amount c'' uid = tadd (amount c' uid) (amount c uid)
    \<and> (f' = Absent \<longleftrightarrow> snd (Snapshot c) = [])"
proof (cases "to_persist c = []")
  case True
  then have empty: "snd (Snapshot c) = []" by (simp add: to_persist_def Snapshot_def)
  then have "mset [] = mset (snd (Snapshot c))" by simp
  from Merge_snapshot [OF assms(1,2,5) this, of uid]
  have "amount c' uid = tadd (amount c' uid) (amount c uid)" by (simp add: Merge_def)
  with True empty show ?thesis by (simp add: SaveToFile_def LoadFromFile_def)
next
  case False
  let ?snap = "snd (Snapshot c)"
  have p: "to_persist c = map (\<lambda>(uid, t). (itoa uid, t)) ?snap"
    by (simp add: to_persist_def Snapshot_def)
  have small: "\<forall>(uid, t) \<in> set ?snap. in_int64 uid"
    using assms(6) by (auto simp: Snapshot_def)
  have ds: "distinct (map fst ?snap)" by (rule lc.drained(1) [OF assms(1)])
  have "inj_on itoa (fst ` set ?snap)"
    using small by (intro inj_onI) (metis (no_types, lifting) case_prodD imageE itoa_inj prod.collapse)
  then have dp: "distinct (map fst (to_persist c))"
    using ds comp_inj_on [of fst "set ?snap" itoa]
    unfolding p by (simp add: distinct_map comp_def case_prod_beta)
  have "\<exists>b pd. marshal \<lparr>Timestamp = now, Data = to_persist c\<rparr> = Inr b
      \<and> unmarshal b = Inr pd \<and> mset (Data pd) = mset (to_persist c)"
    using assms(3) [unfolded json_ok_def, rule_format, of "\<lparr>Timestamp = now, Data = to_persist c\<rparr>"]
      dp by auto
  then obtain b pd where b: "marshal \<lparr>Timestamp = now, Data = to_persist c\<rparr> = Inr b"
    "unmarshal b = Inr pd" "mset (Data pd) = mset (to_persist c)"
    by blast
  obtain es where es: "mset es = mset ?snap" "Data pd = map (\<lambda>(uid, t). (itoa uid, t)) es"
    using mset_map_split [OF b(3) [unfolded p]] by blast
  have des: "distinct (map fst es)" using ds es(1) by (metis mset_eq_imp_distinct_iff mset_map)
  have "\<forall>(uid, t) \<in> set es. in_int64 uid" using small es(1) by (metis set_mset_mset)
  from from_persist_keys [OF this] des have "mset (from_persist (Data pd)) = mset es"
    unfolding es(2) by (intro same_entries) simp_all
  then have "mset (from_persist (Data pd)) = mset ?snap" using es(1) by simp
  from Merge_snapshot [OF assms(1,2,5) this, of uid] False b(1,2) assms(4) p
  show ?thesis by (auto simp: SaveToFile_def LoadFromFile_def)
qed

end
