(* ===== verification/SysInfo.thy ===== *)
theory SysInfo
  imports Prelude
begin

text \<open>
  \<^verbatim>\<open>internal/server/sysinfo.go\<close> with the types it fills (\<^verbatim>\<open>internal/api/push.go\<close>): the
  load of the machine as the panel is told it. The measurements are gopsutil's and an argument;
  a \<open>float64\<close> is its 64 bits.
\<close>

type_synonym float64 = u64

text \<open>JSON has no infinity and no NaN: \<open>json.Marshal\<close> refuses a value whose exponent is all ones.\<close>

definition json_float :: "float64 \<Rightarrow> bool" where
  "json_float x \<longleftrightarrow> unat (drop_bit 52 x) mod 2048 \<noteq> 2047"

record ResourceUsage =
  Total :: int
  Used :: int

record NodeStatus =
  CPU :: float64
  Mem :: ResourceUsage
  Swap :: ResourceUsage
  Disk :: ResourceUsage

text \<open>What gopsutil answers, \<open>None\<close> for an error: the load of the processors, and total and used bytes
  of memory, swap and the file system of a path.\<close>

record metrics =
  cpu_Percent :: "float64 list option"
  mem_VirtualMemory :: "(u64 \<times> u64) option"
  mem_SwapMemory :: "(u64 \<times> u64) option"
  disk_Usage :: "string \<Rightarrow> (u64 \<times> u64) option"

datatype sysinfo_error = NoCPU | NoMemory | NoSwap | NoDisk

text \<open>The conversion \<open>int64(x)\<close> of a \<open>uint64\<close> keeps the bits.\<close>

definition usage :: "u64 \<times> u64 \<Rightarrow> ResourceUsage" where
  "usage m = \<lparr>Total = sint (fst m), Used = sint (snd m)\<rparr>"

definition collectSystemInfo :: "metrics \<Rightarrow> sysinfo_error + NodeStatus" where
  "collectSystemInfo m =
     (let status = \<lparr>CPU = 0, Mem = \<lparr>Total = 0, Used = 0\<rparr>, Swap = \<lparr>Total = 0, Used = 0\<rparr>,
                    Disk = \<lparr>Total = 0, Used = 0\<rparr>\<rparr>
      in case cpu_Percent m of
           None \<Rightarrow> Inl NoCPU
         | Some cpuPercent \<Rightarrow>
             (let status = (if cpuPercent \<noteq> [] then status\<lparr>CPU := cpuPercent ! 0\<rparr> else status)
              in case mem_VirtualMemory m of
                   None \<Rightarrow> Inl NoMemory
                 | Some vmStat \<Rightarrow>
                     (case mem_SwapMemory m of
                        None \<Rightarrow> Inl NoSwap
                      | Some swapStat \<Rightarrow>
                          (case disk_Usage m ''/'' of
                             None \<Rightarrow> Inl NoDisk
                           | Some diskStat \<Rightarrow>
                               Inr (status\<lparr>Mem := usage vmStat, Swap := usage swapStat,
                                           Disk := usage diskStat\<rparr>)))))"

text \<open>A quantity is reported as it was measured exactly below 8 EiB, and as a negative number from there.\<close>

lemma usage_exact:
  "Total (usage (t, u)) = uint t \<longleftrightarrow> uint t < 2 ^ 63"
  "Total (usage (t, u)) < 0 \<longleftrightarrow> 2 ^ 63 \<le> uint t"
proof -
  have lt: "uint t < 2 ^ 64" using uint_lt2p [of t] by simp
  have s: "sint t = (if uint t < 2 ^ 63 then uint t else uint t - 2 ^ 64)"
  proof -
    have "sint t = (uint t + 2 ^ 63) mod 2 ^ 64 - 2 ^ 63"
      by (simp add: sint_uint signed_take_bit_eq_take_bit_shift take_bit_eq_mod)
    moreover have "0 \<le> uint t" by simp
    ultimately show ?thesis
      using lt mod_pos_geq [of "2 ^ 64" "uint t + 2 ^ 63"] by (cases "uint t < 2 ^ 63") auto
  qed
  show "Total (usage (t, u)) = uint t \<longleftrightarrow> uint t < 2 ^ 63"
    "Total (usage (t, u)) < 0 \<longleftrightarrow> 2 ^ 63 \<le> uint t"
    using lt by (simp_all add: usage_def s)
qed

text \<open>All or nothing: a status comes out exactly when all four measurements did.\<close>

lemma collectSystemInfo_whole:
  "(\<exists>st. collectSystemInfo m = Inr st) \<longleftrightarrow>
     cpu_Percent m \<noteq> None \<and> mem_VirtualMemory m \<noteq> None \<and> mem_SwapMemory m \<noteq> None \<and> disk_Usage m ''/'' \<noteq> None"
  by (simp add: collectSystemInfo_def Let_def split: option.split)

end
