(* ===== verification/Api.thy ===== *)
theory Api
  imports Users Traffic Padding SysInfo
begin

text \<open>
  \<^verbatim>\<open>internal/api\<close>: the client of the panel. The panel is an argument \<open>fn\<close>, the outcome
  of the \<open>i\<close>-th request of a call; the JSON decoders are arguments. A call returns the waits between
  its attempts (in seconds) with its result; it has made one more attempt than it waited.
\<close>

datatype api_error = NetworkError | ServerError int | ReadError | BadJson | StatusError int | NotMarshalled

record 'b response =
  status :: int
  etag :: string
  body :: "'b option"

type_synonym 'b attempt = "api_error + 'b response"

section \<open>Retries\<close>

definition retryDelays :: "nat list" where
  "retryDelays = [1, 2, 4]"

fun retry_loop :: "(nat \<Rightarrow> 'b attempt) \<Rightarrow> nat \<Rightarrow> nat list \<Rightarrow> nat list \<times> 'b attempt" where
  "retry_loop fn i ds =
     (let again = (\<lambda>lastErr. case ds of
            [] \<Rightarrow> ([], Inl lastErr)
          | d # ds' \<Rightarrow> (case retry_loop fn (Suc i) ds' of (ws, r) \<Rightarrow> (d # ws, r)))
      in case fn i of
           Inl e \<Rightarrow> again e
         | Inr resp \<Rightarrow>
             (if status resp \<ge> 400 \<and> status resp < 500 then ([], Inr resp)
              else if status resp \<ge> 500 then again (ServerError (status resp))
              else ([], Inr resp)))"

declare retry_loop.simps [simp del]

definition doWithRetry :: "(nat \<Rightarrow> 'b attempt) \<Rightarrow> nat list \<times> 'b attempt" where
  "doWithRetry fn = retry_loop fn 0 retryDelays"

text \<open>The outcomes that end the retrying: any answer below 500.\<close>

definition settled :: "'b attempt \<Rightarrow> bool" where
  "settled r = (case r of Inl e \<Rightarrow> False | Inr resp \<Rightarrow> status resp < 500)"

definition as_error :: "'b attempt \<Rightarrow> api_error" where
  "as_error r = (case r of Inl e \<Rightarrow> e | Inr resp \<Rightarrow> ServerError (status resp))"

lemma retry_loop_settled: "settled (fn i) \<Longrightarrow> retry_loop fn i ds = ([], fn i)"
  by (subst retry_loop.simps) (auto simp: settled_def split: sum.splits)

lemma retry_loop_again:
  "\<not> settled (fn i) \<Longrightarrow> retry_loop fn i [] = ([], Inl (as_error (fn i)))"
  "\<not> settled (fn i) \<Longrightarrow> retry_loop fn i (d # ds) =
     (case retry_loop fn (Suc i) ds of (ws, r) \<Rightarrow> (d # ws, r))"
  by (subst retry_loop.simps, auto simp: settled_def as_error_def split: sum.splits)+

lemma retry_loop_first:
  "(\<And>j. i \<le> j \<Longrightarrow> j < i + k \<Longrightarrow> \<not> settled (fn j)) \<Longrightarrow> settled (fn (i + k)) \<Longrightarrow> k \<le> length ds \<Longrightarrow>
   retry_loop fn i ds = (take k ds, fn (i + k))"
proof (induction k arbitrary: i ds)
  case 0
  then show ?case by (simp add: retry_loop_settled)
next
  case (Suc k)
  then obtain d ds' where ds: "ds = d # ds'" by (cases ds) auto
  have "\<not> settled (fn i)" using Suc.prems(1) [of i] by simp
  moreover have "retry_loop fn (Suc i) ds' = (take k ds', fn (Suc i + k))"
    using Suc.prems ds by (intro Suc.IH) auto
  ultimately show ?case by (simp add: ds retry_loop_again)
qed

lemma retry_loop_none:
  "(\<And>j. i \<le> j \<Longrightarrow> j \<le> i + length ds \<Longrightarrow> \<not> settled (fn j)) \<Longrightarrow>
   retry_loop fn i ds = (ds, Inl (as_error (fn (i + length ds))))"
proof (induction ds arbitrary: i)
  case Nil
  then show ?case using retry_loop_again(1) [of fn i] by simp
next
  case (Cons d ds)
  have "\<not> settled (fn i)" using Cons.prems [of i] by simp
  moreover have "retry_loop fn (Suc i) ds = (ds, Inl (as_error (fn (Suc i + length ds))))"
    using Cons.prems by (intro Cons.IH) auto
  ultimately show ?case by (simp add: retry_loop_again)
qed

lemma retry_cases:
  obtains (settled) k where "k \<le> 3" "\<forall>j < k. \<not> settled (fn j)" "settled (fn k)"
      "doWithRetry fn = (take k [1, 2, 4], fn k)"
    | (exhausted) "\<forall>j \<le> 3. \<not> settled (fn j)" "doWithRetry fn = ([1, 2, 4], Inl (as_error (fn 3)))"
proof (cases "\<exists>k \<le> 3. settled (fn k)")
  case True
  define k where "k = (LEAST k. settled (fn k))"
  from True have k: "settled (fn k)" "k \<le> 3"
    unfolding k_def by (metis LeastI, metis Least_le order_trans)
  have before: "\<forall>j < k. \<not> settled (fn j)" unfolding k_def using not_less_Least by blast
  have "doWithRetry fn = (take k [1, 2, 4], fn k)"
    using retry_loop_first [of 0 k fn retryDelays] before k
    by (simp add: doWithRetry_def retryDelays_def)
  with k before show ?thesis by (intro settled) auto
next
  case False
  then have "doWithRetry fn = ([1, 2, 4], Inl (as_error (fn 3)))"
    using retry_loop_none [of 0 retryDelays fn]
    by (simp add: doWithRetry_def retryDelays_def numeral_3_eq_3)
  with False show ?thesis by (intro exhausted) auto
qed

section \<open>The endpoints\<close>

record NodeConfig =
  ServerPort :: int
  ServerName :: string
  PaddingScheme :: "string list"
  PushInterval :: int
  PullInterval :: int

definition PaddingSchemeToBytes :: "string list \<Rightarrow> bytes" where
  "PaddingSchemeToBytes sch = bytes_of (join CHR ''\<newline>'' sch)"

text \<open>Reading and decoding the body of an answer, whatever its status.\<close>

definition decode_body :: "('b \<Rightarrow> 'a option) \<Rightarrow> 'b response \<Rightarrow> api_error + 'a" where
  "decode_body unmarshal resp =
     (case body resp of
        None \<Rightarrow> Inl ReadError
      | Some b \<Rightarrow> (case unmarshal b of None \<Rightarrow> Inl BadJson | Some x \<Rightarrow> Inr x))"

text \<open>\<open>FetchConfig\<close> also stores a new scheme into the process-wide cell.\<close>

definition FetchConfig ::
    "(bytes \<Rightarrow> string) \<Rightarrow> ('b \<Rightarrow> NodeConfig option) \<Rightarrow> (nat \<Rightarrow> 'b attempt) \<Rightarrow> PaddingFactory \<Rightarrow>
     PaddingFactory \<times> (api_error + NodeConfig)" where
  "FetchConfig md5 unmarshal fn cell =
     (case snd (doWithRetry fn) of
        Inl e \<Rightarrow> (cell, Inl e)
      | Inr resp \<Rightarrow>
          (case decode_body unmarshal resp of
             Inl e \<Rightarrow> (cell, Inl e)
           | Inr cfg \<Rightarrow>
               ((if PaddingScheme cfg \<noteq> []
                 then fst (UpdatePaddingScheme md5 (PaddingSchemeToBytes (PaddingScheme cfg)) cell)
                 else cell), Inr cfg)))"

text \<open>\<open>FetchUsers\<close>: the tag kept by the client goes in and comes out; the panel sees it in the
  request. The list is \<open>None\<close> where the code returns \<open>nil\<close>.\<close>

definition FetchUsers ::
    "('b \<Rightarrow> user list option option) \<Rightarrow> (string option \<Rightarrow> nat \<Rightarrow> 'b attempt) \<Rightarrow> string \<Rightarrow>
     string \<times> (api_error + user list option)" where
  "FetchUsers unmarshal panel userETag =
     (case snd (doWithRetry (panel (if userETag \<noteq> '''' then Some userETag else None))) of
        Inl e \<Rightarrow> (userETag, Inl e)
      | Inr resp \<Rightarrow>
          (if status resp = 304 then (userETag, Inr None)
           else (case decode_body unmarshal resp of
                   Inl e \<Rightarrow> (userETag, Inl e)
                 | Inr users \<Rightarrow>
                     ((if etag resp \<noteq> '''' then etag resp else userETag), Inr users))))"

text \<open>The three reports: an error unless the panel answers 200. Nothing is sent for an empty map.\<close>

definition push_result :: "(nat \<Rightarrow> 'b attempt) \<Rightarrow> api_error option" where
  "push_result fn =
     (case snd (doWithRetry fn) of
        Inl e \<Rightarrow> Some e
      | Inr resp \<Rightarrow> if status resp \<noteq> 200 then Some (StatusError (status resp)) else None)"

definition PushTraffic ::
    "((string \<times> traffic) list \<Rightarrow> nat \<Rightarrow> 'b attempt) \<Rightarrow> (int \<times> traffic) list \<Rightarrow> api_error option" where
  "PushTraffic panel d =
     (if d = [] then None
      else push_result (panel (map (\<lambda>(uid, t). (itoa uid, t)) d)))"

definition PushAlive ::
    "((string \<times> string list) list \<Rightarrow> nat \<Rightarrow> 'b attempt) \<Rightarrow> (int \<times> string list) list \<Rightarrow>
     api_error option" where
  "PushAlive panel d =
     (if d = [] then None
      else push_result (panel (map (\<lambda>(uid, ips). (itoa uid, ips)) d)))"

text \<open>A load that JSON has no number for is not sent.\<close>

definition PushStatus :: "(NodeStatus \<Rightarrow> nat \<Rightarrow> 'b attempt) \<Rightarrow> NodeStatus \<Rightarrow> api_error option" where
  "PushStatus panel st =
     (if \<not> json_float (CPU st) then Some NotMarshalled else push_result (panel st))"

definition FetchAliveList ::
    "('b \<Rightarrow> (string \<times> int) list option) \<Rightarrow> (nat \<Rightarrow> 'b attempt) \<Rightarrow> api_error + (int \<rightharpoonup> int)" where
  "FetchAliveList unmarshal fn =
     (case snd (doWithRetry fn) of
        Inl e \<Rightarrow> Inl e
      | Inr resp \<Rightarrow>
          (case decode_body unmarshal resp of
             Inl e \<Rightarrow> Inl e
           | Inr alive \<Rightarrow>
               Inr (fold (\<lambda>(k, n) m. case atoi k of None \<Rightarrow> m | Some uid \<Rightarrow> m(uid \<mapsto> n))
                     alive Map.empty)))"

section \<open>Claims\<close>

text \<open>A call makes at most four attempts, waiting 1, 2 and 4 seconds; it stops at the first answer
  below 500, client errors included, and returns that answer; only if all four attempts fail does it
  return an error, the last one.\<close>

lemma doWithRetry_first_answer:
  "(\<exists>k \<le> 3. (\<forall>j < k. \<not> settled (fn j)) \<and> settled (fn k) \<and> doWithRetry fn = (take k [1, 2, 4], fn k))
   \<or> ((\<forall>j \<le> 3. \<not> settled (fn j)) \<and> doWithRetry fn = ([1, 2, 4], Inl (as_error (fn 3))))"
  by (cases rule: retry_cases [of fn]) auto


text \<open>The first part of \<open>doPull\<close> in \<^verbatim>\<open>internal/server/sync.go\<close>: the client's tag
  and the table of users.\<close>

definition pull_users ::
    "(bytes \<Rightarrow> bytes) \<Rightarrow> ('b \<Rightarrow> user list option option) \<Rightarrow> (string option \<Rightarrow> nat \<Rightarrow> 'b attempt) \<Rightarrow>
     string \<times> UserTable \<Rightarrow> string \<times> UserTable" where
  "pull_users sha unmarshal panel st =
     (case FetchUsers unmarshal panel (fst st) of
        (tag', Inr (Some us)) \<Rightarrow> (tag', UpdateUsers sha us)
      | (tag', _) \<Rightarrow> (tag', snd st))"

text \<open>A panel that holds the list \<open>us\<close> and follows HTTP: its answers, where it gives one, are 304
  for the tag of the list and the list with its tag otherwise; one of four attempts is answered.\<close>

definition http_panel ::
    "(user list \<Rightarrow> string) \<Rightarrow> ('b \<Rightarrow> user list option option) \<Rightarrow> user list \<Rightarrow>
     (string option \<Rightarrow> nat \<Rightarrow> 'b attempt) \<Rightarrow> bool" where
  "http_panel tagof unmarshal us panel \<longleftrightarrow>
     (\<forall>t. (\<exists>i \<le> 3. settled (panel t i))
        \<and> (\<forall>i resp. panel t i = Inr resp \<and> status resp < 500 \<longrightarrow>
             (if t = Some (tagof us) then status resp = 304
              else status resp = 200 \<and> etag resp = tagof us
                \<and> (\<exists>b. body resp = Some b \<and> unmarshal b = Some (Some us)))))"

text \<open>The client has no tag yet, or the tag and the table of the list \<open>us0\<close>.\<close>

definition in_sync ::
    "(user list \<Rightarrow> string) \<Rightarrow> (bytes \<Rightarrow> bytes) \<Rightarrow> user list \<Rightarrow> string \<times> UserTable \<Rightarrow> bool" where
  "in_sync tagof sha us0 st \<longleftrightarrow>
     fst st = '''' \<or> (fst st = tagof us0 \<and> snd st = UpdateUsers sha us0)"

lemma http_panel_answer:
  assumes "http_panel tagof unmarshal us panel"
  obtains resp where "snd (doWithRetry (panel t)) = Inr resp"
    "if t = Some (tagof us) then status resp = 304
     else status resp = 200 \<and> etag resp = tagof us
       \<and> (\<exists>b. body resp = Some b \<and> unmarshal b = Some (Some us))"
proof (cases rule: retry_cases [of "panel t"])
  case (settled k)
  then obtain resp where "panel t k = Inr resp" "status resp < 500"
    by (auto simp: settled_def split: sum.splits)
  with assms settled(4) that show ?thesis by (simp add: http_panel_def)
next
  case exhausted
  with assms show ?thesis by (auto simp: http_panel_def)
qed

text \<open>C29: The user table follows the panel: whatever list it was built from before, after a pull that
  the panel answers the table is the one of the panel's current list and the tag is that list's,
  also when the panel only says that nothing has changed; the next pull starts in the same position.
  A changed list must have a changed tag.\<close>

theorem pull_users_sync:
  assumes "in_sync tagof sha us0 st" and "tagof us = tagof us0 \<Longrightarrow> us = us0" and "tagof us \<noteq> ''''"
    and "http_panel tagof unmarshal us panel"
  shows "pull_users sha unmarshal panel st = (tagof us, UpdateUsers sha us)
    \<and> in_sync tagof sha us (pull_users sha unmarshal panel st)"
proof -
  let ?t = "if fst st \<noteq> '''' then Some (fst st) else None"
  obtain resp where r: "snd (doWithRetry (panel ?t)) = Inr resp"
    "if ?t = Some (tagof us) then status resp = 304
     else status resp = 200 \<and> etag resp = tagof us
       \<and> (\<exists>b. body resp = Some b \<and> unmarshal b = Some (Some us))"
    by (rule http_panel_answer [OF assms(4)])
  show ?thesis
  proof (cases "fst st = tagof us")
    case True
    then have "snd st = UpdateUsers sha us"
      using assms(1-3) by (auto simp: in_sync_def)
    with True assms(3) r show ?thesis
      by (simp add: pull_users_def FetchUsers_def prod_eq_iff in_sync_def)
  next
    case False
    then have "?t \<noteq> Some (tagof us)" by (auto split: if_splits)
    with r assms(3) show ?thesis
      by (auto simp: pull_users_def FetchUsers_def decode_body_def in_sync_def)
  qed
qed

definition sample_users :: "user list" where
  "sample_users = [\<lparr>user_ID = 7, user_UUID = ''secret'', user_SpeedLimit = None,
     user_DeviceLimit = Some 2\<rparr>]"

definition sample_tag :: "user list \<Rightarrow> string" where
  "sample_tag us = (if us = [] then ''empty'' else ''some'')"

definition sample_panel :: "string option \<Rightarrow> nat \<Rightarrow> user list attempt" where
  "sample_panel t i =
     (if i = 0 then Inl NetworkError
      else if t = Some ''some'' then Inr \<lparr>status = 304, etag = '''', body = Some []\<rparr>
      else Inr \<lparr>status = 200, etag = ''some'', body = Some sample_users\<rparr>)"

theorem pull_users_sync_witness:
  "pull_users (\<lambda>b. b) (\<lambda>b. Some (Some b)) sample_panel (''empty'', UpdateUsers (\<lambda>b. b) [])
   = (''some'', UpdateUsers (\<lambda>b. b) sample_users)"
proof -
  have t: "sample_tag sample_users = ''some''" by (simp add: sample_tag_def sample_users_def)
  have "in_sync sample_tag (\<lambda>b. b) [] (''empty'', UpdateUsers (\<lambda>b. b) [])"
    by (simp add: in_sync_def sample_tag_def)
  moreover have "sample_tag sample_users = sample_tag [] \<Longrightarrow> sample_users = []"
    by (simp add: t) (simp add: sample_tag_def)
  moreover have "http_panel sample_tag (\<lambda>b. Some (Some b)) sample_users sample_panel"
    unfolding http_panel_def t
    by (intro allI conjI) (rule exI [of _ 1], auto simp: settled_def sample_panel_def split: if_splits)
  moreover have "sample_tag sample_users \<noteq> ''''" by (simp add: t)
  ultimately show ?thesis
    using pull_users_sync [of sample_tag "\<lambda>b. b" "[]" _ sample_users] unfolding t by blast
qed

end
