(* ===== verification/ConnLimiter.thy ===== *)
theory ConnLimiter
  imports Prelude
begin

text \<open>
  \<^verbatim>\<open>internal/ratelimit/conn.go\<close>: the ban of addresses that fail to authenticate.
  A time is the number of nanoseconds since the process started; the zero \<open>time.Time\<close> of
  \<open>bannedAt\<close> is \<open>None\<close>. Every operation takes the value \<open>time.Now()\<close> returned in it.
\<close>

definition maxFailures :: int where
  "maxFailures = 10"

definition failWindow :: int where
  "failWindow = 60 * 10 ^ 9"

definition banDuration :: int where
  "banDuration = 5 * 60 * 10 ^ 9"

lemmas limiter_consts = maxFailures_def failWindow_def banDuration_def

record failureRecord =
  failCount :: int
  firstFail :: int
  bannedAt :: "int option"

type_synonym conn_limiter = "string \<Rightarrow> failureRecord option"

definition NewConnRateLimiter :: conn_limiter where
  "NewConnRateLimiter = Map.empty"

definition RecordFailure :: "string \<Rightarrow> int \<Rightarrow> conn_limiter \<Rightarrow> conn_limiter" where
  "RecordFailure ip now r =
     (case r ip of
        None \<Rightarrow> r(ip \<mapsto> \<lparr>failCount = 1, firstFail = now, bannedAt = None\<rparr>)
      | Some rec \<Rightarrow>
          (if bannedAt rec \<noteq> None then r
           else if now - firstFail rec > failWindow then
             r(ip \<mapsto> rec\<lparr>failCount := 1, firstFail := now\<rparr>)
           else
             (let rec' = rec\<lparr>failCount := failCount rec + 1\<rparr>
              in r(ip \<mapsto> (if failCount rec' > maxFailures then rec'\<lparr>bannedAt := Some now\<rparr>
                          else rec')))))"

definition IsBanned :: "string \<Rightarrow> int \<Rightarrow> conn_limiter \<Rightarrow> conn_limiter \<times> bool" where
  "IsBanned ip now r =
     (case r ip of
        None \<Rightarrow> (r, False)
      | Some rec \<Rightarrow>
          (case bannedAt rec of
             None \<Rightarrow> (r, False)
           | Some t \<Rightarrow> if now - t > banDuration then (r(ip := None), False) else (r, True)))"

definition expired :: "int \<Rightarrow> failureRecord \<Rightarrow> bool" where
  "expired now rec =
     (case bannedAt rec of
        Some t \<Rightarrow> now - t > banDuration
      | None \<Rightarrow> now - firstFail rec > failWindow)"

definition Cleanup :: "int \<Rightarrow> conn_limiter \<Rightarrow> conn_limiter" where
  "Cleanup now r =
     (\<lambda>ip. case r ip of None \<Rightarrow> None | Some rec \<Rightarrow> if expired now rec then None else Some rec)"

section \<open>Histories\<close>

text \<open>What happens to a limiter: failures and checks of addresses, and cleanups, with their times.\<close>

datatype limiter_event = Fail string int | Check string int | Clean int

fun limiter_do :: "limiter_event \<Rightarrow> conn_limiter \<Rightarrow> conn_limiter" where
  "limiter_do (Fail ip t) r = RecordFailure ip t r"
| "limiter_do (Check ip t) r = fst (IsBanned ip t r)"
| "limiter_do (Clean t) r = Cleanup t r"

text \<open>The failures of one address, in order of time.\<close>

fun failures_of :: "string \<Rightarrow> limiter_event list \<Rightarrow> int list" where
  "failures_of ip [] = []"
| "failures_of ip (Fail ip' t # es) = (if ip' = ip then t # failures_of ip es else failures_of ip es)"
| "failures_of ip (Check ip' t # es) = failures_of ip es"
| "failures_of ip (Clean t # es) = failures_of ip es"

lemma failures_of_append: "failures_of ip (es @ fs) = failures_of ip es @ failures_of ip fs"
  by (induction ip es rule: failures_of.induct) simp_all

lemma other_addresses:
  "ip \<noteq> ip' \<Longrightarrow> RecordFailure ip t r ip' = r ip'"
  "ip \<noteq> ip' \<Longrightarrow> fst (IsBanned ip t r) ip' = r ip'"
  by (auto simp: RecordFailure_def IsBanned_def Let_def split: option.split)

text \<open>A record is explained by the failures of its address if its count is that of a run of
  failures within the window, the last ones unless it is banned; a ban needs eleven.\<close>

definition explained :: "int list \<Rightarrow> failureRecord \<Rightarrow> bool" where
  "explained ts rec \<longleftrightarrow>
     (\<exists>old recent later. ts = old @ recent @ later \<and> recent \<noteq> []
        \<and> int (length recent) = failCount rec \<and> hd recent = firstFail rec
        \<and> (\<forall>t \<in> set recent. t - firstFail rec \<le> failWindow)
        \<and> (case bannedAt rec of
             None \<Rightarrow> later = [] \<and> failCount rec \<le> maxFailures
           | Some t \<Rightarrow> failCount rec = maxFailures + 1 \<and> last recent = t))"

lemma explained_new: "explained (ts @ [t]) \<lparr>failCount = 1, firstFail = t, bannedAt = None\<rparr>"
  unfolding explained_def
  by (intro exI [of _ ts] exI [of _ "[t]"] exI [of _ "[]"]) (simp add: limiter_consts)

lemma explained_count:
  assumes "explained ts rec" and "bannedAt rec = None" and "t - firstFail rec \<le> failWindow"
  shows "explained (ts @ [t])
    (if failCount rec + 1 > maxFailures
     then rec\<lparr>failCount := failCount rec + 1, bannedAt := Some t\<rparr>
     else rec\<lparr>failCount := failCount rec + 1\<rparr>)"
proof -
  obtain old recent where r: "ts = old @ recent" "recent \<noteq> []"
    "int (length recent) = failCount rec" "hd recent = firstFail rec"
    "\<forall>t \<in> set recent. t - firstFail rec \<le> failWindow" "failCount rec \<le> maxFailures"
    using assms(1,2) unfolding explained_def by auto
  with assms(2,3) show ?thesis
    unfolding explained_def
    by (intro exI [of _ old] exI [of _ "recent @ [t]"] exI [of _ "[]"]) auto
qed

lemma explained_banned:
  assumes "explained ts rec" and "bannedAt rec = Some u"
  shows "explained (ts @ [t]) rec"
proof -
  obtain old recent later where "ts = old @ recent @ later" "recent \<noteq> []"
    "int (length recent) = failCount rec" "hd recent = firstFail rec"
    "\<forall>t \<in> set recent. t - firstFail rec \<le> failWindow" "failCount rec = maxFailures + 1"
    "last recent = u"
    using assms unfolding explained_def by auto
  with assms(2) show ?thesis
    unfolding explained_def
    by (intro exI [of _ old] exI [of _ recent] exI [of _ "later @ [t]"]) simp
qed

definition limiter_ok :: "limiter_event list \<Rightarrow> conn_limiter \<Rightarrow> bool" where
  "limiter_ok es r \<longleftrightarrow> (\<forall>ip rec. r ip = Some rec \<longrightarrow> explained (failures_of ip es) rec)"

lemma RecordFailure_explained:
  assumes "\<And>rec. r ip = Some rec \<Longrightarrow> explained ts rec" and "RecordFailure ip t r ip = Some rec"
  shows "explained (ts @ [t]) rec"
proof (cases "r ip")
  case None
  with assms(2) show ?thesis by (auto simp: RecordFailure_def explained_new)
next
  case (Some rec0)
  from assms(1) [OF this] have e: "explained ts rec0" .
  show ?thesis
  proof (cases "bannedAt rec0")
    case (Some u)
    with \<open>r ip = Some rec0\<close> assms(2) explained_banned [OF e Some] show ?thesis
      by (simp add: RecordFailure_def)
  next
    case None
    show ?thesis
    proof (cases "t - firstFail rec0 > failWindow")
      case True
      with None \<open>r ip = Some rec0\<close> assms(2)
      have "rec = \<lparr>failCount = 1, firstFail = t, bannedAt = None\<rparr>"
        by (cases rec0) (auto simp: RecordFailure_def)
      then show ?thesis by (simp add: explained_new)
    next
      case False
      with None \<open>r ip = Some rec0\<close> assms(2) explained_count [OF e None, of t] show ?thesis
        by (cases rec0) (auto simp: RecordFailure_def Let_def split: if_splits)
    qed
  qed
qed

lemma limiter_do_ok:
  assumes "limiter_ok es r"
  shows "limiter_ok (es @ [e]) (limiter_do e r)"
  unfolding limiter_ok_def
proof (intro allI impI)
  fix ip rec assume rec: "limiter_do e r ip = Some rec"
  have old: "explained (failures_of ip es) rec0" if "r ip = Some rec0" for rec0
    using assms that by (simp add: limiter_ok_def)
  show "explained (failures_of ip (es @ [e])) rec"
  proof (cases e)
    case (Fail ip' t)
    with rec old RecordFailure_explained [of r ip "failures_of ip es" t rec] show ?thesis
      by (cases "ip' = ip") (auto simp: failures_of_append other_addresses)
  next
    case (Check ip' t)
    with rec old show ?thesis
      by (auto simp: failures_of_append IsBanned_def split: option.splits if_splits)
  next
    case (Clean t)
    with rec old show ?thesis
      by (auto simp: failures_of_append Cleanup_def split: option.splits if_splits)
  qed
qed

lemma limiter_run_ok: "limiter_ok es (fold limiter_do es NewConnRateLimiter)"
proof (induction es rule: rev_induct)
  case Nil
  then show ?case by (simp add: limiter_ok_def NewConnRateLimiter_def)
next
  case (snoc e es)
  then show ?case using limiter_do_ok by simp
qed

section \<open>The interface of a failure guard\<close>

text \<open>What the connection handler relies on: checks and failures of one address say nothing about
  another, and a check does not change what a later check of the address finds.\<close>

locale failure_guard =
  fixes banned :: "'g \<Rightarrow> string \<Rightarrow> int \<Rightarrow> bool"
    and check :: "string \<Rightarrow> int \<Rightarrow> 'g \<Rightarrow> 'g"
    and fail :: "string \<Rightarrow> int \<Rightarrow> 'g \<Rightarrow> 'g"
  assumes fail_other: "ip \<noteq> ip' \<Longrightarrow> banned (fail ip t g) ip' t' = banned g ip' t'"
    and check_other: "ip \<noteq> ip' \<Longrightarrow> banned (check ip t g) ip' t' = banned g ip' t'"
    and check_same: "t \<le> t' \<Longrightarrow> banned (check ip t g) ip t' = banned g ip t'"
begin

text \<open>An attempt checks its address and, if it is not banned and does not authenticate, records a
  failure: an address, the time of the check, the time of the verdict, the verdict.\<close>

definition attempt :: "string \<times> int \<times> int \<times> bool \<Rightarrow> 'g \<Rightarrow> 'g" where
  "attempt a g = (case a of (ip, t, t2, authentic) \<Rightarrow>
     (if banned g ip t \<or> authentic then check ip t g else fail ip t2 (check ip t g)))"

lemma attempt_other: "ip \<noteq> fst a \<Longrightarrow> banned (attempt a g) ip t' = banned g ip t'"
  by (cases a) (auto simp: attempt_def check_other fail_other)

lemma attempt_authentic:
  "snd (snd (snd a)) \<Longrightarrow> fst (snd a) \<le> t' \<Longrightarrow> banned (attempt a g) ip t' = banned g ip t'"
  by (cases a) (cases "ip = fst a"; auto simp: attempt_def check_same check_other)

lemma bystander:
  "\<forall>a \<in> set as. fst a \<noteq> ip \<or> (snd (snd (snd a)) \<and> fst (snd a) \<le> t') \<Longrightarrow>
   banned (fold attempt as g) ip t' = banned g ip t'"
proof (induction as arbitrary: g)
  case (Cons a as)
  then have "fst a \<noteq> ip \<or> (snd (snd (snd a)) \<and> fst (snd a) \<le> t')" by simp
  then have "banned (attempt a g) ip t' = banned g ip t'"
    using attempt_other attempt_authentic by metis
  with Cons show ?case by simp
qed simp

end

interpretation fg: failure_guard "\<lambda>g ip t. snd (IsBanned ip t g)" "\<lambda>ip t g. fst (IsBanned ip t g)"
  RecordFailure
  by unfold_locales (auto simp: IsBanned_def other_addresses RecordFailure_def Let_def
    split: option.splits)

section \<open>Claims\<close>

text \<open>C36: No address is banned without cause: if a check finds an address banned, then in the history
  of the limiter eleven failures of that very address followed one another, all within sixty
  seconds of the first, and the last of them is at most five minutes old.\<close>

theorem no_false_ban:
  assumes "snd (IsBanned ip now (fold limiter_do es NewConnRateLimiter))"
  shows "\<exists>old recent later. failures_of ip es = old @ recent @ later \<and> length recent = 11
    \<and> (\<forall>t \<in> set recent. t - hd recent \<le> 60 * 10 ^ 9) \<and> now - last recent \<le> 300 * 10 ^ 9"
proof -
  let ?r = "fold limiter_do es NewConnRateLimiter"
  obtain rec t where rec: "?r ip = Some rec" "bannedAt rec = Some t" "now - t \<le> banDuration"
    using assms by (auto simp: IsBanned_def split: option.splits if_splits)
  with limiter_run_ok [of es] have "explained (failures_of ip es) rec"
    by (simp add: limiter_ok_def)
  with rec(2) obtain old recent later where e: "failures_of ip es = old @ recent @ later"
    "int (length recent) = failCount rec" "hd recent = firstFail rec"
    "\<forall>t \<in> set recent. t - firstFail rec \<le> failWindow" "failCount rec = maxFailures + 1"
    "last recent = t"
    unfolding explained_def by auto
  from e(2,5) have "length recent = 11" by (simp add: limiter_consts)
  moreover have "\<forall>t \<in> set recent. t - hd recent \<le> 60 * 10 ^ 9"
    using e(3,4) by (simp add: limiter_consts)
  moreover have "now - last recent \<le> 300 * 10 ^ 9"
    using e(6) rec(3) by (simp add: limiter_consts)
  ultimately show ?thesis using e(1) by blast
qed

definition sample_attack :: "limiter_event list" where
  "sample_attack = map (Fail ''1.2.3.4'') [1, 2, 3, 4, 5, 6, 7, 8, 9, 10, 11]"

theorem no_false_ban_witness:
  "snd (IsBanned ''1.2.3.4'' 12 (fold limiter_do sample_attack NewConnRateLimiter))
   \<and> (\<exists>old recent later. failures_of ''1.2.3.4'' sample_attack = old @ recent @ later
        \<and> length recent = 11)"
proof -
  have "snd (IsBanned ''1.2.3.4'' 12 (fold limiter_do sample_attack NewConnRateLimiter))"
    by code_simp
  with no_false_ban [OF this] show ?thesis by blast
qed

text \<open>What the limiter knows of an address after \<open>n\<close> failures in a window from \<open>t0\<close>.\<close>

definition attacked :: "int \<Rightarrow> nat \<Rightarrow> failureRecord option \<Rightarrow> bool" where
  "attacked t0 n known \<longleftrightarrow>
     (case known of
        None \<Rightarrow> n = 0
      | Some rec \<Rightarrow> 0 < n \<and> t0 \<le> firstFail rec \<and> failCount rec = int (min n 11)
          \<and> (case bannedAt rec of
               None \<Rightarrow> n \<le> 10
             | Some t \<Rightarrow> 11 \<le> n \<and> t0 \<le> t))"

fun event_time :: "limiter_event \<Rightarrow> int" where
  "event_time (Fail ip t) = t"
| "event_time (Check ip t) = t"
| "event_time (Clean t) = t"

lemma attacked_do:
  assumes "attacked t0 n (r ip)" and "t0 \<le> event_time e" and "event_time e \<le> t0 + failWindow"
  shows "attacked t0 (n + length (failures_of ip [e])) (limiter_do e r ip)"
proof (cases e)
  case (Fail ip' t)
  show ?thesis
  proof (cases "ip' = ip")
    case True
    with assms Fail show ?thesis
      by (cases "r ip") (auto simp: attacked_def RecordFailure_def Let_def limiter_consts
          split: option.splits)
  next
    case False
    with assms Fail show ?thesis by (simp add: other_addresses)
  qed
next
  case (Check ip' t)
  with assms show ?thesis
    by (auto simp: attacked_def IsBanned_def limiter_consts split: option.splits)
next
  case (Clean t)
  with assms show ?thesis
    by (auto simp: attacked_def Cleanup_def expired_def limiter_consts split: option.splits)
qed

lemma attacked_run:
  "attacked t0 n (r ip) \<Longrightarrow> \<forall>e \<in> set es. t0 \<le> event_time e \<and> event_time e \<le> t0 + failWindow \<Longrightarrow>
   attacked t0 (n + length (failures_of ip es)) (fold limiter_do es r ip)"
proof (induction es arbitrary: n r)
  case (Cons e es)
  have "failures_of ip (e # es) = failures_of ip [e] @ failures_of ip es"
    by (simp flip: failures_of_append)
  moreover have "attacked t0 (n + length (failures_of ip [e])) (limiter_do e r ip)"
    using Cons.prems by (intro attacked_do) simp_all
  ultimately show ?case
    using Cons.IH [of "n + length (failures_of ip [e])" "limiter_do e r"] Cons.prems(2)
    by (simp add: add.assoc)
qed simp

text \<open>Brute force is stopped: if an address without a record fails eleven times or more within
  sixty seconds, whatever other addresses do and whenever checks and cleanups run meanwhile, every
  check of the address finds it banned for at least five minutes from the start of the attack.\<close>

lemma brute_force_banned:
  assumes "r ip = None" and "11 \<le> length (failures_of ip es)"
    and "\<forall>e \<in> set es. t0 \<le> event_time e \<and> event_time e \<le> t0 + failWindow"
    and "now \<le> t0 + banDuration"
  shows "IsBanned ip now (fold limiter_do es r) = (fold limiter_do es r, True)"
proof -
  have "attacked t0 0 (r ip)" using assms(1) by (simp add: attacked_def)
  from attacked_run [of t0 0 r ip es, OF this assms(3)] assms(2,4) show ?thesis
    by (auto simp: attacked_def IsBanned_def split: option.splits)
qed



end
