(* ===== verification/SpeedLimiter.thy ===== *)
theory SpeedLimiter
  imports Prelude
begin

text \<open>
  \<^verbatim>\<open>internal/ratelimit/speed.go\<close>: one \<open>rate.Limiter\<close> per user, shared by pointer
  with the connections. The limiters are a store from addresses to their rate (bytes per second,
  exact in \<open>float64\<close> for the speeds of the panel) and burst (\<open>int\<close>, wrapped).
\<close>

definition bytesPerMbit :: int where
  "bytesPerMbit = 125000"

definition burstMultiplier :: int where
  "burstMultiplier = 128 * 1024"

record rate_limiter =
  rl_limit :: int
  rl_burst :: int

definition limiter_for :: "int \<Rightarrow> rate_limiter" where
  "limiter_for mbps = \<lparr>rl_limit = mbps * bytesPerMbit, rl_burst = wrap64 (mbps * burstMultiplier)\<rparr>"

record speed_limiter =
  limiters :: "(int \<times> nat) list"
  store :: "nat \<Rightarrow> rate_limiter"
  nextLimiter :: nat

definition NewSpeedLimiter :: speed_limiter where
  "NewSpeedLimiter = \<lparr>limiters = [], store = (\<lambda>_. limiter_for 0), nextLimiter = 0\<rparr>"

definition new_limiter :: "int \<Rightarrow> int \<Rightarrow> speed_limiter \<Rightarrow> speed_limiter" where
  "new_limiter uid mbps s =
     (let a = nextLimiter s
      in s\<lparr>limiters := AList.update uid a (limiters s), store := (store s)(a := limiter_for mbps),
           nextLimiter := Suc a\<rparr>)"

definition GetLimiter :: "int \<Rightarrow> int \<Rightarrow> speed_limiter \<Rightarrow> speed_limiter \<times> nat option" where
  "GetLimiter uid mbps s =
     (if mbps \<le> 0 then (s, None)
      else (case map_of (limiters s) uid of
              Some a \<Rightarrow> (s, Some a)
            | None \<Rightarrow> (new_limiter uid mbps s, Some (nextLimiter s))))"

definition RemoveUser :: "int \<Rightarrow> speed_limiter \<Rightarrow> speed_limiter" where
  "RemoveUser uid s = s\<lparr>limiters := AList.delete uid (limiters s)\<rparr>"

definition UpdateLimit :: "int \<Rightarrow> int \<Rightarrow> speed_limiter \<Rightarrow> speed_limiter" where
  "UpdateLimit uid mbps s =
     (if mbps \<le> 0 then RemoveUser uid s
      else (case map_of (limiters s) uid of
              Some a \<Rightarrow> s\<lparr>store := (store s)(a := limiter_for mbps)\<rparr>
            | None \<Rightarrow> new_limiter uid mbps s))"

section \<open>Claims\<close>

text \<open>A user's connections share one limiter: the first \<open>GetLimiter\<close> makes it with the speed asked
  for, every later one returns the same limiter with its rate as it is, whatever speed it asks for;
  \<open>UpdateLimit\<close> changes the rate of that very limiter, for the open connections too, and of no
  other user's; after \<open>RemoveUser\<close> the next \<open>GetLimiter\<close> makes a new one.\<close>

lemma limiter_shared:
  assumes "map_of (limiters s) uid = None" and "0 < m1" and "0 < m2" and "0 < m3"
    and "\<forall>(u, b) \<in> set (limiters s). b < nextLimiter s"
  shows "\<exists>s1 a. GetLimiter uid m1 s = (s1, Some a) \<and> store s1 a = limiter_for m1
    \<and> GetLimiter uid m2 s1 = (s1, Some a)
    \<and> store (UpdateLimit uid m3 s1) a = limiter_for m3
    \<and> GetLimiter uid m2 (UpdateLimit uid m3 s1) = (UpdateLimit uid m3 s1, Some a)
    \<and> (\<forall>u b. map_of (limiters s) u = Some b \<longrightarrow>
         store (UpdateLimit uid m3 s1) b = store s b \<and> map_of (limiters s1) u = Some b)
    \<and> snd (GetLimiter uid m2 (RemoveUser uid s1)) = Some (Suc a)"
proof -
  let ?a = "nextLimiter s" and ?s = "new_limiter uid m1 s"
  have m: "map_of (limiters ?s) = (map_of (limiters s))(uid \<mapsto> ?a)"
    by (simp add: new_limiter_def Let_def update_conv')
  have others: "b \<noteq> ?a \<and> u \<noteq> uid" if "map_of (limiters s) u = Some b" for u b
    using assms(1,5) map_of_SomeD [OF that] that by auto
  have st: "store ?s = (store s)(?a := limiter_for m1)" "nextLimiter ?s = Suc ?a"
    by (simp_all add: new_limiter_def Let_def)
  have "map_of (AList.delete uid (limiters ?s)) uid = None"
    by (simp add: delete_conv')
  with assms(1-4) m others st show ?thesis
    by (intro exI [of _ ?s] exI [of _ ?a])
      (simp add: GetLimiter_def UpdateLimit_def RemoveUser_def)
qed

end
