(* ===== verification/Alive.thy ===== *)
theory Alive
  imports GoStrings
begin

text \<open>
  \<^verbatim>\<open>internal/alive/tracker.go\<close>: which addresses each user is online from. The Go
  maps are association lists in the order \<open>range\<close> visits them.
\<close>

record tracker =
  online :: "(int \<times> (string \<times> int) list) list"
  nodeID :: int

definition NewTracker :: "int \<Rightarrow> tracker" where
  "NewTracker n = \<lparr>online = [], nodeID = n\<rparr>"

definition ips_of :: "tracker \<Rightarrow> int \<Rightarrow> (string \<times> int) list" where
  "ips_of t uid = (case map_of (online t) uid of None \<Rightarrow> [] | Some ips \<Rightarrow> ips)"

definition Track :: "int \<Rightarrow> string \<Rightarrow> int \<Rightarrow> tracker \<Rightarrow> tracker" where
  "Track uid ip now t =
     t\<lparr>online := AList.update uid (AList.update ip now (ips_of t uid)) (online t)\<rparr>"

definition Remove :: "int \<Rightarrow> string \<Rightarrow> tracker \<Rightarrow> tracker" where
  "Remove uid ip t =
     (case map_of (online t) uid of
        None \<Rightarrow> t
      | Some ips \<Rightarrow>
          (let ips' = AList.delete ip ips
           in if ips' = [] then t\<lparr>online := AList.delete uid (online t)\<rparr>
              else t\<lparr>online := AList.update uid ips' (online t)\<rparr>))"

definition alive_Snapshot :: "tracker \<Rightarrow> (int \<times> string list) list" where
  "alive_Snapshot t =
     map (\<lambda>(uid, ips). (uid, map (\<lambda>(ip, seen). ip @ CHR ''_'' # itoa (nodeID t)) ips)) (online t)"

definition CheckDeviceLimit :: "int \<Rightarrow> int \<Rightarrow> (int \<rightharpoonup> int) \<Rightarrow> bool" where
  "CheckDeviceLimit uid deviceLimit aliveList =
     (if deviceLimit = 0 then True
      else \<not> (case aliveList uid of None \<Rightarrow> 0 | Some n \<Rightarrow> n) \<ge> deviceLimit)"

section \<open>Histories\<close>

datatype alive_event = Tracked int string int | Removed int string

fun alive_do :: "alive_event \<Rightarrow> tracker \<Rightarrow> tracker" where
  "alive_do (Tracked uid ip now) t = Track uid ip now t"
| "alive_do (Removed uid ip) t = Remove uid ip t"

text \<open>Whether a user's address is online after a history: its last event decides.\<close>

definition online_after :: "int \<Rightarrow> string \<Rightarrow> alive_event list \<Rightarrow> bool" where
  "online_after uid ip es =
     fold (\<lambda>e b. case e of
        Tracked u i now \<Rightarrow> (u = uid \<and> i = ip) \<or> b
      | Removed u i \<Rightarrow> \<not> (u = uid \<and> i = ip) \<and> b) es False"

lemma online_after_snoc:
  "online_after uid ip (es @ [Tracked u i now]) = (u = uid \<and> i = ip \<or> online_after uid ip es)"
  "online_after uid ip (es @ [Removed u i]) = (\<not> (u = uid \<and> i = ip) \<and> online_after uid ip es)"
  by (simp_all add: online_after_def)

definition tracker_ok :: "alive_event list \<Rightarrow> tracker \<Rightarrow> bool" where
  "tracker_ok es t \<longleftrightarrow>
     distinct (map fst (online t)) \<and> (\<forall>(uid, ips) \<in> set (online t). ips \<noteq> [])
     \<and> (\<forall>uid ip. ip \<in> fst ` set (ips_of t uid) \<longleftrightarrow> online_after uid ip es)"


lemma online_after_Nil [simp]: "\<not> online_after uid ip []"
  by (simp add: online_after_def)

lemma tracker_ok_Track:
  assumes "tracker_ok es t"
  shows "tracker_ok (es @ [Tracked u i now]) (Track u i now t)"
proof -
  have "ips_of (Track u i now t) uid = (if uid = u then AList.update i now (ips_of t u) else ips_of t uid)"
    for uid by (simp add: ips_of_def Track_def update_conv')
  then have "ip \<in> fst ` set (ips_of (Track u i now t) uid)
      \<longleftrightarrow> online_after uid ip (es @ [Tracked u i now])" for uid ip
    using assms by (auto simp: tracker_ok_def online_after_snoc dom_update)
  moreover have "distinct (map fst (online (Track u i now t)))"
    "\<forall>(uid, ips) \<in> set (online (Track u i now t)). ips \<noteq> []"
    using assms by (auto simp: tracker_ok_def Track_def distinct_update update_nonempty_sym dest!: set_update_alist)
  ultimately show ?thesis unfolding tracker_ok_def by blast
qed

lemma tracker_ok_Remove:
  assumes "tracker_ok es t"
  shows "tracker_ok (es @ [Removed u i]) (Remove u i t)"
proof -
  have ips: "ips_of (Remove u i t) uid = (if uid = u then AList.delete i (ips_of t u) else ips_of t uid)"
    for uid
    by (auto simp: ips_of_def Remove_def Let_def update_conv' delete_conv' split: option.split)
  then have "ip \<in> fst ` set (ips_of (Remove u i t) uid)
      \<longleftrightarrow> online_after uid ip (es @ [Removed u i])" for uid ip
    using assms by (auto simp: tracker_ok_def online_after_snoc keys_delete_alist)
  moreover have "distinct (map fst (online (Remove u i t)))"
    "\<forall>(uid, ips) \<in> set (online (Remove u i t)). ips \<noteq> []"
    using assms
    by (auto simp: tracker_ok_def Remove_def Let_def distinct_update distinct_delete set_delete_alist
        split: option.split dest!: set_update_alist)
  ultimately show ?thesis unfolding tracker_ok_def by blast
qed

definition alive_run :: "int \<Rightarrow> alive_event list \<Rightarrow> tracker" where
  "alive_run n es = fold alive_do es (NewTracker n)"

lemma alive_run_ok: "tracker_ok es (alive_run n es) \<and> nodeID (alive_run n es) = n"
proof (induction es rule: rev_induct)
  case Nil
  then show ?case by (simp add: tracker_ok_def alive_run_def NewTracker_def ips_of_def)
next
  case (snoc e es)
  moreover have "nodeID (Track u i now t) = nodeID t" "nodeID (Remove u i t) = nodeID t" for u i now t
    by (simp_all add: Track_def Remove_def Let_def split: option.split)
  ultimately show ?case
    by (cases e) (simp_all add: alive_run_def tracker_ok_Track tracker_ok_Remove)
qed

section \<open>Claims\<close>

text \<open>The snapshot reports exactly the users with an address online, each with exactly the
  addresses whose last event was a \<open>Track\<close>, with the node's suffix, and never an empty list. In
  particular one \<open>Remove\<close> takes an address offline, however many \<open>Track\<close>s it had.\<close>

lemma alive_Snapshot_exact:
  "(case map_of (alive_Snapshot (alive_run n es)) uid of
      None \<Rightarrow> \<forall>ip. \<not> online_after uid ip es
    | Some l \<Rightarrow> l \<noteq> [] \<and> set l = {ip @ CHR ''_'' # itoa n |ip. online_after uid ip es})
   \<and> (online_after uid ip (es @ [Removed uid ip]) = False)"
proof -
  let ?t = "alive_run n es"
  have ok: "tracker_ok es ?t" "nodeID ?t = n" using alive_run_ok by blast+
  have m: "map_of (alive_Snapshot ?t) uid =
      map_option (map (\<lambda>(ip, seen). ip @ CHR ''_'' # itoa n)) (map_of (online ?t) uid)"
    unfolding alive_Snapshot_def ok(2) by (simp add: map_of_map)
  show ?thesis
  proof (cases "map_of (online ?t) uid")
    case None
    then have "ips_of ?t uid = []" by (simp add: ips_of_def)
    moreover have "online_after uid ip es \<longleftrightarrow> ip \<in> fst ` set (ips_of ?t uid)" for ip
      using ok(1) unfolding tracker_ok_def by blast
    ultimately have "\<forall>ip. \<not> online_after uid ip es" by simp
    with None m show ?thesis by (simp add: online_after_snoc)
  next
    case (Some ips)
    then have "ips_of ?t uid = ips" "ips \<noteq> []"
      using ok(1) by (auto simp: tracker_ok_def ips_of_def dest: map_of_SomeD)
    then have "\<And>ip. online_after uid ip es \<longleftrightarrow> ip \<in> fst ` set ips"
      using ok(1) by (auto simp: tracker_ok_def)
    with m Some \<open>ips \<noteq> []\<close> show ?thesis
      by (auto simp: online_after_snoc image_iff) force+
  qed
qed

end
