(* ===== verification/Handler.thy ===== *)
theory Handler
  imports Api ConnLimiter SpeedLimiter Alive Frame
begin

text \<open>
  Authentication: \<^verbatim>\<open>createOutboundConnection\<close> of \<^verbatim>\<open>cmd/client/myclient.go\<close>
  writes what \<^verbatim>\<open>handleConnection\<close> of \<^verbatim>\<open>internal/server/handler.go\<close> reads. The
  handler is modelled up to the session it starts and from the session's end; TLS and the relay of
  the fallback are outside.
\<close>

section \<open>The preamble of a connection\<close>

text \<open>The hash, the length of the padding, the padding. \<open>zeros n\<close> is what \<open>WriteZeroN(n)\<close> of the
  buffer library leaves in the buffer, \<open>sizes\<close> what the scheme asks for as packet 0.\<close>

definition padding_len :: "int list \<Rightarrow> int" where
  "padding_len sizes = (case sizes of [] \<Rightarrow> 0 | l # ls \<Rightarrow> l)"

definition preamble :: "(nat \<Rightarrow> bytes) \<Rightarrow> bytes \<Rightarrow> int list \<Rightarrow> bytes" where
  "preamble zeros passwordSha256 sizes =
     (let paddingLen = padding_len sizes
      in passwordSha256 @ put_u16 (word_of_int paddingLen)
         @ (if paddingLen > 0 then zeros (nat paddingLen) else []))"

text \<open>The buffer's \<open>ReadBytes\<close> is an argument, a function of what is left in the buffer. Its documented
  behaviour: so many bytes and what follows them, or an error.\<close>

type_synonym read_bytes = "nat \<Rightarrow> bytes \<Rightarrow> (bytes \<times> bytes) option"

definition take_bytes :: read_bytes where
  "take_bytes n b = (if n \<le> length b then Some (take n b, drop n b) else None)"

definition read_bytes_ok :: "read_bytes \<Rightarrow> bool" where
  "read_bytes_ok ReadBytes \<longleftrightarrow>
     (\<forall>n b. ReadBytes n b = (if n \<le> length b then Some (take n b, drop n b) else None))"

lemma take_bytes_ok: "read_bytes_ok take_bytes"
  by (simp add: read_bytes_ok_def take_bytes_def)

lemma read_bytes_take: "read_bytes_ok ReadBytes \<longleftrightarrow> ReadBytes = take_bytes"
  by (auto simp: read_bytes_ok_def take_bytes_def fun_eq_iff)

text \<open>Steps 4 and 5 of the handler; \<open>None\<close> is any of their four ways to fail.\<close>

definition read_preamble ::
    "read_bytes \<Rightarrow> (bytes \<Rightarrow> 'u option) \<Rightarrow> bytes \<Rightarrow> ('u \<times> bytes) option" where
  "read_preamble ReadBytes auth b =
     (case ReadBytes 32 b of
        None \<Rightarrow> None
      | Some (passwordHash, b1) \<Rightarrow>
          (case auth passwordHash of
             None \<Rightarrow> None
           | Some userEntry \<Rightarrow>
               (case ReadBytes 2 b1 of
                  None \<Rightarrow> None
                | Some (paddingLenBytes, b2) \<Rightarrow>
                    (let paddingLen = get_u16 paddingLenBytes
                     in if paddingLen > 0 then
                          (case ReadBytes (unat paddingLen) b2 of
                             None \<Rightarrow> None
                           | Some (_, b3) \<Rightarrow> Some (userEntry, b3))
                        else Some (userEntry, b2)))))"

text \<open>What the handler relies on in the buffer and in the user table.\<close>

locale credential_store =
  fixes ReadBytes :: read_bytes and auth :: "bytes \<Rightarrow> 'u option"
  assumes ReadBytes_Some: "ReadBytes n b = Some (x, y) \<longleftrightarrow> b = x @ y \<and> length x = n"
    and auth_length: "auth h = Some u \<Longrightarrow> length h = 32"
begin

lemma ReadBytes_append: "length x = n \<Longrightarrow> ReadBytes n (x @ y) = Some (x, y)"
  by (simp add: ReadBytes_Some)

lemma read_preamble_iff:
  "read_preamble ReadBytes auth b = Some (u, rest) \<longleftrightarrow>
   (\<exists>h n pad. b = h @ put_u16 n @ pad @ rest \<and> auth h = Some u \<and> length pad = unat n)"
proof
  assume r: "read_preamble ReadBytes auth b = Some (u, rest)"
  then obtain h b1 l b2 where 1: "ReadBytes 32 b = Some (h, b1)" "auth h = Some u"
    "ReadBytes 2 b1 = Some (l, b2)"
    by (auto simp: read_preamble_def Let_def split: option.splits if_splits)
  then have b: "b = h @ l @ b2" "length l = 2"
    by (simp_all add: ReadBytes_Some)
  obtain x y where l: "l = [x, y]"
    using b(2) by (auto simp: numeral_2_eq_2 length_Suc_conv)
  have put: "put_u16 (get_u16 l) = l" unfolding l by (rule put_get_u16)
  have "\<exists>pad. b2 = pad @ rest \<and> length pad = unat (get_u16 l)"
  proof (cases "get_u16 l > 0")
    case True
    with r 1 show ?thesis
      by (auto simp: read_preamble_def Let_def ReadBytes_Some split: option.splits)
  next
    case False
    then have "get_u16 l = 0" by (simp add: word_neq_0_conv [symmetric])
    with r 1 show ?thesis by (auto simp: read_preamble_def Let_def split: option.splits)
  qed
  then obtain pad where "b2 = pad @ rest" "length pad = unat (get_u16 l)" by blast
  with b(1) 1(2) put show "\<exists>h n pad. b = h @ put_u16 n @ pad @ rest \<and> auth h = Some u \<and> length pad = unat n"
    by metis
next
  assume "\<exists>h n pad. b = h @ put_u16 n @ pad @ rest \<and> auth h = Some u \<and> length pad = unat n"
  then obtain h n pad where b: "b = h @ put_u16 n @ pad @ rest" "auth h = Some u"
    "length pad = unat n" by blast
  have "length h = 32" using auth_length [OF b(2)] .
  moreover have "get_u16 (put_u16 n) = n" using get_put_u16 [of n "[]"] by simp
  moreover have "pad = []" if "\<not> 0 < n" using that b(3) by (simp add: word_neq_0_conv [symmetric])
  ultimately show "read_preamble ReadBytes auth b = Some (u, rest)"
    using b ReadBytes_append [of h 32 "put_u16 n @ pad @ rest"] ReadBytes_append [of "put_u16 n" 2 "pad @ rest"]
      ReadBytes_append [of pad "unat n" rest]
    by (auto simp: read_preamble_def Let_def)
qed

end

interpretation cs: credential_store take_bytes "Authenticate tbl"
  by unfold_locales (auto simp: take_bytes_def Authenticate_def split: if_splits)


section \<open>The handler\<close>

text \<open>The parts of \<open>Server\<close> a connection touches.\<close>

record server_parts =
  hasAPI :: bool
  users :: UserTable
  connLimiter :: conn_limiter
  speedLimiter :: speed_limiter
  aliveTracker :: tracker

text \<open>How the handling of a connection ends: refused without a word, no first packet, handed to the
  fallback with what it had sent, refused for too many devices, or served: a session for a user on
  the bytes after the preamble, through a limiter or none.\<close>

datatype outcome =
    RefusedBanned
  | NoPacket
  | FellBack bytes
  | TooManyDevices UserEntry
  | Served UserEntry bytes "nat option"

text \<open>\<open>packet\<close> is the result of the first read from the TLS connection, \<open>alive\<close> that of
  \<open>FetchAliveList\<close>, \<open>now\<close> the time of the ban check and \<open>later\<close> that of the call that
  follows the packet, \<open>RecordFailure\<close> or \<open>Track\<close>.\<close>

definition device_allowed ::
    "server_parts \<Rightarrow> (api_error + (int \<rightharpoonup> int)) \<Rightarrow> UserEntry \<Rightarrow> bool" where
  "device_allowed s alive u =
     (if DeviceLimit u > 0 \<and> hasAPI s
      then (case alive of Inl e \<Rightarrow> True | Inr l \<Rightarrow> CheckDeviceLimit (entry_ID u) (DeviceLimit u) l)
      else True)"

definition handle_start ::
    "read_bytes \<Rightarrow> string \<Rightarrow> int \<Rightarrow> int \<Rightarrow> bytes option \<Rightarrow> (api_error + (int \<rightharpoonup> int)) \<Rightarrow> server_parts \<Rightarrow>
     server_parts \<times> outcome" where
  "handle_start ReadBytes remoteIP now later packet alive s0 =
     (case IsBanned remoteIP now (connLimiter s0) of (lim, banned) \<Rightarrow>
        (let s = s0\<lparr>connLimiter := lim\<rparr>
         in if banned then (s, RefusedBanned)
            else (case packet of
              None \<Rightarrow> (s, NoPacket)
            | Some b \<Rightarrow>
                (case read_preamble ReadBytes (Authenticate (users s)) b of
                   None \<Rightarrow>
                     (s\<lparr>connLimiter := RecordFailure remoteIP later (connLimiter s)\<rparr>, FellBack b)
                 | Some (u, rest) \<Rightarrow>
                     (if \<not> device_allowed s alive u then (s, TooManyDevices u)
                      else
                        (case GetLimiter (entry_ID u) (SpeedLimit u) (speedLimiter s) of
                           (sp, l) \<Rightarrow>
                             (s\<lparr>speedLimiter := sp,
                                aliveTracker := Track (entry_ID u) remoteIP later (aliveTracker s)\<rparr>,
                              Served u rest l)))))))"

text \<open>The deferred call at the end of a served connection.\<close>

definition handle_end :: "string \<Rightarrow> UserEntry \<Rightarrow> server_parts \<Rightarrow> server_parts" where
  "handle_end remoteIP u s = s\<lparr>aliveTracker := Remove (entry_ID u) remoteIP (aliveTracker s)\<rparr>"

section \<open>Claims\<close>

text \<open>What a client sends is what the server takes: a preamble with a listed password, the length
  and the zeros of the scheme's padding, is accepted for that user, with any padding below 64 KiB, and
  everything after it, byte for byte, is the input of the session.\<close>

lemma preamble_roundtrip:
  assumes "Authenticate tbl pw = Some u" and "read_bytes_ok ReadBytes" and "0 \<le> l" and "l < 2 ^ 16"
    and "zeros (nat l) = replicate (nat l) 0"
  shows "read_preamble ReadBytes (Authenticate tbl) (preamble zeros pw (l # ls) @ rest) = Some (u, rest)
    \<and> read_preamble ReadBytes (Authenticate tbl) (preamble zeros pw [] @ rest) = Some (u, rest)"
proof -
  have "uint (word_of_int l :: u16) = l"
    using assms(3,4) by (simp add: uint_word_of_int_eq take_bit_int_eq_self)
  then have "unat (word_of_int l :: u16) = nat l" by (simp only: unat_eq_nat_uint)
  then have "preamble zeros pw (l # ls) @ rest
      = pw @ put_u16 (word_of_int l) @ replicate (nat l) 0 @ rest"
    "length (replicate (nat l) (0 :: byte)) = unat (word_of_int l :: u16)"
    using assms(3,5) by (simp_all add: preamble_def padding_len_def)
  moreover have "preamble zeros pw [] @ rest = pw @ put_u16 0 @ [] @ rest"
    "length ([] :: bytes) = unat (0 :: u16)"
    by (simp_all add: preamble_def padding_len_def)
  ultimately show ?thesis
    unfolding assms(2) [unfolded read_bytes_take] cs.read_preamble_iff using assms(1) by blast
qed

definition sample_table :: UserTable where
  "sample_table = UpdateUsers (\<lambda>b. replicate 32 7) sample_users"

lemma sample_table_auth:
  "Authenticate sample_table (replicate 32 7) = Some (mk_entry (\<lambda>b. replicate 32 7) (hd sample_users))"
  by (simp add: sample_table_def Authenticate_def table_maps last_user_def sample_users_def)

lemma put_u16_minus_one: "put_u16 (- 1) = [255, 255]"
  by code_simp

text \<open>C35: A scheme whose packet 0 starts with a check mark locks the client out: the preamble then
  announces 65535 bytes of padding and has none, and the server takes what follows for padding; it
  refuses the connection, unless so much follows, and then drops it.\<close>

theorem checkmark_preamble:
  assumes "Authenticate tbl pw = Some u" and "read_bytes_ok ReadBytes"
  shows "preamble zeros pw (CheckMark # ls) = pw @ [255, 255]
    \<and> read_preamble ReadBytes (Authenticate tbl) (preamble zeros pw (CheckMark # ls) @ rest) =
        (if length rest < 65535 then None else Some (u, drop 65535 rest))"
proof -
  have p: "preamble zeros pw (CheckMark # ls) = pw @ [255, 255]"
    using put_u16_minus_one by (simp add: preamble_def padding_len_def CheckMark_def)
  have l: "length pw = 32" using cs.auth_length [OF assms(1)] .
  have "unat (get_u16 [255, 255 :: byte]) = 65535" "get_u16 [255, 255] > 0"
    by (simp_all add: get_u16_def)
  with p l assms show ?thesis
    by (auto simp: read_preamble_def read_bytes_ok_def Let_def)
qed

theorem checkmark_preamble_witness:
  "read_preamble take_bytes (Authenticate sample_table)
     (preamble (\<lambda>n. replicate n 0) (replicate 32 7) [CheckMark, 30] @ [1, 2]) = None"
  using checkmark_preamble [OF sample_table_auth take_bytes_ok, of "\<lambda>n. replicate n 0" "[30]" "[1, 2]"] by auto


definition sample_parts :: server_parts where
  "sample_parts = \<lparr>hasAPI = True, users = sample_table, connLimiter = NewConnRateLimiter,
     speedLimiter = NewSpeedLimiter, aliveTracker = NewTracker 1\<rparr>"

text \<open>On the limiter a connection with a first packet is one attempt of the guard's interface.\<close>

lemma handle_start_limiter:
  "connLimiter (fst (handle_start ReadBytes ip t t2 (Some b) alive s)) =
     fg.attempt (ip, t, t2, read_preamble ReadBytes (Authenticate (users s)) b \<noteq> None) (connLimiter s)"
  by (auto simp: handle_start_def fg.attempt_def Let_def split: prod.splits option.splits)

lemma handle_start_users: "users (fst (handle_start ReadBytes ip t t2 p alive s)) = users s"
  by (auto simp: handle_start_def Let_def split: prod.splits option.splits)

text \<open>C13: A connection is served exactly if its address is not banned, its first packet is the hash
  of a listed password, a length, that much padding and a rest, and the user's devices allow it; the
  session gets the rest, and the address is tracked. A packet that does not parse goes to the
  fallback whole and counts one failure of the address; nothing else counts one, and nothing but
  the limiter, the speed limiter and the tracker changes.\<close>

theorem handle_start_spec:
  assumes "read_bytes_ok ReadBytes"
  shows "case handle_start ReadBytes ip now later packet alive s of (s', out) \<Rightarrow>
     ((\<exists>l. out = Served u rest l) \<longleftrightarrow>
        \<not> snd (IsBanned ip now (connLimiter s)) \<and> device_allowed s alive u
        \<and> (\<exists>h n pad. packet = Some (h @ put_u16 n @ pad @ rest)
             \<and> Authenticate (users s) h = Some u \<and> length pad = unat n))
     \<and> connLimiter s' = (case out of
          FellBack b \<Rightarrow> RecordFailure ip later (fst (IsBanned ip now (connLimiter s)))
        | _ \<Rightarrow> fst (IsBanned ip now (connLimiter s)))
     \<and> aliveTracker s' = (case out of
          Served u' r l \<Rightarrow> Track (entry_ID u') ip later (aliveTracker s) | _ \<Rightarrow> aliveTracker s)
     \<and> (out = RefusedBanned \<longleftrightarrow> snd (IsBanned ip now (connLimiter s)))
     \<and> (case out of FellBack b \<Rightarrow> packet = Some b | _ \<Rightarrow> True)
     \<and> users s' = users s"
proof -
  note rb = assms [unfolded read_bytes_take]
  obtain lim banned where lim: "IsBanned ip now (connLimiter s) = (lim, banned)" by (metis prod.collapse)
  consider "banned" | "\<not> banned" "packet = None"
    | b where "\<not> banned" "packet = Some b" "read_preamble ReadBytes (Authenticate (users s)) b = None"
    | b v r where "\<not> banned" "packet = Some b" "read_preamble ReadBytes (Authenticate (users s)) b = Some (v, r)"
    by (metis option.exhaust prod.collapse)
  then show ?thesis
  proof cases
    case 1
    with lim show ?thesis by (simp add: handle_start_def)
  next
    case 2
    with lim show ?thesis by (simp add: handle_start_def)
  next
    case (3 b)
    then have "\<not> (\<exists>h n pad. b = h @ put_u16 n @ pad @ rest
        \<and> Authenticate (users s) h = Some u \<and> length pad = unat n)"
      unfolding cs.read_preamble_iff [symmetric] by (simp add: rb)
    with 3 lim show ?thesis by (simp add: handle_start_def)
  next
    case (4 b v r)
    have "(\<exists>h n pad. b = h @ put_u16 n @ pad @ rest
        \<and> Authenticate (users s) h = Some u \<and> length pad = unat n) \<longleftrightarrow> v = u \<and> r = rest"
      unfolding cs.read_preamble_iff [symmetric] using 4(3) by (simp add: rb)
    moreover have "device_allowed (s\<lparr>connLimiter := lim\<rparr>) alive v = device_allowed s alive v"
      by (simp add: device_allowed_def)
    ultimately show ?thesis
      using 4 lim by (auto simp: handle_start_def Let_def split: prod.split)
  qed
qed

theorem handle_start_spec_witness:
  "\<exists>l. snd (handle_start take_bytes ''1.2.3.4'' 5 6 (Some (replicate 32 7 @ put_u16 1 @ [0] @ [9]))
      (Inl NetworkError) sample_parts) = Served (mk_entry (\<lambda>b. replicate 32 7) (hd sample_users)) [9] l"
proof -
  let ?p = "replicate 32 7 @ put_u16 1 @ [0] @ [9]" and ?u = "mk_entry (\<lambda>b. replicate 32 7) (hd sample_users)"
  obtain s' out where h: "handle_start take_bytes ''1.2.3.4'' 5 6 (Some ?p) (Inl NetworkError) sample_parts
      = (s', out)" by fastforce
  have ban: "\<not> snd (IsBanned ''1.2.3.4'' 5 (connLimiter sample_parts))"
    by (simp add: sample_parts_def NewConnRateLimiter_def IsBanned_def)
  have dev: "device_allowed sample_parts (Inl NetworkError) ?u" by (simp add: device_allowed_def)
  have "Authenticate (users sample_parts) (replicate 32 7) = Some ?u" "length [0 :: byte] = unat (1 :: u16)"
    using sample_table_auth by (simp_all add: sample_parts_def)
  then have "\<exists>h n pad. Some ?p = Some (h @ put_u16 n @ pad @ [9])
      \<and> Authenticate (users sample_parts) h = Some ?u \<and> length pad = unat n"
    by blast
  with ban dev handle_start_spec [OF take_bytes_ok, where ip = "''1.2.3.4''" and now = 5 and later = 6
      and packet = "Some ?p" and alive = "Inl NetworkError" and s = sample_parts and u = ?u and rest = "[9]"]
  show ?thesis unfolding h by simp
qed

text \<open>Connections from one address, each with its two times and its first packet.\<close>

definition connect_all ::
    "read_bytes \<Rightarrow> string \<Rightarrow> (int \<times> int \<times> bytes) list \<Rightarrow> (api_error + (int \<rightharpoonup> int)) \<Rightarrow> server_parts \<Rightarrow> server_parts" where
  "connect_all ReadBytes ip cs alive s = fold (\<lambda>(t, t2, b) s. fst (handle_start ReadBytes ip t t2 (Some b) alive s)) cs s"

lemma connect_all_limiter:
  "users (connect_all ReadBytes ip cs alive s) = users s \<and>
   connLimiter (connect_all ReadBytes ip cs alive s) =
     fold fg.attempt (map (\<lambda>(t, t2, b). (ip, t, t2, read_preamble ReadBytes (Authenticate (users s)) b \<noteq> None)) cs)
       (connLimiter s)"
proof (induction cs arbitrary: s)
  case (Cons c cs)
  obtain t t2 b where c: "c = (t, t2, b)" by (cases c)
  have "connect_all ReadBytes ip (c # cs) alive s
      = connect_all ReadBytes ip cs alive (fst (handle_start ReadBytes ip t t2 (Some b) alive s))"
    by (simp add: connect_all_def c)
  with Cons show ?case by (simp add: c handle_start_limiter handle_start_users)
qed (simp add: connect_all_def)

lemma attacked_attempt:
  assumes "attacked t0 n (r ip)" and "t0 \<le> t" and "t \<le> t0 + failWindow"
    and "t0 \<le> t2" and "t2 \<le> t0 + failWindow"
  shows "\<exists>m. min 11 (Suc n) \<le> m \<and> attacked t0 m (fg.attempt (ip, t, t2, False) r ip)"
proof -
  have chk: "attacked t0 n (fst (IsBanned ip t r) ip)"
    using attacked_do [of t0 n r ip "Check ip t"] assms by simp
  show ?thesis
  proof (cases "snd (IsBanned ip t r)")
    case True
    then have "11 \<le> n" using assms(1)
      by (auto simp: attacked_def IsBanned_def split: option.splits)
    with True chk show ?thesis by (intro exI [of _ n]) (simp add: fg.attempt_def)
  next
    case False
    have "attacked t0 (Suc n) (RecordFailure ip t2 (fst (IsBanned ip t r)) ip)"
      using attacked_do [of t0 n "fst (IsBanned ip t r)" ip "Fail ip t2"] chk assms(4,5) by simp
    with False show ?thesis by (intro exI [of _ "Suc n"]) (simp add: fg.attempt_def)
  qed
qed

lemma attacked_attempts:
  "attacked t0 n (r ip) \<Longrightarrow> \<forall>(t, t2) \<in> set ts. t0 \<le> t \<and> t \<le> t0 + failWindow \<and> t0 \<le> t2 \<and> t2 \<le> t0 + failWindow \<Longrightarrow>
   \<exists>m. min 11 (n + length ts) \<le> m
     \<and> attacked t0 m (fold fg.attempt (map (\<lambda>(t, t2). (ip, t, t2, False)) ts) r ip)"
proof (induction ts arbitrary: n r)
  case Nil
  then show ?case by (intro exI [of _ n]) simp
next
  case (Cons c ts)
  obtain t t2 where c [simp]: "c = (t, t2)" by (cases c)
  from Cons obtain k where k: "min 11 (Suc n) \<le> k" "attacked t0 k (fg.attempt (ip, t, t2, False) r ip)"
    using attacked_attempt [of t0 n r ip t t2] by auto
  from Cons.IH [of k "fg.attempt (ip, t, t2, False) r", OF k(2)] Cons.prems(2) obtain m where
    "min 11 (k + length ts) \<le> m"
    "attacked t0 m (fold fg.attempt (map (\<lambda>(t, t2). (ip, t, t2, False)) ts) (fg.attempt (ip, t, t2, False) r) ip)"
    by auto
  with k(1) show ?case by (intro exI [of _ m]) simp
qed

text \<open>C14: Password guessing is stopped: after eleven connections from one address within sixty
  seconds whose first packets do not authenticate, every connection from that address is refused
  before anything is read, with the right password too, for five minutes from the first; connections
  from other addresses are refused or not as if nothing had happened.\<close>

theorem guessing_stopped:
  assumes "connLimiter s ip = None" and "11 \<le> length cs"
    and "\<forall>(t, t2, b) \<in> set cs. t0 \<le> t \<and> t \<le> t0 + failWindow \<and> t0 \<le> t2 \<and> t2 \<le> t0 + failWindow
      \<and> read_preamble ReadBytes (Authenticate (users s)) b = None"
    and "now \<le> t0 + banDuration"
  shows "snd (handle_start ReadBytes ip now later packet alive' (connect_all ReadBytes ip cs alive s)) = RefusedBanned
    \<and> (ip' = ip \<or> snd (IsBanned ip' now' (connLimiter (connect_all ReadBytes ip cs alive s)))
                   = snd (IsBanned ip' now' (connLimiter s)))"
proof -
  let ?s = "connect_all ReadBytes ip cs alive s"
  have map: "map (\<lambda>(t, t2, b). (ip, t, t2, read_preamble ReadBytes (Authenticate (users s)) b \<noteq> None)) cs
      = map (\<lambda>(t, t2). (ip, t, t2, False)) (map (\<lambda>(t, t2, b). (t, t2)) cs)"
    using assms(3) by auto
  have lim: "connLimiter ?s = fold fg.attempt (map (\<lambda>(t, t2). (ip, t, t2, False)) (map (\<lambda>(t, t2, b). (t, t2)) cs)) (connLimiter s)"
    using connect_all_limiter [of ReadBytes ip cs alive s] unfolding map by (rule conjunct2)
  have start: "attacked t0 0 (connLimiter s ip)" using assms(1) by (simp add: attacked_def)
  have times: "\<forall>(t, t2) \<in> set (map (\<lambda>(t, t2, b). (t, t2)) cs).
      t0 \<le> t \<and> t \<le> t0 + failWindow \<and> t0 \<le> t2 \<and> t2 \<le> t0 + failWindow" using assms(3) by auto
  obtain m where "min 11 (0 + length (map (\<lambda>(t, t2, b). (t, t2)) cs)) \<le> m" and "attacked t0 m (connLimiter ?s ip)"
    using attacked_attempts [where r = "connLimiter s" and ip = ip and ts = "map (\<lambda>(t, t2, b). (t, t2)) cs", OF start times]
    unfolding lim by blast
  with assms(2) have "11 \<le> m" and "attacked t0 m (connLimiter ?s ip)" by auto
  then have "snd (IsBanned ip now (connLimiter ?s))"
    using assms(4) by (auto simp: attacked_def IsBanned_def split: option.splits)
  then have "snd (handle_start ReadBytes ip now later packet alive' ?s) = RefusedBanned"
    by (auto simp: handle_start_def split: prod.splits)
  moreover have "snd (IsBanned ip' now' (connLimiter ?s)) = snd (IsBanned ip' now' (connLimiter s))"
    if "ip' \<noteq> ip"
    unfolding lim using that by (intro fg.bystander) auto
  ultimately show ?thesis by blast
qed

theorem guessing_stopped_witness:
  "snd (handle_start take_bytes ''1.2.3.4'' 100000000000 100000000001 (Some (replicate 32 7 @ [0, 0])) (Inl NetworkError)
     (connect_all take_bytes ''1.2.3.4'' (map (\<lambda>t. (t, t + 1, [1, 2, 3])) [1 .. 11]) (Inl NetworkError) sample_parts))
   = RefusedBanned"
proof -
  have r: "read_preamble take_bytes f [1, 2, 3] = None" for f
    by (simp add: read_preamble_def take_bytes_def)
  have "\<forall>(t, t2, b) \<in> set (map (\<lambda>t. (t, t + 1, [1, 2, 3])) [1 .. 11]). 0 \<le> t \<and> t \<le> 0 + failWindow \<and> 0 \<le> t2 \<and> t2 \<le> 0 + failWindow
      \<and> read_preamble take_bytes (Authenticate (users sample_parts)) b = None"
    by (auto simp: r failWindow_def)
  moreover have "connLimiter sample_parts ''1.2.3.4'' = None"
    by (simp add: sample_parts_def NewConnRateLimiter_def)
  ultimately show ?thesis
    using guessing_stopped [of sample_parts "''1.2.3.4''" "map (\<lambda>t. (t, t + 1, [1, 2, 3])) [1 .. 11]" 0
        take_bytes 100000000000]
    by (simp add: banDuration_def)
qed

end
