(* ===== verification/Config.thy ===== *)
theory Config
  imports Prelude
begin

text \<open>
  \<^verbatim>\<open>internal/config/config.go\<close>: loading and checking the configuration of the
  server. The YAML decoder, which fills in the fields a file sets, is an argument.
\<close>

record config =
  Listen :: string
  APIHost :: string
  APIToken :: string
  NodeID :: int
  NodeType :: string
  CertFile :: string
  KeyFile :: string
  LogLevel :: string
  LogFilePath :: string
  Fallback :: string
  Standalone :: bool
  Password :: string

datatype config_error = ReadConfig | ParseConfig | NoPassword | NoAPIHost | NoAPIToken | BadNodeID

definition config_defaults :: config where
  "config_defaults = \<lparr>Listen = ''0.0.0.0:8443'', APIHost = '''', APIToken = '''', NodeID = 0,
     NodeType = ''anytls'', CertFile = '''', KeyFile = '''', LogLevel = ''info'', LogFilePath = '''',
     Fallback = '''', Standalone = False, Password = ''''\<rparr>"

definition Validate :: "config \<Rightarrow> config \<times> config_error option" where
  "Validate c =
     (if Standalone c \<and> Password c = '''' then (c, Some NoPassword)
      else if \<not> Standalone c \<and> APIHost c = '''' then (c, Some NoAPIHost)
      else if \<not> Standalone c \<and> APIToken c = '''' then (c, Some NoAPIToken)
      else if \<not> Standalone c \<and> NodeID c \<le> 0 then (c, Some BadNodeID)
      else
        (let c1 = (if Listen c = '''' then c\<lparr>Listen := ''0.0.0.0:8443''\<rparr> else c);
             c2 = (if NodeType c1 = '''' then c1\<lparr>NodeType := ''anytls''\<rparr> else c1);
             c3 = (if LogLevel c2 = '''' then c2\<lparr>LogLevel := ''info''\<rparr> else c2)
         in (c3, None)))"

definition LoadConfig ::
    "('f \<Rightarrow> config \<Rightarrow> config option) \<Rightarrow> 'f option \<Rightarrow> config_error + config" where
  "LoadConfig unmarshal file =
     (case file of
        None \<Rightarrow> Inl ReadConfig
      | Some d \<Rightarrow>
          (case unmarshal d config_defaults of
             None \<Rightarrow> Inl ParseConfig
           | Some cfg \<Rightarrow>
               (case Validate cfg of
                  (c, Some e) \<Rightarrow> Inl e
                | (c, None) \<Rightarrow> Inr c)))"

section \<open>Claims\<close>

definition mode_ok :: "config \<Rightarrow> bool" where
  "mode_ok c \<longleftrightarrow> (if Standalone c then Password c \<noteq> ''''
     else APIHost c \<noteq> '''' \<and> APIToken c \<noteq> '''' \<and> NodeID c > 0)"

text \<open>A configuration is accepted exactly when the file reads and parses and its mode has what it
  needs: a password when standalone, host, token and a positive node id otherwise. An accepted one
  has an address, a node type and a log level, the default where the file left it empty, every other
  field as the file has it, and it validates to itself.\<close>

lemma LoadConfig_spec:
  "case LoadConfig unmarshal file of
     Inr c \<Rightarrow>
       (\<exists>d cfg. file = Some d \<and> unmarshal d config_defaults = Some cfg \<and> mode_ok cfg
          \<and> c = cfg\<lparr>Listen := (if Listen cfg = '''' then ''0.0.0.0:8443'' else Listen cfg),
                    NodeType := (if NodeType cfg = '''' then ''anytls'' else NodeType cfg),
                    LogLevel := (if LogLevel cfg = '''' then ''info'' else LogLevel cfg)\<rparr>)
       \<and> mode_ok c \<and> Listen c \<noteq> '''' \<and> NodeType c \<noteq> '''' \<and> LogLevel c \<noteq> ''''
       \<and> Validate c = (c, None)
   | Inl e \<Rightarrow>
       (case file of
          None \<Rightarrow> e = ReadConfig
        | Some d \<Rightarrow>
            (case unmarshal d config_defaults of
               None \<Rightarrow> e = ParseConfig
             | Some cfg \<Rightarrow> \<not> mode_ok cfg \<and> Validate cfg = (cfg, Some e)))"
proof (cases "file")
  case (Some d)
  show ?thesis
  proof (cases "unmarshal d config_defaults")
    case None
    with Some show ?thesis by (simp add: LoadConfig_def)
  next
    case (Some cfg)
    show ?thesis
    proof (cases "mode_ok cfg")
      case True
      then show ?thesis
        using \<open>file = Some d\<close> Some
        by (cases cfg) (auto simp: LoadConfig_def Validate_def mode_ok_def Let_def)
    next
      case False
      then have "\<exists>e. Validate cfg = (cfg, Some e)"
        by (auto simp: Validate_def mode_ok_def split: if_splits)
      with False \<open>file = Some d\<close> Some show ?thesis by (auto simp: LoadConfig_def)
    qed
  qed
qed (simp add: LoadConfig_def)

end
