(* ===== verification/Sync.thy ===== *)
theory Sync
  imports Handler Config
begin

text \<open>
  \<^verbatim>\<open>internal/server/sync.go\<close> and the start and end of \<^verbatim>\<open>internal/server/server.go\<close>:
  the cycles that exchange users, configuration and traffic with the panel, the address the server
  listens on, and the shutdown. The panel, the decoders and the file system are a record of
  parameters; what other goroutines do during a call is an argument where it matters.
\<close>

section \<open>The server and its surroundings\<close>

record ('b, 'f) surroundings =
  sha256 :: "bytes \<Rightarrow> bytes"
  md5sum :: "bytes \<Rightarrow> string"
  un_users :: "'b \<Rightarrow> user list option option"
  un_config :: "'b \<Rightarrow> NodeConfig option"
  panel_users :: "string option \<Rightarrow> nat \<Rightarrow> 'b attempt"
  panel_config :: "nat \<Rightarrow> 'b attempt"
  panel_push :: "(string \<times> traffic) list \<Rightarrow> nat \<Rightarrow> 'b attempt"
  panel_alive :: "(string \<times> string list) list \<Rightarrow> nat \<Rightarrow> 'b attempt"
  panel_status :: "NodeStatus \<Rightarrow> nat \<Rightarrow> 'b attempt"
  machine :: metrics
  marshal :: "persistedData \<Rightarrow> go_error + 'f"
  write_file :: "'f \<Rightarrow> 'f disk_file \<times> go_error option"

record 'f server =
  settings :: config
  parts :: server_parts
  userETag :: string
  nodeConfig :: NodeConfig
  padCell :: PaddingFactory
  trafficCounter :: counter
  disk :: "'f disk_file"

text \<open>A surrounding for the witnesses: the panel answers the second attempt of a report.\<close>

definition sample_world :: "(unit, persistedData) surroundings" where
  "sample_world = \<lparr>sha256 = (\<lambda>b. replicate 32 7), md5sum = (\<lambda>b. ''''), un_users = (\<lambda>_. None),
     un_config = (\<lambda>_. None), panel_users = (\<lambda>_ _. Inl NetworkError), panel_config = (\<lambda>_. Inl NetworkError),
     panel_push = (\<lambda>_ i. if i = 0 then Inl NetworkError else Inr \<lparr>status = 200, etag = '''', body = None\<rparr>),
     panel_alive = (\<lambda>_ _. Inl NetworkError), panel_status = (\<lambda>_ _. Inl NetworkError),
     machine = \<lparr>cpu_Percent = None, mem_VirtualMemory = None, mem_SwapMemory = None, disk_Usage = (\<lambda>_. None)\<rparr>,
     marshal = Inr, write_file = (\<lambda>b. (Present b, None))\<rparr>"

definition no_padding :: PaddingFactory where
  "no_padding = \<lparr>scheme = [], RawScheme = [], Stop = 0, Md5 = ''''\<rparr>"

section \<open>The pull cycle\<close>

definition store_config ::
    "(bytes \<Rightarrow> string) \<Rightarrow> NodeConfig \<Rightarrow> 'f server \<Rightarrow> 'f server" where
  "store_config md5 cfg s =
     s\<lparr>nodeConfig := cfg,
       padCell := (if PaddingScheme cfg \<noteq> []
         then fst (UpdatePaddingScheme md5 (PaddingSchemeToBytes (PaddingScheme cfg)) (padCell s))
         else padCell s)\<rparr>"

definition doPull :: "('b, 'f) surroundings \<Rightarrow> int \<Rightarrow> 'f server \<Rightarrow> 'f server" where
  "doPull E now s =
     (let (tag, tbl) = pull_users (sha256 E) (un_users E) (panel_users E) (userETag s, users (parts s));
          s1 = s\<lparr>userETag := tag, parts := (parts s)\<lparr>users := tbl\<rparr>\<rparr>;
          (cell, r) = FetchConfig (md5sum E) (un_config E) (panel_config E) (padCell s1);
          s2 = s1\<lparr>padCell := cell\<rparr>;
          s3 = (case r of Inl e \<Rightarrow> s2 | Inr cfg \<Rightarrow> store_config (md5sum E) cfg s2)
      in s3\<lparr>parts := (parts s3)\<lparr>connLimiter := Cleanup now (connLimiter (parts s3))\<rparr>\<rparr>)"

section \<open>The push cycle\<close>

text \<open>What a cycle says to the panel and the log, in its order.\<close>

datatype report =
    TrafficReported "(int \<times> traffic) list" "api_error option"
  | AliveReported "(int \<times> string list) list" "api_error option"
  | StatusReported NodeStatus "api_error option"
  | SaveFailed go_error

text \<open>The end of the report of a snapshot: nothing to report, reported, or merged back.\<close>

definition push_settle ::
    "((string \<times> traffic) list \<Rightarrow> nat \<Rightarrow> 'b attempt) \<Rightarrow> (int \<times> traffic) list \<Rightarrow> counter \<Rightarrow>
     counter \<times> report list" where
  "push_settle panel snapshot c =
     (if snapshot \<noteq> [] then
        (case PushTraffic panel snapshot of
           Some e \<Rightarrow> (Merge snapshot c, [TrafficReported snapshot (Some e)])
         | None \<Rightarrow> (c, [TrafficReported snapshot None]))
      else (c, []))"

definition doPush ::
    "('b, 'f) surroundings \<Rightarrow> int \<Rightarrow> 'f server \<Rightarrow> 'f server \<times> report list" where
  "doPush E now s =
     (let (c1, trafficSnapshot) = Snapshot (trafficCounter s);
          (c2, r1) = push_settle (panel_push E) trafficSnapshot c1;
          aliveSnapshot = alive_Snapshot (aliveTracker (parts s));
          r2 = (if aliveSnapshot \<noteq> []
                then [AliveReported aliveSnapshot (PushAlive (panel_alive E) aliveSnapshot)] else []);
          r3 = (case collectSystemInfo (machine E) of
                  Inl _ \<Rightarrow> []
                | Inr st \<Rightarrow> [StatusReported st (PushStatus (panel_status E) st)]);
          (f, err) = SaveToFile (marshal E) (write_file E) now c2 (disk s)
      in (s\<lparr>trafficCounter := c2, disk := f\<rparr>,
          r1 @ r2 @ r3 @ (case err of None \<Rightarrow> [] | Some e \<Rightarrow> [SaveFailed e])))"

section \<open>The loop\<close>

text \<open>Nanoseconds between two ticks, in \<open>int64\<close>.\<close>

definition sync_interval :: "int \<Rightarrow> int" where
  "sync_interval secs = (let d = wrap64 (secs * 10 ^ 9) in if d \<le> 0 then 60 * 10 ^ 9 else d)"

datatype ('b, 'f) tick = PullTick "('b, 'f) surroundings" int | PushTick "('b, 'f) surroundings" int | Done

fun syncLoop :: "('b, 'f) tick list \<Rightarrow> 'f server \<Rightarrow> 'f server \<times> report list" where
  "syncLoop [] s = (s, [])"
| "syncLoop (Done # ts) s = (s, [])"
| "syncLoop (PullTick E now # ts) s = syncLoop ts (doPull E now s)"
| "syncLoop (PushTick E now # ts) s =
     (case doPush E now s of (s', r) \<Rightarrow> (case syncLoop ts s' of (s'', r') \<Rightarrow> (s'', r @ r')))"

text \<open>Both tickers get a positive period: \<open>time.NewTicker\<close> panics on any other.\<close>

lemma sync_interval_positive: "0 < sync_interval secs"
  by (simp add: sync_interval_def Let_def)

section \<open>Shutting down\<close>

text \<open>\<open>during\<close> is what the open connections count while the last report is under way, \<open>late\<close>
  what they count while \<open>Shutdown\<close> waits for them after the file is written: a user and the two
  amounts each.\<close>

definition count_all :: "(int \<times> traffic) list \<Rightarrow> counter \<Rightarrow> counter" where
  "count_all es c = fold (\<lambda>(uid, t). Add uid (fst t) (snd t)) es c"

definition Shutdown ::
    "('b, 'f) surroundings \<Rightarrow> int \<Rightarrow> (int \<times> traffic) list \<Rightarrow> (int \<times> traffic) list \<Rightarrow> 'f server \<Rightarrow>
     'f server \<times> report list" where
  "Shutdown E now during late s =
     (let (c2, r1) =
            (if \<not> Standalone (settings s) then
               (case Snapshot (trafficCounter s) of (c1, snapshot) \<Rightarrow>
                  push_settle (panel_push E) snapshot (count_all during c1))
             else (count_all during (trafficCounter s), []));
          (f, err) = SaveToFile (marshal E) (write_file E) now c2 (disk s)
      in (s\<lparr>trafficCounter := count_all late c2, disk := f\<rparr>,
          r1 @ (case err of None \<Rightarrow> [] | Some e \<Rightarrow> [SaveFailed e])))"


section \<open>The address the server listens on\<close>

text \<open>\<open>net.SplitHostPort\<close>, \<open>None\<close> for each of its errors.\<close>

definition SplitHostPort :: "string \<Rightarrow> (string \<times> string) option" where
  "SplitHostPort hostport =
     (case last_split CHR '':'' hostport of
        None \<Rightarrow> None
      | Some (host, port) \<Rightarrow>
          (if hd hostport = CHR ''['' then
             (let inner = takeWhile (\<lambda>x. x \<noteq> CHR '']'') (tl hostport);
                  rest = tl (dropWhile (\<lambda>x. x \<noteq> CHR '']'') hostport)
              in if CHR '']'' \<in> set hostport \<and> rest = CHR '':'' # port
                   \<and> CHR ''['' \<notin> set (tl hostport) \<and> CHR '']'' \<notin> set rest
                 then Some (inner, port) else None)
           else if CHR '':'' \<in> set host \<or> CHR ''['' \<in> set hostport \<or> CHR '']'' \<in> set hostport
           then None else Some (host, port)))"

definition listen_address :: "string \<Rightarrow> int \<Rightarrow> string" where
  "listen_address listenAddr serverPort =
     (if serverPort > 0 then
        (case SplitHostPort listenAddr of
           None \<Rightarrow> listenAddr @ '':'' @ itoa serverPort
         | Some (host, _) \<Rightarrow> host @ '':'' @ itoa serverPort)
      else listenAddr)"

section \<open>Starting\<close>

datatype start_error = NoConfig api_error | NoUsers api_error

text \<open>\<open>Start\<close> up to the call of \<open>net.Listen\<close>: the address it is called with.\<close>

definition Start_listen ::
    "('b, 'f) surroundings \<Rightarrow> 'f server \<Rightarrow> 'f server \<times> (start_error + string)" where
  "Start_listen E s =
     (if Standalone (settings s) then
        (s\<lparr>parts := (parts s)\<lparr>users := UpdateUsers (sha256 E)
             [\<lparr>user_ID = 1, user_UUID = Password (settings s), user_SpeedLimit = None,
               user_DeviceLimit = None\<rparr>]\<rparr>\<rparr>,
         Inr (Listen (settings s)))
      else
        (case FetchConfig (md5sum E) (un_config E) (panel_config E) (padCell s) of
           (cell, Inl e) \<Rightarrow> (s\<lparr>padCell := cell\<rparr>, Inl (NoConfig e))
         | (cell, Inr cfg) \<Rightarrow>
             (let s1 = s\<lparr>padCell := cell, nodeConfig := cfg\<rparr>
              in case FetchUsers (un_users E) (panel_users E) (userETag s1) of
                   (tag, Inl e) \<Rightarrow> (s1\<lparr>userETag := tag\<rparr>, Inl (NoUsers e))
                 | (tag, Inr us) \<Rightarrow>
                     (s1\<lparr>userETag := tag,
                         parts := (case us of None \<Rightarrow> parts s1
                           | Some l \<Rightarrow> (parts s1)\<lparr>users := UpdateUsers (sha256 E) l\<rparr>)\<rparr>,
                      Inr (listen_address (Listen (settings s)) (ServerPort cfg))))))"

text \<open>The accept loop: the connections handed to a handler and whether the loop has returned. A
  failure carries whether the context was cancelled and whether the listener was closed.\<close>

datatype accept_result = Accepted | AcceptFailed bool bool

fun accept_loop :: "accept_result list \<Rightarrow> nat \<times> bool" where
  "accept_loop [] = (0, False)"
| "accept_loop (Accepted # as) = (case accept_loop as of (n, r) \<Rightarrow> (Suc n, r))"
| "accept_loop (AcceptFailed cancelled closed # as) =
     (if cancelled \<or> closed then (0, True) else accept_loop as)"


lemma digit_char_plain: "d < 10 \<Longrightarrow> digit_char d \<notin> {CHR '':'', CHR ''['', CHR '']''}"
  using digit_val_char [of d] by (auto simp: digit_val_def)

lemma nat_digits_plain: "set (nat_digits n) \<inter> {CHR '':'', CHR ''['', CHR '']''} = {}"
proof (induction n rule: nat_digits.induct)
  case (1 n)
  then show ?case
    using digit_char_plain [of n] digit_char_plain [of "n mod 10"]
    by (cases "n < 10") (simp_all add: nat_digits.simps [of n])
qed

lemma itoa_plain: "n > 0 \<Longrightarrow> set (itoa n) \<inter> {CHR '':'', CHR ''['', CHR '']''} = {}"
  using nat_digits_plain by (simp add: itoa_def)

definition plain_part :: "string \<Rightarrow> bool" where
  "plain_part s \<longleftrightarrow> set s \<inter> {CHR '':'', CHR ''['', CHR '']''} = {}"

lemma split_plain:
  assumes "plain_part h" and "plain_part p"
  shows "SplitHostPort (h @ '':'' @ p) = Some (h, p)" and "SplitHostPort h = None"
proof -
  have "hd (h @ '':'' @ p) \<noteq> CHR ''[''" using assms(1) by (cases h) (auto simp: plain_part_def)
  then show "SplitHostPort (h @ '':'' @ p) = Some (h, p)"
    using assms last_split_at [of "CHR '':''" p h] by (auto simp: SplitHostPort_def plain_part_def)
  show "SplitHostPort h = None"
    using assms(1) by (simp add: SplitHostPort_def last_split_def plain_part_def)
qed

lemma split_bracketed:
  assumes "CHR ''['' \<notin> set h" and "CHR '']'' \<notin> set h" and "plain_part p"
  shows "SplitHostPort (''['' @ h @ '']:'' @ p) = Some (h, p)"
proof -
  have "last_split CHR '':'' ((''['' @ h @ '']'') @ CHR '':'' # p) = Some (''['' @ h @ '']'', p)"
    using assms(3) by (intro last_split_at) (simp add: plain_part_def)
  then show ?thesis
    using assms by (auto simp: SplitHostPort_def Let_def plain_part_def up_to)
qed

lemma split_too_many:
  assumes "CHR '':'' \<in> set h" and "CHR ''['' \<notin> set h" and "plain_part p"
  shows "SplitHostPort (h @ '':'' @ p) = None"
proof -
  have "last_split CHR '':'' (h @ CHR '':'' # p) = Some (h, p)"
    using assms(3) by (intro last_split_at) (simp add: plain_part_def)
  moreover have "hd (h @ '':'' @ p) \<noteq> CHR ''[''" using assms(1,2) by (cases h) auto
  ultimately show ?thesis using assms(1) by (simp add: SplitHostPort_def)
qed

text \<open>C38: The panel's port replaces the configured one, or completes an address without one, and the
  result is an address \<open>net.Listen\<close> can split; but a configured IPv6 address loses its brackets,
  and what is left has too many colons to be split, so that the server cannot listen at all.\<close>

theorem listen_address_port:
  assumes "CHR ''['' \<notin> set h" and "CHR '']'' \<notin> set h" and "plain_part p" and "port > 0"
  shows "if CHR '':'' \<notin> set h
    then listen_address (h @ '':'' @ p) port = h @ '':'' @ itoa port
      \<and> listen_address h port = h @ '':'' @ itoa port
      \<and> SplitHostPort (h @ '':'' @ itoa port) = Some (h, itoa port)
    else listen_address (''['' @ h @ '']:'' @ p) port = h @ '':'' @ itoa port
      \<and> SplitHostPort (h @ '':'' @ itoa port) = None"
proof -
  have i: "plain_part (itoa port)" using itoa_plain [OF assms(4)] by (simp add: plain_part_def)
  show ?thesis
  proof (cases "CHR '':'' \<in> set h")
    case True
    then show ?thesis
      using assms(4) split_bracketed [OF assms(1-3)] split_too_many [OF True assms(1) i]
      by (simp add: listen_address_def)
  next
    case False
    then have "plain_part h" using assms(1,2) by (simp add: plain_part_def)
    with False show ?thesis
      using assms(4) split_plain [OF \<open>plain_part h\<close> assms(3)] split_plain [OF \<open>plain_part h\<close> i]
      by (simp add: listen_address_def)
  qed
qed

theorem listen_address_port_witness:
  "listen_address ''0.0.0.0:8443'' 443 = ''0.0.0.0:443''
   \<and> listen_address ''[::]:8443'' 443 = '':::443'' \<and> SplitHostPort '':::443'' = None"
proof -
  have p: "plain_part ''8443''" by (simp add: plain_part_def)
  have n: "itoa 443 = ''443''" by code_simp
  show ?thesis
    using listen_address_port [OF _ _ p, of "''0.0.0.0''" 443] listen_address_port [OF _ _ p, of "''::''" 443]
    by (simp add: n)
qed

end
