(* ===== verification/Urls.thy ===== *)
theory Urls
  imports StringMap "HOL-Library.Char_ord" "HOL-Library.List_Lexorder"
begin

text \<open>
  The part of Go's \<^verbatim>\<open>net/url\<close> that the two programs and the panel's client use:
  escaping by mode, query strings, building a link and taking one apart; and the facts that
  unescaping undoes escaping and parsing a query undoes encoding it. A string is a string of bytes.
\<close>

section \<open>Escaping\<close>

datatype encoding = encodeHost | encodeZone | encodeUserPassword | encodeQueryComponent | encodePath

definition between :: "char \<Rightarrow> char \<Rightarrow> char \<Rightarrow> bool" where
  "between a b c \<longleftrightarrow> (of_char a :: nat) \<le> of_char c \<and> (of_char c :: nat) \<le> of_char b"

definition letter :: "char \<Rightarrow> bool" where
  "letter c \<longleftrightarrow> between CHR ''a'' CHR ''z'' c \<or> between CHR ''A'' CHR ''Z'' c"

definition digit :: "char \<Rightarrow> bool" where
  "digit c \<longleftrightarrow> between CHR ''0'' CHR ''9'' c"

text \<open>\<open>encodePath\<close> occurs below only where a path is unescaped, which does not ask \<open>shouldEscape\<close>.\<close>

definition shouldEscape :: "char \<Rightarrow> encoding \<Rightarrow> bool" where
  "shouldEscape c m =
     (if letter c \<or> digit c then False
      else if (m = encodeHost \<or> m = encodeZone) \<and> c \<in> set (CHR 0x27 # CHR 0x22 # ''!$&()*+,;=:[]<>'') then False
      else if c \<in> set ''-_.~'' then False
      else if c \<in> set ''$&+,/:;=?@'' \<and> m = encodeUserPassword then c \<in> set ''@/?:''
      else True)"

definition hex_char :: "nat \<Rightarrow> char" where
  "hex_char n = (if n < 10 then char_of (48 + n) else char_of (55 + n))"

definition unhex :: "char \<Rightarrow> nat option" where
  "unhex c =
     (if digit c then Some (of_char c - 48)
      else if between CHR ''a'' CHR ''f'' c then Some (of_char c - 87)
      else if between CHR ''A'' CHR ''F'' c then Some (of_char c - 55) else None)"

definition escape_char :: "encoding \<Rightarrow> char \<Rightarrow> string" where
  "escape_char m c =
     (if c = CHR '' '' \<and> m = encodeQueryComponent then ''+''
      else if shouldEscape c m
      then [CHR ''%'', hex_char (of_char c div 16), hex_char (of_char c mod 16)] else [c])"

definition escape :: "encoding \<Rightarrow> string \<Rightarrow> string" where
  "escape m s = concat (map (escape_char m) s)"

text \<open>In a host only bytes beyond ASCII may be escaped, and in a zone only what a host may have.\<close>

definition refused_escape :: "encoding \<Rightarrow> nat \<Rightarrow> nat \<Rightarrow> bool" where
  "refused_escape m x y =
     (if (x, y) = (2, 5) then False
      else (m = encodeHost \<and> x < 8)
        \<or> (m = encodeZone \<and> char_of (16 * x + y) \<noteq> CHR '' '' \<and> shouldEscape (char_of (16 * x + y)) encodeHost))"

fun unescape :: "encoding \<Rightarrow> string \<Rightarrow> string option" where
  "unescape m [] = Some []"
| "unescape m (c # cs) =
     (if c = CHR ''%'' then
        (case cs of
           a # b # rest \<Rightarrow>
             (case (unhex a, unhex b) of
                (Some x, Some y) \<Rightarrow>
                  (if refused_escape m x y then None
                   else map_option ((#) (char_of (16 * x + y))) (unescape m rest))
              | _ \<Rightarrow> None)
         | _ \<Rightarrow> None)
      else if (m = encodeHost \<or> m = encodeZone) \<and> of_char c < (128 :: nat) \<and> shouldEscape c m then None
      else map_option ((#) (if c = CHR ''+'' \<and> m = encodeQueryComponent then CHR '' '' else c))
             (unescape m cs))"

lemma of_hex_char: "n < 16 \<Longrightarrow> of_char (hex_char n) = (if n < 10 then 48 + n else 55 + n)"
  by (simp add: hex_char_def)

lemma unhex_hex_char: "n < 16 \<Longrightarrow> unhex (hex_char n) = Some n"
  by (auto simp: unhex_def of_hex_char digit_def between_def)

lemma hex_char_plain: "n < 16 \<Longrightarrow> letter (hex_char n) \<or> digit (hex_char n)"
  by (auto simp: letter_def digit_def between_def of_hex_char)

lemma char_of_hex: "char_of (16 * (of_char c div 16) + of_char c mod 16 :: nat) = (c :: char)"
  by simp

lemma of_char_hex: "(of_char c :: nat) div 16 < 16" "(of_char c :: nat) mod 16 < 16"
  using of_char_bound [of c] by (simp_all add: less_mult_imp_div_less)

lemma escape_Cons: "escape m (c # cs) = escape_char m c @ escape m cs"
  by (simp add: escape_def)

lemma escape_Nil [simp]: "escape m [] = []" by (simp add: escape_def)

lemma unescape_escape:
  assumes "m = encodeUserPassword \<or> m = encodeQueryComponent"
  shows "unescape m (escape m s) = Some s"
proof (induction s)
  case (Cons c s)
  have plain: "c \<noteq> CHR ''%'' \<and> (m = encodeQueryComponent \<longrightarrow> c \<noteq> CHR ''+'')" if "\<not> shouldEscape c m"
    using that by (auto simp: shouldEscape_def letter_def digit_def between_def split: if_splits)
  have "\<not> refused_escape m x y" for x y using assms by (auto simp: refused_escape_def)
  with Cons.IH plain assms show ?case
    by (auto simp: escape_Cons escape_char_def unhex_hex_char of_char_hex)
qed simp

text \<open>What an escaped string is made of.\<close>

lemma escape_chars:
  "c \<in> set (escape m s) \<Longrightarrow> c = CHR ''%'' \<or> (c = CHR ''+'' \<and> m = encodeQueryComponent) \<or> \<not> shouldEscape c m"
proof (induction s)
  case (Cons d s)
  have "\<not> shouldEscape (hex_char n) m" if "n < 16" for n
    using hex_char_plain [OF that] by (auto simp: shouldEscape_def)
  with Cons show ?case
    by (auto simp: escape_Cons escape_char_def of_char_hex split: if_splits)
qed simp

lemma escape_id: "(\<forall>c \<in> set s. \<not> shouldEscape c m \<and> c \<noteq> CHR '' '') \<Longrightarrow> escape m s = s"
  by (induction s) (simp_all add: escape_Cons escape_char_def)

lemma length_escape: "length s \<le> length (escape m s)"
  by (induction s) (auto simp: escape_Cons escape_char_def)

lemma escape_fixed:
  assumes "m \<noteq> encodeQueryComponent"
  shows "escape m s = s \<longleftrightarrow> (\<forall>c \<in> set s. \<not> shouldEscape c m)"
proof (induction s)
  case (Cons c s)
  have "length (escape m (c # s)) > length (c # s)" if "shouldEscape c m"
    using that assms length_escape [of s m] by (simp add: escape_Cons escape_char_def)
  then have "escape m (c # s) \<noteq> c # s" if "shouldEscape c m" using that by fastforce
  with Cons assms show ?case by (auto simp: escape_Cons escape_char_def)
qed simp

section \<open>Query strings\<close>

definition cut :: "char \<Rightarrow> string \<Rightarrow> string \<times> string" where
  "cut c s = (takeWhile (\<lambda>x. x \<noteq> c) s, drop 1 (dropWhile (\<lambda>x. x \<noteq> c) s))"

text \<open>\<open>Values.Encode\<close>, for values set once each: in the order of the keys.\<close>

definition pair_text :: "string \<times> string \<Rightarrow> string" where
  "pair_text p = escape encodeQueryComponent (fst p) @ ''='' @ escape encodeQueryComponent (snd p)"

definition Encode :: "(string \<times> string) list \<Rightarrow> string" where
  "Encode ps = join CHR ''&'' (map pair_text (sort_key fst ps))"

definition query_pair :: "string \<Rightarrow> (string \<times> string) option" where
  "query_pair part =
     (if CHR '';'' \<in> set part \<or> part = [] then None
      else (case cut CHR ''='' part of (k, v) \<Rightarrow>
        (case (unescape encodeQueryComponent k, unescape encodeQueryComponent v) of
           (Some k', Some v') \<Rightarrow> Some (k', v') | _ \<Rightarrow> None)))"

text \<open>\<open>URL.Query\<close>: a part that does not parse is skipped.\<close>

definition ParseQuery :: "string \<Rightarrow> (string \<times> string) list" where
  "ParseQuery q = List.map_filter query_pair (split_on CHR ''&'' q)"

definition Get :: "(string \<times> string) list \<Rightarrow> string \<Rightarrow> string" where
  "Get vs k = (case map_of vs k of None \<Rightarrow> '''' | Some v \<Rightarrow> v)"

lemma cut_at: "c \<notin> set s \<Longrightarrow> cut c (s @ c # t) = (s, t)"
  by (simp add: cut_def up_to)

lemma cut_free: "c \<notin> set s \<Longrightarrow> cut c s = (s, [])"
  by (induction s) (auto simp: cut_def)

lemma escaped_query_chars:
  assumes "c \<in> set (escape encodeQueryComponent s)"
  shows "c \<notin> set ''&=;#?/@:[]''"
proof -
  have "\<forall>d \<in> set ''&=;#?/@:[]''. shouldEscape d encodeQueryComponent \<and> d \<noteq> CHR ''%'' \<and> d \<noteq> CHR ''+''"
    by (simp add: shouldEscape_def letter_def digit_def between_def)
  with escape_chars [OF assms] show ?thesis by blast
qed

lemma query_pair_text: "query_pair (pair_text p) = Some p"
proof -
  have "CHR ''='' \<notin> set (escape encodeQueryComponent s)" "CHR '';'' \<notin> set (escape encodeQueryComponent s)" for s
    using escaped_query_chars by fastforce+
  then show ?thesis by (simp add: query_pair_def pair_text_def cut_at unescape_escape)
qed

text \<open>Parsing undoes encoding, whatever the keys and values contain.\<close>

lemma ParseQuery_Encode: "ParseQuery (Encode ps) = sort_key fst ps"
proof (cases "ps = []")
  case True
  then show ?thesis by (simp add: ParseQuery_def Encode_def query_pair_def List.map_filter_simps)
next
  case False
  have "CHR ''&'' \<notin> set (pair_text p)" for p
    using escaped_query_chars [of "CHR ''&''"] by (auto simp: pair_text_def)
  moreover have "map pair_text (sort_key fst ps) \<noteq> []" using False by (metis Nil_is_map_conv length_0_conv length_sort)
  ultimately have "split_on CHR ''&'' (Encode ps) = map pair_text (sort_key fst ps)"
    unfolding Encode_def by (intro split_on_join) auto
  moreover have "List.map_filter query_pair (map pair_text qs) = qs" for qs
    by (induction qs) (simp_all add: List.map_filter_simps query_pair_text)
  ultimately show ?thesis by (simp add: ParseQuery_def)
qed

section \<open>Links\<close>

text \<open>A URL as \<open>String\<close> prints it: a scheme, a user without a password, a host with its port, no
  path, a query.\<close>

definition url_String :: "string \<Rightarrow> string \<Rightarrow> string \<Rightarrow> string \<Rightarrow> string" where
  "url_String scheme user host rawQuery =
     scheme @ ''://'' @ escape encodeUserPassword user @ ''@'' @ escape encodeHost host
     @ (if rawQuery = [] then [] else ''?'' @ rawQuery)"

text \<open>What \<open>url.Parse\<close> finds: the scheme, the host with its port, the user part as \<open>String\<close> prints it
  (escaped), and the query.\<close>

record link =
  l_scheme :: string
  l_host :: string
  l_user :: "string option"
  l_query :: string

definition lower :: "char \<Rightarrow> char" where
  "lower c = (if between CHR ''A'' CHR ''Z'' c then char_of (of_char c + 32 :: nat) else c)"

text \<open>\<open>getScheme\<close>; \<open>None\<close> stands for no scheme as for an error.\<close>

definition getScheme :: "string \<Rightarrow> (string \<times> string) option" where
  "getScheme s =
     (let n = takeWhile (\<lambda>c. letter c \<or> digit c \<or> c \<in> set ''+-.'') s;
          rest = dropWhile (\<lambda>c. letter c \<or> digit c \<or> c \<in> set ''+-.'') s
      in if n \<noteq> [] \<and> letter (hd n) \<and> rest \<noteq> [] \<and> hd rest = CHR '':'' then Some (map lower n, tl rest)
         else None)"

text \<open>The user part. \<open>validUserinfo\<close> names the characters it may have.\<close>

definition validUserinfo :: "string \<Rightarrow> bool" where
  "validUserinfo s \<longleftrightarrow>
     (\<forall>c \<in> set s. letter c \<or> digit c \<or> c \<in> set (CHR 0x27 # ''-._:~!$&()*+,;=%@''))"

definition parse_user :: "string \<Rightarrow> string option" where
  "parse_user s =
     (if \<not> validUserinfo s then None
      else (case cut CHR '':'' s of (name, password) \<Rightarrow>
        (case (unescape encodeUserPassword name, unescape encodeUserPassword password) of
           (Some n, Some p) \<Rightarrow>
             Some (escape encodeUserPassword n
               @ (if CHR '':'' \<in> set s then '':'' @ escape encodeUserPassword p else []))
         | _ \<Rightarrow> None)))"

definition validOptionalPort :: "string \<Rightarrow> bool" where
  "validOptionalPort p \<longleftrightarrow> p = [] \<or> (hd p = CHR '':'' \<and> (\<forall>c \<in> set (tl p). digit c))"

text \<open>The first occurrence of \<open>%25\<close>, where the zone of an address starts.\<close>

fun zone_at :: "string \<Rightarrow> (string \<times> string) option" where
  "zone_at [] = None"
| "zone_at (c # cs) =
     (if take 3 (c # cs) = ''%25'' then Some ([], c # cs)
      else map_option (\<lambda>(a, z). (c # a, z)) (zone_at cs))"

definition parseHost :: "string \<Rightarrow> string option" where
  "parseHost host =
     (if host \<noteq> [] \<and> hd host = CHR ''['' then
        (case last_split CHR '']'' host of
           None \<Rightarrow> None
         | Some (inner, port) \<Rightarrow>
             (if \<not> validOptionalPort port then None
              else
                (case zone_at inner of
                   Some (a, z) \<Rightarrow>
                     (case (unescape encodeHost a, unescape encodeZone z, unescape encodeHost ('']'' @ port)) of
                        (Some x, Some y, Some w) \<Rightarrow> Some (x @ y @ w) | _ \<Rightarrow> None)
                 | None \<Rightarrow> unescape encodeHost host)))
      else
        (case last_split CHR '':'' host of
           Some (h, port) \<Rightarrow>
             (if validOptionalPort ('':'' @ port) then unescape encodeHost host else None)
         | None \<Rightarrow> unescape encodeHost host))"

definition parseAuthority :: "string \<Rightarrow> (string option \<times> string) option" where
  "parseAuthority a =
     (case last_split CHR ''@'' a of
        None \<Rightarrow> map_option (Pair None) (parseHost a)
      | Some (u, h) \<Rightarrow>
          (case (parseHost h, parse_user u) of (Some h', Some u') \<Rightarrow> Some (Some u', h') | _ \<Rightarrow> None))"

definition url_Parse :: "string \<Rightarrow> link option" where
  "url_Parse raw =
     (let (u, frag) = cut CHR ''#'' raw
      in if (\<exists>c \<in> set u. of_char c < (32 :: nat) \<or> of_char c = (127 :: nat))
            \<or> unescape encodePath frag = None then None
         else
           (case getScheme u of
              None \<Rightarrow> None
            | Some (scheme, rest0) \<Rightarrow>
                (let (rest, query) = cut CHR ''?'' rest0
                 in if take 2 rest = ''//'' then
                      (let auth = takeWhile (\<lambda>c. c \<noteq> CHR ''/'') (drop 2 rest);
                           path = dropWhile (\<lambda>c. c \<noteq> CHR ''/'') (drop 2 rest)
                       in (case (parseAuthority auth, unescape encodePath path) of
                             (Some (user, host), Some _) \<Rightarrow>
                               Some \<lparr>l_scheme = scheme, l_host = host, l_user = user, l_query = query\<rparr>
                           | _ \<Rightarrow> None))
                    else if take 1 rest = ''/'' \<and> unescape encodePath rest = None then None
                    else Some \<lparr>l_scheme = scheme, l_host = [], l_user = None, l_query = query\<rparr>)))"

text \<open>\<open>net.JoinHostPort\<close>.\<close>

definition JoinHostPort :: "string \<Rightarrow> string \<Rightarrow> string" where
  "JoinHostPort host port =
     (if CHR '':'' \<in> set host then ''['' @ host @ '']:'' @ port else host @ '':'' @ port)"

section \<open>Parsing what \<open>String\<close> prints\<close>

lemma escaped_user_chars:
  assumes "c \<in> set (escape encodeUserPassword s)"
  shows "letter c \<or> digit c \<or> c \<in> set ''-_.~$&+,;=%''"
  using escape_chars [OF assms] by (auto simp: shouldEscape_def split: if_splits)

lemma escaped_query_safe:
  assumes "c \<in> set (escape encodeQueryComponent s)"
  shows "letter c \<or> digit c \<or> c \<in> set ''-_.~%+''"
  using escape_chars [OF assms] by (auto simp: shouldEscape_def split: if_splits)

lemma set_join: "set (join d ss) \<subseteq> insert d (\<Union>s \<in> set ss. set s)"
  by (induction d ss rule: join.induct) auto

lemma escaped_query_text:
  assumes "c \<in> set (Encode ps)"
  shows "letter c \<or> digit c \<or> c \<in> set ''-_.~%+&=''"
proof -
  have pair: "letter c \<or> digit c \<or> c \<in> set ''-_.~%+&=''" if "c \<in> set (pair_text p)" for p
    using that escaped_query_safe [of c "fst p"] escaped_query_safe [of c "snd p"]
    unfolding pair_text_def by auto
  have "c = CHR ''&'' \<or> (\<exists>p \<in> set ps. c \<in> set (pair_text p))"
    using assms set_join [of "CHR ''&''" "map pair_text (sort_key fst ps)"] unfolding Encode_def by auto
  with pair show ?thesis by auto
qed

lemma letter_digit_simps [simp]:
  "\<not> letter CHR '':''" "\<not> letter CHR ''/''" "\<not> letter CHR ''@''" "\<not> letter CHR ''?''" "\<not> letter CHR ''#''"
  "\<not> letter CHR ''[''" "\<not> letter CHR '']''" "\<not> letter CHR ''%''"
  "\<not> digit CHR '':''" "\<not> digit CHR ''/''" "\<not> digit CHR ''@''" "\<not> digit CHR ''?''" "\<not> digit CHR ''#''"
  "\<not> digit CHR ''[''" "\<not> digit CHR '']''" "\<not> digit CHR ''%''"
  by (simp_all add: letter_def digit_def between_def)

lemma letter_digit_printable: "letter c \<or> digit c \<Longrightarrow> 32 < (of_char c :: nat) \<and> (of_char c :: nat) < 127"
  by (auto simp: letter_def digit_def between_def)

lemma parse_user_escape: "parse_user (escape encodeUserPassword s) = Some (escape encodeUserPassword s)"
proof -
  have "validUserinfo (escape encodeUserPassword s)"
    unfolding validUserinfo_def by (auto dest!: escaped_user_chars)
  moreover have "CHR '':'' \<notin> set (escape encodeUserPassword s)"
    by (auto dest!: escaped_user_chars)
  ultimately show ?thesis by (simp add: parse_user_def cut_free unescape_escape)
qed

text \<open>Hosts that need no escaping: names, addresses, and addresses in brackets, with a port.\<close>

definition host_char :: "char \<Rightarrow> bool" where
  "host_char c \<longleftrightarrow> letter c \<or> digit c \<or> c \<in> set ''-_.:''"

lemma host_char_plain:
  assumes "host_char c \<or> c \<in> set ''[]''"
  shows "\<not> shouldEscape c encodeHost" and "c \<noteq> CHR ''%''"
proof -
  have "\<forall>d \<in> set ''-_.:[]''. \<not> shouldEscape d encodeHost" by (simp add: shouldEscape_def)
  moreover have "\<not> shouldEscape c encodeHost" if "letter c \<or> digit c" using that by (simp add: shouldEscape_def)
  moreover have "letter c \<or> digit c \<or> c \<in> set ''-_.:[]''" using assms by (auto simp: host_char_def)
  ultimately show "\<not> shouldEscape c encodeHost" by blast
  show "c \<noteq> CHR ''%''" using assms by (auto simp: host_char_def)
qed

lemma host_plain:
  assumes "\<forall>c \<in> set h. host_char c \<or> c \<in> set ''[]''"
  shows "escape encodeHost h = h" and "unescape encodeHost h = Some h"
proof -
  show "escape encodeHost h = h" using assms host_char_plain(1) by (simp add: escape_fixed)
  show "unescape encodeHost h = Some h"
    using assms
  proof (induction h)
    case (Cons c h)
    then have "\<not> shouldEscape c encodeHost" "c \<noteq> CHR ''%''" "unescape encodeHost h = Some h"
      using host_char_plain [of c] by simp_all
    then show ?case by simp
  qed simp
qed

lemma zone_free: "CHR ''%'' \<notin> set s \<Longrightarrow> zone_at s = None"
  by (induction s) (auto simp: numeral_3_eq_3)

lemma parseHost_joined:
  assumes "\<forall>c \<in> set h. host_char c" and "\<forall>c \<in> set p. digit c"
  shows "parseHost (JoinHostPort h p) = Some (JoinHostPort h p)"
    and "escape encodeHost (JoinHostPort h p) = JoinHostPort h p"
proof -
  have p: "host_char c" "c \<noteq> CHR '':''" "c \<noteq> CHR '']''" if "c \<in> set p" for c
    using assms(2) that by (auto simp: host_char_def)
  have "\<forall>c \<in> set (JoinHostPort h p). host_char c \<or> c \<in> set ''[]''"
    using assms(1) p by (auto simp: JoinHostPort_def host_char_def)
  note plain = host_plain [OF this]
  show "escape encodeHost (JoinHostPort h p) = JoinHostPort h p" by (rule plain)
  have port: "validOptionalPort (CHR '':'' # p)" using assms(2) by (simp add: validOptionalPort_def)
  show "parseHost (JoinHostPort h p) = Some (JoinHostPort h p)"
  proof (cases "CHR '':'' \<in> set h")
    case True
    have "last_split CHR '']'' ((CHR ''['' # h) @ CHR '']'' # CHR '':'' # p) = Some (CHR ''['' # h, CHR '':'' # p)"
      using p by (intro last_split_at) auto
    moreover have "zone_at (CHR ''['' # h) = None"
      using assms(1) by (intro zone_free) (auto simp: host_char_def)
    ultimately show ?thesis using True port plain(2) by (simp add: parseHost_def JoinHostPort_def)
  next
    case False
    have "last_split CHR '':'' (h @ CHR '':'' # p) = Some (h, p)"
      using p by (intro last_split_at) auto
    moreover have "hd (h @ CHR '':'' # p) \<noteq> CHR ''[''"
      using assms(1) by (cases h) (auto simp: host_char_def)
    ultimately show ?thesis using False port plain(2) by (simp add: parseHost_def JoinHostPort_def)
  qed
qed

text \<open>The characters of a printed link.\<close>

definition link_char :: "char \<Rightarrow> bool" where
  "link_char c \<longleftrightarrow> letter c \<or> digit c \<or> c \<in> set ''-_.~$&+,;=%@:[]/?''"

lemma link_char_clean: "link_char c \<Longrightarrow> 32 < (of_char c :: nat) \<and> (of_char c :: nat) < 127 \<and> c \<noteq> CHR ''#''"
proof -
  have "\<forall>d \<in> set ''-_.~$&+,;=%@:[]/?''. 32 < (of_char d :: nat) \<and> (of_char d :: nat) < 127 \<and> d \<noteq> CHR ''#''"
    by simp
  then show "link_char c \<Longrightarrow> 32 < (of_char c :: nat) \<and> (of_char c :: nat) < 127 \<and> c \<noteq> CHR ''#''"
    using letter_digit_printable [of c] letter_digit_simps(5,13) unfolding link_char_def by metis
qed

lemma subset_link_char: "letter c \<or> digit c \<or> c \<in> set s \<Longrightarrow> set s \<subseteq> set ''-_.~$&+,;=%@:[]/?'' \<Longrightarrow> link_char c"
  unfolding link_char_def by blast

lemma link_chars:
  "c \<in> set (escape encodeUserPassword s) \<Longrightarrow> link_char c"
  "c \<in> set (Encode q) \<Longrightarrow> link_char c"
  "host_char c \<Longrightarrow> link_char c"
  "digit c \<Longrightarrow> link_char c"
  by (drule escaped_user_chars, erule subset_link_char, simp)
    (drule escaped_query_text, erule subset_link_char, simp,
     unfold host_char_def, erule subset_link_char, simp, simp add: link_char_def)

lemma joined_chars:
  assumes "\<forall>c \<in> set h. host_char c" and "\<forall>c \<in> set p. digit c"
  shows "\<forall>c \<in> set (JoinHostPort h p). link_char c"
    and "CHR ''?'' \<notin> set (JoinHostPort h p)" "CHR ''/'' \<notin> set (JoinHostPort h p)" "CHR ''@'' \<notin> set (JoinHostPort h p)"
proof -
  have s: "\<forall>c \<in> set ''[]:''. link_char c" by (simp add: link_char_def)
  show "\<forall>c \<in> set (JoinHostPort h p). link_char c"
    using assms link_chars(3,4) s by (simp add: JoinHostPort_def ball_Un)
  have h: "CHR ''?'' \<notin> set h" "CHR ''/'' \<notin> set h" "CHR ''@'' \<notin> set h"
    using assms(1) by (fastforce simp: host_char_def)+
  have p: "CHR ''?'' \<notin> set p" "CHR ''/'' \<notin> set p" "CHR ''@'' \<notin> set p" using assms(2) by fastforce+
  show "CHR ''?'' \<notin> set (JoinHostPort h p)" "CHR ''/'' \<notin> set (JoinHostPort h p)" "CHR ''@'' \<notin> set (JoinHostPort h p)"
    using h p by (simp_all add: JoinHostPort_def)
qed

text \<open>The link of a user at a joined address is parsed back: the address as it was, the user as it
  is printed, the query.\<close>

lemma parse_link:
  assumes "\<forall>c \<in> set h. host_char c" and "\<forall>c \<in> set p. digit c"
  shows "url_Parse (url_String ''anytls'' user (JoinHostPort h p) (Encode q)) =
    Some \<lparr>l_scheme = ''anytls'', l_host = JoinHostPort h p,
      l_user = Some (escape encodeUserPassword user), l_query = Encode q\<rparr>"
proof -
  define u where "u = escape encodeUserPassword user"
  define a where "a = JoinHostPort h p"
  define w where "w = u @ CHR ''@'' # a"
  define t where "t = ''anytls://'' @ w @ (if Encode q = [] then [] else ''?'' @ Encode q)"
  note j = joined_chars [OF assms, folded a_def]
  have esc: "CHR ''?'' \<notin> set u" "CHR ''/'' \<notin> set u"
    using escaped_user_chars [of "CHR ''?''" user] escaped_user_chars [of "CHR ''/''" user] unfolding u_def by auto
  have "\<forall>c \<in> set t. link_char c"
  proof -
    have "\<forall>c \<in> set ''anytls://@?''. link_char c" by (simp add: link_char_def letter_def between_def)
    with j(1) link_chars(1,2) show ?thesis by (simp add: t_def w_def u_def ball_Un)
  qed
  note clean = this [THEN bspec, THEN link_char_clean]
  have 1: "\<not> (\<exists>c \<in> set t. of_char c < (32 :: nat) \<or> of_char c = (127 :: nat))"
    using clean by fastforce
  have 2: "cut CHR ''#'' t = (t, [])" using clean by (intro cut_free) blast
  have 3: "getScheme t = Some (''anytls'', ''//'' @ w @ (if Encode q = [] then [] else ''?'' @ Encode q))"
    by (simp add: t_def getScheme_def letter_def digit_def between_def lower_def)
  have "CHR ''?'' \<notin> set (''//'' @ w)" using esc j by (simp add: w_def)
  note q = cut_at [OF this, of "Encode q"] cut_free [OF this]
  have 4: "cut CHR ''?'' (''//'' @ w @ (if Encode q = [] then [] else ''?'' @ Encode q))
      = (''//'' @ w, Encode q)"
    using q by simp
  have s: "CHR ''/'' \<notin> set w" using esc j by (simp add: w_def)
  have 5: "takeWhile (\<lambda>c. c \<noteq> CHR ''/'') w = w"
    "dropWhile (\<lambda>c. c \<noteq> CHR ''/'') w = []"
    using s by (simp_all only: takeWhile_eq_all_conv dropWhile_eq_Nil_conv) blast+
  have "last_split CHR ''@'' w = Some (u, a)" unfolding w_def using j(4) by (rule last_split_at)
  then have 6: "parseAuthority w = Some (Some u, a)"
    by (simp add: u_def a_def parseAuthority_def parse_user_escape parseHost_joined(1) [OF assms])
  have "url_String ''anytls'' user a (Encode q) = t"
    by (simp add: url_String_def t_def w_def u_def a_def parseHost_joined(2) [OF assms])
  moreover have "url_Parse t = Some \<lparr>l_scheme = ''anytls'', l_host = a, l_user = Some u, l_query = Encode q\<rparr>"
    unfolding url_Parse_def 2 using 1 3 4 6 by (simp add: 5 numeral_2_eq_2)
  ultimately show ?thesis by (simp add: a_def u_def)
qed

end
