(* ===== verification/Logging.thy ===== *)
theory Logging
  imports Config GoStrings
begin

text \<open>
  \<^verbatim>\<open>internal/config/logger.go\<close>: the level and the output of the server's log, with the
  part of \<^verbatim>\<open>path/filepath\<close> it uses. Parsing a level is logrus's, making the directory and
  opening the file the operating system's: arguments.
\<close>

section \<open>filepath.Dir\<close>

text \<open>\<open>filepath.Clean\<close> on the components of a path; \<open>out\<close> is what has been kept, last first.\<close>

fun clean_parts :: "bool \<Rightarrow> string list \<Rightarrow> string list \<Rightarrow> string list" where
  "clean_parts rooted out [] = rev out"
| "clean_parts rooted out (c # cs) =
     (if c = '''' \<or> c = ''.'' then clean_parts rooted out cs
      else if c = ''..'' then
        (case out of
           [] \<Rightarrow> clean_parts rooted (if rooted then [] else [''..'']) cs
         | d # ds \<Rightarrow> if d = ''..'' then clean_parts rooted (c # out) cs else clean_parts rooted ds cs)
      else clean_parts rooted (c # out) cs)"

definition filepath_Clean :: "string \<Rightarrow> string" where
  "filepath_Clean path =
     (let rooted = (path \<noteq> '''' \<and> hd path = CHR ''/'');
          kept = join CHR ''/'' (clean_parts rooted [] (split_on CHR ''/'' path))
      in if rooted then CHR ''/'' # kept else if kept = '''' then ''.'' else kept)"

definition filepath_Dir :: "string \<Rightarrow> string" where
  "filepath_Dir path =
     filepath_Clean (case last_split CHR ''/'' path of None \<Rightarrow> '''' | Some (d, _) \<Rightarrow> d @ ''/'')"

lemma filepath_Dir_samples:
  "filepath_Dir ''/var/log/anytls/server.log'' = ''/var/log/anytls''"
  "filepath_Dir ''server.log'' = ''.''" "filepath_Dir ''/server.log'' = ''/''"
  "filepath_Dir ''../log//a/./b/../x'' = ''../log/a''"
  by code_simp+

section \<open>SetupLogger\<close>

record 'l logging =
  parseLevel :: "string \<Rightarrow> 'l option"
  infoLevel :: 'l
  mkdirAll :: "string \<Rightarrow> go_error option"
  openLog :: "string \<Rightarrow> go_error option"

datatype log_output = Stdout | StdoutAnd string

record 'l logger =
  log_level :: 'l
  log_output :: log_output

definition SetupLogger :: "'l logging \<Rightarrow> string \<Rightarrow> string \<Rightarrow> go_error + 'l logger" where
  "SetupLogger L level filePath =
     (let lvl = (case parseLevel L level of None \<Rightarrow> infoLevel L | Some l \<Rightarrow> l)
      in if filePath \<noteq> '''' then
           (case mkdirAll L (filepath_Dir filePath) of
              Some err \<Rightarrow> Inl err
            | None \<Rightarrow>
                (case openLog L filePath of
                   Some err \<Rightarrow> Inl err
                 | None \<Rightarrow> Inr \<lparr>log_level = lvl, log_output = StdoutAnd filePath\<rparr>))
         else Inr \<lparr>log_level = lvl, log_output = Stdout\<rparr>)"

text \<open>Without a file the logger cannot fail, and whatever the level is spelled like; with one, it is
  the directory or the file that fails.\<close>

lemma SetupLogger_fails:
  "(\<exists>e. SetupLogger L level path = Inl e) \<longleftrightarrow>
     path \<noteq> '''' \<and> (mkdirAll L (filepath_Dir path) \<noteq> None \<or> openLog L path \<noteq> None)"
  by (simp add: SetupLogger_def Let_def split: option.split)

end
