(* ===== verification/Startup.thy ===== *)
theory Startup
  imports Sync Urls Logging
begin

text \<open>
  How the two programs come up: \<open>NewServer\<close> and \<open>Start\<close> (\<^verbatim>\<open>internal/server/server.go\<close>), the fallback
  of \<^verbatim>\<open>internal/fallback/handler.go\<close>, and the flags and the share link of
  \<^verbatim>\<open>cmd/client/main.go\<close>. Certificates and dialling are arguments.
\<close>

section \<open>The server\<close>

datatype new_error = LoggerFailed go_error | TLSFailed go_error

text \<open>\<open>L\<close> is what the logger is set up with, \<open>tls\<close> the outcome of \<open>LoadTLSConfig\<close>, \<open>cell\<close> the padding scheme of the process; \<open>f\<close> what is
  on disk. The node configuration is nil until \<open>Start\<close> and stands for a record of zeros.\<close>

definition no_node :: NodeConfig where
  "no_node = \<lparr>ServerPort = 0, ServerName = '''', PaddingScheme = [], PushInterval = 0, PullInterval = 0\<rparr>"

definition NewServer ::
    "'l logging \<Rightarrow> (go_error + 'c) \<Rightarrow> config \<Rightarrow> PaddingFactory \<Rightarrow> 'f disk_file \<Rightarrow>
     new_error + 'c \<times> 'f server" where
  "NewServer L tls cfg cell f =
     (case SetupLogger L (LogLevel cfg) (LogFilePath cfg) of
        Inl e \<Rightarrow> Inl (LoggerFailed e)
      | Inr logger \<Rightarrow>
          (case tls of
             Inl e \<Rightarrow> Inl (TLSFailed e)
           | Inr tlsCfg \<Rightarrow>
               Inr (tlsCfg,
                 \<lparr>settings = cfg,
                  parts = \<lparr>hasAPI = \<not> Standalone cfg, users = NewManager, connLimiter = NewConnRateLimiter,
                           speedLimiter = NewSpeedLimiter, aliveTracker = NewTracker (NodeID cfg)\<rparr>,
                  userETag = '''', nodeConfig = no_node, padCell = cell, trafficCounter = NewCounter,
                  disk = f\<rparr>)))"

text \<open>\<open>Server.LoadTrafficData\<close>.\<close>

definition LoadTrafficData ::
    "('f \<Rightarrow> go_error + persistedData) \<Rightarrow> 'f server \<Rightarrow> 'f server \<times> go_error option" where
  "LoadTrafficData unmarshal s =
     (case LoadFromFile unmarshal (disk s) (trafficCounter s) of
        (c, e) \<Rightarrow> (s\<lparr>trafficCounter := c\<rparr>, e))"

text \<open>What \<open>Start\<close> comes to: an error, or the address it listens on, the goroutines it has added to the
  wait group (one for each connection, one for the cycles unless the server is standalone), and
  whether its accept loop has returned. \<open>listens\<close> is whether \<open>net.Listen\<close> succeeds on an address,
  \<open>accepts\<close> what the listener gives one after another.\<close>

datatype start_failure = NotStarted start_error | NoListener string

record started =
  listen_addr :: string
  wait_group :: nat
  returned :: bool

definition Start ::
    "('b, 'f) surroundings \<Rightarrow> (string \<Rightarrow> bool) \<Rightarrow> accept_result list \<Rightarrow> 'f server \<Rightarrow>
     'f server \<times> (start_failure + started)" where
  "Start E listens accepts s =
     (case Start_listen E s of
        (s1, Inl e) \<Rightarrow> (s1, Inl (NotStarted e))
      | (s1, Inr addr) \<Rightarrow>
          (if \<not> listens addr then (s1, Inl (NoListener addr))
           else
             (let wg = (if Standalone (settings s1) then 0 else 1)
              in case accept_loop accepts of
                   (n, r) \<Rightarrow> (s1, Inr \<lparr>listen_addr = addr, wait_group = wg + n, returned = r\<rparr>))))"

text \<open>What becomes of a connection handed to the fallback.\<close>

datatype fallback_end = ClosedAtOnce | DialledInVain | Relayed string

definition fallback_Handle :: "string \<Rightarrow> bool \<Rightarrow> fallback_end" where
  "fallback_Handle target dialled =
     (if target = '''' then ClosedAtOnce else if \<not> dialled then DialledInVain else Relayed target)"

section \<open>The client\<close>

datatype client_error = NoServerAddress | NoClientPassword | BadServerAddress

definition client_flags :: "string \<Rightarrow> string \<Rightarrow> string \<Rightarrow> client_error + string \<times> string \<times> string" where
  "client_flags serverAddr0 sni0 password0 =
     (let (serverAddr, sni, password) =
            (case url_Parse serverAddr0 of
               Some l \<Rightarrow>
                 (if l_scheme l = ''anytls''
                  then (l_host l, Get (ParseQuery (l_query l)) ''sni'',
                    (case l_user l of None \<Rightarrow> password0 | Some u \<Rightarrow> u))
                  else (serverAddr0, sni0, password0))
             | None \<Rightarrow> (serverAddr0, sni0, password0))
      in if serverAddr = '''' then Inl NoServerAddress
         else if password = '''' then Inl NoClientPassword
         else if SplitHostPort serverAddr = None then Inl BadServerAddress
         else Inr (serverAddr, sni, password))"

text \<open>A link without a port is refused, although the description of the format gives it one; the
  first example of that description is such a link.\<close>

lemma link_without_port:
  assumes "url_Parse url = Some l" and "l_scheme l = ''anytls''" and "plain_part (l_host l)"
    and "l_host l \<noteq> ''''" and "l_user l = Some pw" and "pw \<noteq> ''''"
  shows "client_flags url sni0 pw0 = Inl BadServerAddress"
  using assms split_plain(2) [of "l_host l" "l_host l"] by (simp add: client_flags_def)

lemma first_example_refused:
  "client_flags ''anytls://letmein@example.com/?sni=real.example.com'' '''' '''' = Inl BadServerAddress"
  by code_simp

section \<open>Claims\<close>

text \<open>The users of a standalone server that has started.\<close>

lemma standalone_users:
  assumes "NewServer L (Inr tlsCfg) cfg cell f = Inr (tlsCfg, s)" and "Standalone cfg"
    and "length (sha256 E (bytes_of (Password cfg))) = 32" and "Start_listen E s = (s', r)"
  shows "r = Inr (Listen cfg) \<and> \<not> hasAPI (parts s')
    \<and> Authenticate (users (parts s')) h =
        (if h = sha256 E (bytes_of (Password cfg))
         then Some (mk_entry (sha256 E) \<lparr>user_ID = 1, user_UUID = Password cfg, user_SpeedLimit = None,
                user_DeviceLimit = None\<rparr>) else None)"
proof -
  have s: "settings s = cfg" "hasAPI (parts s) = (\<not> Standalone cfg)"
    using assms(1) by (auto simp: NewServer_def split: sum.splits)
  let ?us = "[\<lparr>user_ID = 1, user_UUID = Password cfg, user_SpeedLimit = None, user_DeviceLimit = None\<rparr>]"
  have s': "r = Inr (Listen cfg)" "users (parts s') = UpdateUsers (sha256 E) ?us" "\<not> hasAPI (parts s')"
    using assms(2,4) s by (auto simp: Start_listen_def)
  show ?thesis
    using s' assms(3)
    by (auto simp: Authenticate_def table_maps last_user_def mk_entry_def split: if_splits)
qed

text \<open>A standalone server lets in one password and no other: once it has been made and has loaded
  its user, \<open>Authenticate\<close> takes exactly the hash of the configured password, for user 1, without a
  speed or device limit, and the panel is never asked anything.\<close>

lemma standalone_password:
  assumes "NewServer L (Inr tlsCfg) cfg cell f = Inr (tlsCfg, s)" and "Standalone cfg"
    and "length (sha256 E (bytes_of (Password cfg))) = 32" and "Start_listen E s = (s', r)"
  shows "r = Inr (Listen cfg) \<and> \<not> hasAPI (parts s')
    \<and> (Authenticate (users (parts s')) h = Some u \<longleftrightarrow>
         h = sha256 E (bytes_of (Password cfg)) \<and> entry_ID u = 1 \<and> SpeedLimit u = 0 \<and> DeviceLimit u = 0
         \<and> u = mk_entry (sha256 E) \<lparr>user_ID = 1, user_UUID = Password cfg, user_SpeedLimit = None,
             user_DeviceLimit = None\<rparr>)"
  using standalone_users [OF assms] by (auto simp: mk_entry_def split: if_splits)

definition sample_standalone :: config where
  "sample_standalone = config_defaults\<lparr>Standalone := True, Password := ''pw''\<rparr>"

end
