(* ===== verification/Accounts.thy ===== *)
theory Accounts
  imports Sync
begin

text \<open>
  Where the traffic of a user is while reports, merges and shutdowns run beside the connections
  that count it: in the counter, in a snapshot whose report is under way, or with the panel.
\<close>

section \<open>Counting beside reports\<close>

text \<open>\<open>acked\<close> is what the panel has confirmed; \<open>flights\<close> the snapshots being reported, by the cycle
  and by \<open>Shutdown\<close>.\<close>

record accounts =
  held :: counter
  flights :: "(int \<times> traffic) list list"
  acked :: "int \<Rightarrow> int \<times> int"

datatype 'b traffic_event =
    Counted int int int
  | Taken
  | Settled nat "(string \<times> traffic) list \<Rightarrow> nat \<Rightarrow> 'b attempt"

definition confirm :: "(int \<times> traffic) list \<Rightarrow> (int \<Rightarrow> int \<times> int) \<Rightarrow> int \<Rightarrow> int \<times> int" where
  "confirm snap a = (\<lambda>uid. (fst (a uid) + fst (amount snap uid), snd (a uid) + snd (amount snap uid)))"

fun traffic_do :: "'b traffic_event \<Rightarrow> accounts \<Rightarrow> accounts" where
  "traffic_do (Counted uid u d) st = st\<lparr>held := Add uid u d (held st)\<rparr>"
| "traffic_do Taken st =
     (case Snapshot (held st) of (c, snap) \<Rightarrow> st\<lparr>held := c, flights := snap # flights st\<rparr>)"
| "traffic_do (Settled i panel) st =
     (if i < length (flights st) then
        (let snap = flights st ! i
         in st\<lparr>held := fst (push_settle panel snap (held st)),
               flights := take i (flights st) @ drop (Suc i) (flights st),
               acked := (if PushTraffic panel snap = None then confirm snap (acked st) else acked st)\<rparr>)
      else st)"

definition no_traffic :: accounts where
  "no_traffic = \<lparr>held = NewCounter, flights = [], acked = (\<lambda>_. (0, 0))\<rparr>"

text \<open>What the connections have counted for a user, upload and download.\<close>

fun counted :: "int \<Rightarrow> 'b traffic_event list \<Rightarrow> int \<times> int" where
  "counted uid [] = (0, 0)"
| "counted uid (Counted k u d # es) =
     (if k = uid then (u + fst (counted uid es), d + snd (counted uid es)) else counted uid es)"
| "counted uid (e # es) = counted uid es"

definition counts_up :: "'b traffic_event \<Rightarrow> bool" where
  "counts_up e = (case e of Counted uid u d \<Rightarrow> in_int64 uid \<and> u \<ge> 0 \<and> d \<ge> 0 | _ \<Rightarrow> True)"

text \<open>One direction of an account, wherever it is.\<close>

definition whole :: "(int \<times> int \<Rightarrow> int) \<Rightarrow> int \<Rightarrow> accounts \<Rightarrow> int" where
  "whole p uid st = p (amount (held st) uid) + sum_list (map (\<lambda>f. p (amount f uid)) (flights st))
     + p (acked st uid)"

definition nonneg :: "(int \<Rightarrow> int \<times> int) \<Rightarrow> bool" where
  "nonneg f \<longleftrightarrow> (\<forall>uid. 0 \<le> fst (f uid) \<and> 0 \<le> snd (f uid))"

text \<open>The keys are values of Go's \<open>int\<close>.\<close>

definition int_keys :: "counter \<Rightarrow> bool" where
  "int_keys c \<longleftrightarrow> (\<forall>uid \<in> fst ` set c. in_int64 uid)"

definition accounts_ok :: "accounts \<Rightarrow> bool" where
  "accounts_ok st \<longleftrightarrow> counter_ok (held st) \<and> nonneg (amount (held st)) \<and> nonneg (acked st)
     \<and> int_keys (held st)
     \<and> (\<forall>f \<in> set (flights st). distinct (map fst f) \<and> nonneg (amount f) \<and> int_keys f)"

abbreviation direction :: "(int \<times> int \<Rightarrow> int) \<Rightarrow> bool" where
  "direction p \<equiv> p = fst \<or> p = snd"

lemma direction_tadd: "direction p \<Longrightarrow> p (tadd a b) = wrap64 (p a + p b)"
  by (auto simp: tadd_def)

lemma direction_nonneg: "direction p \<Longrightarrow> nonneg f \<Longrightarrow> 0 \<le> p (f uid)"
  by (auto simp: nonneg_def)

lemma nonneg_directions: "nonneg f \<longleftrightarrow> (\<forall>uid p. direction p \<longrightarrow> 0 \<le> p (f uid))"
  by (auto simp: nonneg_def)

lemma amount_Add: "counter_ok c \<Longrightarrow>
    amount (Add k u d c) j = (if j = k then tadd (amount c k) (u, d) else amount c j)"
  using lc.bal_add [of c k "(u, d)" j] by simp

lemma amount_Merge: "counter_ok c \<Longrightarrow> distinct (map fst es) \<Longrightarrow> amount (Merge es c) j =
    (if map_of es j = None then amount c j else tadd (amount c j) (amount es j))"
  unfolding Merge_put_back by (auto simp: lc.bal_put_back amount_def [of es] split: option.split)

lemma Merge_ok: "counter_ok c \<Longrightarrow> counter_ok (Merge es c)"
  unfolding Merge_put_back by (rule lc.ok_put_back)

lemma int_keys_Add: "int_keys (Add uid u d c) \<longleftrightarrow> in_int64 uid \<and> int_keys c"
  by (simp add: int_keys_def Add_def dom_update)

lemma int_keys_Merge: "int_keys es \<Longrightarrow> int_keys c \<Longrightarrow> int_keys (Merge es c)"
proof (induction es arbitrary: c)
  case (Cons e es)
  obtain uid u d where e: "e = (uid, u, d)" by (cases e)
  have "Merge (e # es) c = Merge es (Add uid u d c)" by (simp add: Merge_def e)
  moreover have "int_keys es" "in_int64 uid" using Cons.prems(1) by (simp_all add: int_keys_def e)
  ultimately show ?case using Cons.IH Cons.prems(2) by (simp add: int_keys_Add)
qed (simp add: Merge_def)

lemma int_keys_Snapshot: "int_keys c \<Longrightarrow> int_keys (fst (Snapshot c)) \<and> int_keys (snd (Snapshot c))"
  by (auto simp: int_keys_def Snapshot_def)

lemma amount_Snapshot:
  assumes "counter_ok c" and "nonneg (amount c)"
  shows "amount (fst (Snapshot c)) uid = (0, 0)" "amount (snd (Snapshot c)) uid = amount c uid"
    "distinct (map fst (snd (Snapshot c)))" "counter_ok (fst (Snapshot c))"
proof -
  show "amount (fst (Snapshot c)) uid = (0, 0)" using lc.bal_drain [OF assms(1)] .
  show "distinct (map fst (snd (Snapshot c)))" using lc.drained(1) [OF assms(1)] .
  show "counter_ok (fst (Snapshot c))" using lc.ok_drain [OF assms(1)] .
  have "amount c uid = (0, 0)" if "\<not> positive (amount c uid)"
    using that assms(2) unfolding positive_def nonneg_def prod_eq_iff
    by (metis fst_conv linorder_not_less order_antisym snd_conv)
  then show "amount (snd (Snapshot c)) uid = amount c uid"
    unfolding amount_def [of "snd (Snapshot c)"] lc.drained(2) [OF assms(1)] by simp
qed

text \<open>Merging a snapshot back is plain addition while the sum is below \<open>2 ^ 63\<close>.\<close>

lemma Merge_adds:
  assumes "counter_ok c" and "distinct (map fst es)" and "nonneg (amount c)" and "nonneg (amount es)"
    and "direction p" and "p (amount c uid) + p (amount es uid) < 2 ^ 63"
  shows "p (amount (Merge es c) uid) = p (amount c uid) + p (amount es uid)"
proof (cases "map_of es uid")
  case None
  then have "p (amount es uid) = 0" using assms(5) by (auto simp: amount_def)
  with None show ?thesis by (simp add: amount_Merge [OF assms(1,2)])
next
  case (Some t)
  have "in_int64 (p (amount c uid) + p (amount es uid))"
    using assms(6) direction_nonneg [OF assms(5,3), of uid] direction_nonneg [OF assms(5,4), of uid]
    by (simp add: in_int64_def)
  with Some show ?thesis
    using assms(5) by (simp add: amount_Merge [OF assms(1,2)] direction_tadd wrap64_id)
qed


lemma push_settle_counter:
  "fst (push_settle panel snap c) = (if PushTraffic panel snap = None then c else Merge snap c)"
  by (auto simp: push_settle_def PushTraffic_def split: option.split)

lemma sum_list_pick:
  "i < length xs \<Longrightarrow>
   sum_list (map f (take i xs @ drop (Suc i) xs)) + f (xs ! i) = (sum_list (map f xs) :: int)"
  by (subst (3) id_take_nth_drop [of i xs]) simp_all

lemma nonneg_confirm: "nonneg a \<Longrightarrow> nonneg (amount snap) \<Longrightarrow> nonneg (confirm snap a)"
  by (simp add: nonneg_def confirm_def)

lemma whole_parts:
  assumes "accounts_ok st" and "direction p"
  shows "0 \<le> p (amount (held st) uid)" and "0 \<le> sum_list (map (\<lambda>f. p (amount f uid)) (flights st))"
    and "0 \<le> p (acked st uid)"
  using assms direction_nonneg [OF assms(2)]
  by (auto simp: accounts_ok_def intro!: sum_list_nonneg)

lemma traffic_do_ok:
  fixes e :: "'b traffic_event"
  assumes ok: "accounts_ok st" and up: "counts_up e"
    and small: "\<And>uid p. direction p \<Longrightarrow> whole p uid st + p (counted uid [e]) < 2 ^ 63"
  shows "accounts_ok (traffic_do e st)
    \<and> (\<forall>uid p. direction p \<longrightarrow> whole p uid (traffic_do e st) = whole p uid st + p (counted uid [e]))"
proof (cases e)
  case (Counted k u d)
  have c: "counter_ok (held st)" using ok by (simp add: accounts_ok_def)
  have sum: "p (amount (Add k u d (held st)) uid) = p (amount (held st) uid) + p (counted uid [e])"
    if p: "direction p" for p uid
  proof (cases "uid = k")
    case True
    have "0 \<le> p (u, d)" using up Counted p by (auto simp: counts_up_def)
    moreover have "p (counted uid [e]) = p (u, d)" using True Counted p by auto
    moreover have "whole p uid st + p (counted uid [e]) < 2 ^ 63" using small [OF p] .
    ultimately have "in_int64 (p (amount (held st) k) + p (u, d))"
      using whole_parts [OF ok p, of uid] True by (simp add: whole_def in_int64_def)
    then show ?thesis
      using True p Counted by (auto simp: amount_Add [OF c] direction_tadd wrap64_id)
  next
    case False
    then show ?thesis using Counted p by (auto simp: amount_Add [OF c])
  qed
  have "nonneg (amount (Add k u d (held st)))"
    unfolding nonneg_directions
  proof (intro allI impI)
    fix uid and p :: "int \<times> int \<Rightarrow> int"
    assume p: "direction p"
    have "0 \<le> p (counted uid [e])" using up Counted p by (auto simp: counts_up_def)
    then show "0 \<le> p (amount (Add k u d (held st)) uid)"
      unfolding sum [OF p] using whole_parts(1) [OF ok p, of uid] by simp
  qed
  then have "accounts_ok (traffic_do e st)"
    using ok up Counted by (simp add: accounts_ok_def Add_ok int_keys_Add counts_up_def)
  moreover have "whole p uid (traffic_do e st) = whole p uid st + p (counted uid [e])"
    if "direction p" for p uid
    using sum [OF that, of uid] Counted by (simp add: whole_def)
  ultimately show ?thesis by blast
next
  case Taken
  have c: "counter_ok (held st)" "nonneg (amount (held st))" using ok by (simp_all add: accounts_ok_def)
  note snap = amount_Snapshot [OF c]
  obtain c' es where s: "Snapshot (held st) = (c', es)" by (cases "Snapshot (held st)")
  have "nonneg (amount c')" "nonneg (amount es)" "distinct (map fst es)" "counter_ok c'"
    using snap c(2) by (simp_all add: s nonneg_def)
  moreover have "int_keys c'" "int_keys es"
    using int_keys_Snapshot [of "held st"] ok by (simp_all add: s accounts_ok_def)
  ultimately have "accounts_ok (traffic_do e st)" using ok Taken by (simp add: s accounts_ok_def)
  moreover have "whole p uid (traffic_do e st) = whole p uid st + p (counted uid [e])"
    if "direction p" for p uid
    using snap(1,2) [of uid] that Taken by (auto simp: whole_def s)
  ultimately show ?thesis by blast
next
  case (Settled i panel)
  show ?thesis
  proof (cases "i < length (flights st)")
    case True
    define snap where "snap = flights st ! i"
    have mem: "snap \<in> set (flights st)" using True by (simp add: snap_def)
    have h: "counter_ok (held st)" "nonneg (amount (held st))" "nonneg (acked st)"
      "distinct (map fst snap)" "nonneg (amount snap)" "int_keys (held st)" "int_keys snap"
      using ok mem by (simp_all add: accounts_ok_def)
    have rest: "set (take i (flights st) @ drop (Suc i) (flights st)) \<subseteq> set (flights st)"
      by (auto dest: in_set_takeD in_set_dropD)
    have pick: "sum_list (map (\<lambda>f. p (amount f uid)) (take i (flights st) @ drop (Suc i) (flights st)))
        + p (amount snap uid) = sum_list (map (\<lambda>f. p (amount f uid)) (flights st))"
      for p :: "int \<times> int \<Rightarrow> int" and uid
      unfolding snap_def by (rule sum_list_pick [where f = "\<lambda>f. p (amount f uid)", OF True])
    have none: "p (counted uid [e]) = 0" if "direction p" for p uid
      using Settled that by auto
    have merge: "p (amount (Merge snap (held st)) uid) = p (amount (held st) uid) + p (amount snap uid)"
      if p: "direction p" for p uid
    proof (rule Merge_adds [OF h(1,4,2,5) p])
      have "0 \<le> sum_list (map (\<lambda>f. p (amount f uid)) (take i (flights st) @ drop (Suc i) (flights st)))"
        using rest ok direction_nonneg [OF p] by (intro sum_list_nonneg) (auto simp: accounts_ok_def)
      then show "p (amount (held st) uid) + p (amount snap uid) < 2 ^ 63"
        using pick [of p uid] small [OF p, of uid] whole_parts(3) [OF ok p, of uid] none [OF p, of uid]
        unfolding whole_def by linarith
    qed
    have flights: "\<forall>f \<in> set (take i (flights st) @ drop (Suc i) (flights st)).
        distinct (map fst f) \<and> nonneg (amount f) \<and> int_keys f"
      using rest ok by (auto simp: accounts_ok_def)
    show ?thesis
    proof (cases "PushTraffic panel snap = None")
      case acked: True
      have st': "traffic_do e st = st\<lparr>flights := take i (flights st) @ drop (Suc i) (flights st),
          acked := confirm snap (acked st)\<rparr>"
        using True acked Settled by (simp add: Let_def push_settle_counter snap_def)
      have "accounts_ok (traffic_do e st)"
        using h flights unfolding st' by (simp add: accounts_ok_def nonneg_confirm)
      moreover have "whole p uid (traffic_do e st) = whole p uid st + p (counted uid [e])"
        if "direction p" for p uid
        using pick [of p uid] none [OF that, of uid] that unfolding st' by (auto simp: whole_def confirm_def)
      ultimately show ?thesis by blast
    next
      case failed: False
      have st': "traffic_do e st = st\<lparr>held := Merge snap (held st),
          flights := take i (flights st) @ drop (Suc i) (flights st)\<rparr>"
        using True failed Settled by (auto simp: Let_def push_settle_counter snap_def)
      have "nonneg (amount (Merge snap (held st)))"
        using merge [of fst] merge [of snd] h(2,5) by (simp add: nonneg_def)
      then have "accounts_ok (traffic_do e st)"
        using h flights unfolding st' by (simp add: accounts_ok_def Merge_ok int_keys_Merge)
      moreover have "whole p uid (traffic_do e st) = whole p uid st + p (counted uid [e])"
        if "direction p" for p uid
        using pick [of p uid] merge [OF that, of uid] none [OF that, of uid]
        unfolding st' by (simp add: whole_def)
      ultimately show ?thesis by blast
    qed
  next
    case False
    with ok Settled show ?thesis by auto
  qed
qed


lemma direction_counted_append:
  "direction p \<Longrightarrow> p (counted uid (es @ fs)) = p (counted uid es) + p (counted uid fs)"
proof (induction es)
  case Nil
  then show ?case by auto
next
  case (Cons a es)
  then show ?case by (cases a) auto
qed

lemma counted_nonneg: "list_all counts_up es \<Longrightarrow> direction p \<Longrightarrow> 0 \<le> p (counted uid es)"
proof (induction es)
  case (Cons e es)
  then show ?case by (cases e) (auto simp: counts_up_def)
qed auto

lemma traffic_run_ok:
  assumes "list_all counts_up es" and "\<forall>uid p. direction p \<longrightarrow> p (counted uid es) < 2 ^ 63"
  shows "accounts_ok (fold traffic_do es no_traffic)
    \<and> (\<forall>uid p. direction p \<longrightarrow> whole p uid (fold traffic_do es no_traffic) = p (counted uid es))"
  using assms
proof (induction es rule: rev_induct)
  case Nil
  show ?case
    by (auto simp: accounts_ok_def whole_def no_traffic_def NewCounter_def counter_ok_def nonneg_def
        amount_def int_keys_def)
next
  case (snoc e es)
  let ?st = "fold traffic_do es no_traffic"
  have up: "list_all counts_up es" "counts_up e" using snoc.prems(1) by simp_all
  have bound: "\<forall>uid p. direction p \<longrightarrow> p (counted uid es) < 2 ^ 63"
  proof (intro allI impI)
    fix uid and p :: "int \<times> int \<Rightarrow> int"
    assume p: "direction p"
    have "p (counted uid es) + p (counted uid [e]) < 2 ^ 63"
      using snoc.prems(2) p unfolding direction_counted_append [OF p, symmetric] by blast
    moreover have "0 \<le> p (counted uid [e])" using up(2) p by (intro counted_nonneg) simp_all
    ultimately show "p (counted uid es) < 2 ^ 63" by linarith
  qed
  note ih = snoc.IH [OF up(1) bound]
  have "whole p uid ?st + p (counted uid [e]) < 2 ^ 63" if p: "direction p" for uid p
    using ih snoc.prems(2) p unfolding direction_counted_append [OF p, symmetric]
    by (metis direction_counted_append)
  from traffic_do_ok [OF conjunct1 [OF ih] up(2) this] ih show ?case
    by (auto simp: direction_counted_append)
qed

section \<open>What the file keeps\<close>

definition books :: "counter \<Rightarrow> bool" where
  "books c \<longleftrightarrow> counter_ok c \<and> nonneg (amount c) \<and> int_keys c"

lemma books_no_debt:
  assumes "books c"
  shows "no_debt c"
  unfolding no_debt_def
proof (clarify)
  fix uid u d
  assume "(uid, u, d) \<in> set c"
  then have "amount c uid = (u, d)" using assms by (simp add: books_def counter_ok_def amount_def)
  with assms show "0 \<le> fst (u, d) \<and> 0 \<le> snd (u, d)"
    unfolding books_def nonneg_def by metis
qed

lemma save_reload:
  assumes "books c" and "json_ok m u" and "\<And>b. write b = (Present b, None)"
  shows "\<exists>f cn. SaveToFile m write now c f0 = (f, None) \<and> LoadFromFile u f NewCounter = (cn, None)
    \<and> amount cn = amount c"
proof -
  have c: "counter_ok c" "counter_ok NewCounter" "\<forall>(uid, t) \<in> set c. in_int64 uid"
    using assms(1) by (auto simp: books_def int_keys_def counter_ok_def NewCounter_def)
  note sl = save_load [OF c(1,2) assms(2,3) books_no_debt [OF assms(1)] c(3), of now f0]
  have id: "tadd (amount NewCounter uid) (amount c uid) = amount c uid" for uid
    using tadd_zero(2) [OF amount_int64 [OF c(1)]] by (simp add: NewCounter_def amount_def [of "[]"])
  obtain f cn where f: "SaveToFile m write now c f0 = (f, None)" "LoadFromFile u f NewCounter = (cn, None)"
    using sl by blast
  have "amount cn uid = amount c uid" for uid
    using sl [of uid] f id by auto
  then have "amount cn = amount c" by (rule ext)
  with f show ?thesis by blast
qed

text \<open>A report that failed leaves the accounts as they were, one that succeeded leaves them empty.\<close>

lemma books_Snapshot: "books c \<Longrightarrow> books (fst (Snapshot c)) \<and> amount (snd (Snapshot c)) = amount c"
  using amount_Snapshot [of c] int_keys_Snapshot [of c] by (auto simp: books_def nonneg_def)

lemma settle_alone:
  assumes "books c"
  shows "books (fst (push_settle panel (snd (Snapshot c)) (fst (Snapshot c))))
    \<and> amount (fst (push_settle panel (snd (Snapshot c)) (fst (Snapshot c)))) =
        (if PushTraffic panel (snd (Snapshot c)) = None then (\<lambda>_. (0, 0)) else amount c)"
proof -
  let ?snap = "snd (Snapshot c)" and ?c = "fst (Snapshot c)"
  have c: "counter_ok c" "nonneg (amount c)" using assms by (simp_all add: books_def)
  note snap = amount_Snapshot [OF c] books_Snapshot [OF assms]
  have "amount (Merge ?snap ?c) uid = amount c uid" for uid
    using Merge_snapshot [OF c(1) snap(4) books_no_debt [OF assms], of ?snap uid] snap(1) [of uid]
      tadd_zero(2) [OF amount_int64 [OF c(1)]] by simp
  then have m: "amount (Merge ?snap ?c) = amount c" by (rule ext)
  have "books (Merge ?snap ?c)"
    using m c(2) snap(4) int_keys_Snapshot [of c] assms by (simp add: books_def Merge_ok int_keys_Merge)
  with m snap show ?thesis by (auto simp: push_settle_counter)
qed

section \<open>Claims\<close>

text \<open>C15: One cycle with nothing else running reports the accounts as they are and settles them: if
  the panel confirms, every account is empty afterwards, if not, every account is as before; and
  in both cases the file the cycle leaves behind, read by the next process, gives exactly the
  accounts the counter then has, so that a crash between two cycles loses and repeats nothing.
  Whatever the panel says to the traffic, it is told next who is connected, if anybody is, and the
  load of the machine, if all of it could be measured.\<close>

theorem doPush_cycle:
  assumes "books (trafficCounter s)" and "json_ok (marshal E) unmarshal"
    and "\<And>b. write_file E b = (Present b, None)" and "doPush E now s = (s', rs)"
  shows "\<exists>snap cn. amount snap = amount (trafficCounter s)
    \<and> rs = (if snap = [] then [] else [TrafficReported snap (PushTraffic (panel_push E) snap)])
        @ (let online = alive_Snapshot (aliveTracker (parts s))
           in if online = [] then [] else [AliveReported online (PushAlive (panel_alive E) online)])
        @ (case collectSystemInfo (machine E) of
             Inl _ \<Rightarrow> []
           | Inr st \<Rightarrow> [StatusReported st (PushStatus (panel_status E) st)])
    \<and> amount (trafficCounter s') =
        (if PushTraffic (panel_push E) snap = None then (\<lambda>_. (0, 0)) else amount (trafficCounter s))
    \<and> LoadFromFile unmarshal (disk s') NewCounter = (cn, None)
    \<and> amount cn = amount (trafficCounter s')"
proof -
  let ?snap = "snd (Snapshot (trafficCounter s))" and ?c = "fst (Snapshot (trafficCounter s))"
  obtain c2 r1 where c2: "push_settle (panel_push E) ?snap ?c = (c2, r1)" by fastforce
  have r1: "r1 = (if ?snap = [] then [] else [TrafficReported ?snap (PushTraffic (panel_push E) ?snap)])"
    using c2 by (auto simp: push_settle_def split: if_splits option.splits)
  have settled: "books c2" "amount c2 =
      (if PushTraffic (panel_push E) ?snap = None then (\<lambda>_. (0, 0)) else amount (trafficCounter s))"
    using settle_alone [OF assms(1), of "panel_push E"] c2 by auto
  obtain f cn where f: "SaveToFile (marshal E) (write_file E) now c2 (disk s) = (f, None)"
    "LoadFromFile unmarshal f NewCounter = (cn, None)" "amount cn = amount c2"
    using save_reload [OF settled(1) assms(2,3), of now "disk s"] by auto
  have "trafficCounter s' = c2" "disk s' = f" "rs = r1
      @ (let online = alive_Snapshot (aliveTracker (parts s))
         in if online = [] then [] else [AliveReported online (PushAlive (panel_alive E) online)])
      @ (case collectSystemInfo (machine E) of
           Inl _ \<Rightarrow> []
         | Inr st \<Rightarrow> [StatusReported st (PushStatus (panel_status E) st)])"
    using assms(4) c2 f(1) by (auto simp: doPush_def Let_def case_prod_beta)
  with settled(2) f r1 books_Snapshot [OF assms(1)] show ?thesis
    by (intro exI [of _ ?snap] exI [of _ cn]) auto
qed



definition sample_run :: "unit traffic_event list" where
  "sample_run = [Counted 7 3 1, Taken, Counted 7 2 0, Settled 0 (\<lambda>_ _. Inl NetworkError), Taken,
     Counted 7 1 1, Settled 0 (\<lambda>_ _. Inr \<lparr>status = 200, etag = '''', body = None\<rparr>)]"


definition sample_service :: "counter \<Rightarrow> persistedData server" where
  "sample_service c = \<lparr>settings = config_defaults, parts = sample_parts, userETag = '''',
     nodeConfig = \<lparr>ServerPort = 0, ServerName = '''', PaddingScheme = [], PushInterval = 0, PullInterval = 0\<rparr>,
     padCell = no_padding,
     trafficCounter = c, disk = Absent\<rparr>"

lemma sample_books: "books [(7, (3, 1))]"
  by (auto simp: books_def counter_ok_def int64_pair_def in_int64_def nonneg_def amount_def int_keys_def)

theorem doPush_cycle_witness:
  "amount (trafficCounter (fst (doPush sample_world 0 (sample_service [(7, (3, 1))])))) 7 = (0, 0)
   \<and> (\<exists>snap. snd (doPush sample_world 0 (sample_service [(7, (3, 1))])) = [TrafficReported snap None]
        \<and> amount snap 7 = (3, 1))"
proof -
  obtain s' rs where d: "doPush sample_world 0 (sample_service [(7, (3, 1))]) = (s', rs)" by fastforce
  have j: "json_ok (marshal sample_world) Inr" by (simp add: json_ok_def sample_world_def)
  have w: "write_file sample_world b = (Present b, None)" for b by (simp add: sample_world_def)
  have b: "books (trafficCounter (sample_service [(7, (3, 1))]))" "trafficCounter (sample_service c) = c" for c
    using sample_books by (simp_all add: sample_service_def)
  from doPush_cycle [OF b(1) j w d] obtain snap where
    r: "amount snap = amount [(7, (3, 1))]"
      "rs = (if snap = [] then [] else [TrafficReported snap (PushTraffic (panel_push sample_world) snap)])
        @ (let online = alive_Snapshot (aliveTracker (parts (sample_service [(7, (3, 1))])))
           in if online = [] then [] else [AliveReported online (PushAlive (panel_alive sample_world) online)])
        @ (case collectSystemInfo (machine sample_world) of
             Inl _ \<Rightarrow> []
           | Inr st \<Rightarrow> [StatusReported st (PushStatus (panel_status sample_world) st)])"
      "amount (trafficCounter s') = (if PushTraffic (panel_push sample_world) snap = None
         then (\<lambda>_. (0, 0)) else amount [(7, (3, 1))])"
    unfolding b(2) by blast
  have a: "amount snap 7 = (3, 1)" unfolding r(1) by (simp add: amount_def)
  then have ne: "snap \<noteq> []" by (auto simp: amount_def)
  have "push_result (\<lambda>i. if i = 0 then Inl NetworkError else Inr \<lparr>status = 200, etag = '''', body = None :: unit option\<rparr>) = None"
    by code_simp
  then have p: "PushTraffic (panel_push sample_world) snap = None"
    by (simp add: PushTraffic_def sample_world_def)
  have "collectSystemInfo (machine sample_world) = Inl NoCPU"
    by (simp add: collectSystemInfo_def sample_world_def)
  moreover have "alive_Snapshot (aliveTracker (parts (sample_service [(7, (3, 1))]))) = []" by code_simp
  ultimately show ?thesis using r(2,3) a ne p by (simp add: d)
qed

lemma counted_skip:
  "counted uid (es @ Taken # fs) = counted uid (es @ fs)"
  "counted uid (es @ Settled i p # fs) = counted uid (es @ fs)"
proof -
  show "counted uid (es @ Taken # fs) = counted uid (es @ fs)"
  proof (induction es)
    case (Cons e es)
    then show ?case by (cases e) auto
  qed simp
  show "counted uid (es @ Settled i p # fs) = counted uid (es @ fs)"
  proof (induction es)
    case (Cons e es)
    then show ?case by (cases e) auto
  qed simp
qed

text \<open>\<open>count_all\<close> and \<open>Shutdown\<close> as events of the accounts.\<close>

abbreviation counting :: "(int \<times> traffic) list \<Rightarrow> 'b traffic_event list" where
  "counting ts \<equiv> map (\<lambda>(uid, t). Counted uid (fst t) (snd t)) ts"

lemma count_all_events: "fold traffic_do (counting ts) st = st\<lparr>held := count_all ts (held st)\<rparr>"
proof (induction ts arbitrary: st)
  case (Cons t ts)
  then show ?case by (cases t) (simp add: count_all_def)
qed (simp add: count_all_def)

text \<open>C17: What a shutdown saves and what it loses: after any history with no report under way, the
  next process finds in the file exactly what had been counted up to the file's writing and was not
  confirmed by the panel, the traffic counted during the last report included; what the connections
  count afterwards, while \<open>Shutdown\<close> waits for them, is only in the counter of the process that
  ends, and lost with it.\<close>

theorem shutdown_account:
  fixes E :: "('b, 'f) surroundings" and es :: "'b traffic_event list"
  assumes run: "fold traffic_do es no_traffic = \<lparr>held = trafficCounter s, flights = [], acked = a\<rparr>"
    and up: "list_all counts_up (es @ counting during)"
    and small: "\<And>uid. fst (counted uid (es @ counting during)) < 2 ^ 63
      \<and> snd (counted uid (es @ counting during)) < 2 ^ 63"
    and "\<not> Standalone (settings s)"
    and io: "json_ok (marshal E) unmarshal" "\<And>b. write_file E b = (Present b, None)"
    and "Shutdown E now during late s = (s', rs)"
  shows "\<exists>snap c cn. amount snap = amount (trafficCounter s)
    \<and> (let a' = (if PushTraffic (panel_push E) snap = None then confirm snap a else a)
       in counted uid (es @ counting during) =
            (fst (amount cn uid) + fst (a' uid), snd (amount cn uid) + snd (a' uid)))
    \<and> LoadFromFile unmarshal (disk s') NewCounter = (cn, None)
    \<and> amount cn = amount c \<and> trafficCounter s' = count_all late c"
proof -
  let ?c = "fst (Snapshot (trafficCounter s))" and ?snap = "snd (Snapshot (trafficCounter s))"
  let ?es = "es @ [Taken] @ counting during @ [Settled 0 (panel_push E)]"
  let ?st = "fold traffic_do ?es no_traffic"
  define c2 where "c2 = fst (push_settle (panel_push E) ?snap (count_all during ?c))"
  define a' where "a' = (if PushTraffic (panel_push E) ?snap = None then confirm ?snap a else a)"
  have st: "?st = \<lparr>held = c2, flights = [], acked = a'\<rparr>"
    using run by (simp add: count_all_events c2_def a'_def split: prod.split)
  have same: "counted uid ?es = counted uid (es @ counting during)" for uid
    using counted_skip(1) [of uid es "counting during @ [Settled 0 (panel_push E)]"]
      counted_skip(2) [of uid "es @ counting during" 0 "panel_push E" "[]"] by simp
  have "list_all counts_up ?es" using up by (simp add: counts_up_def)
  moreover have "\<forall>uid p. direction p \<longrightarrow> p (counted uid ?es) < 2 ^ 63"
    unfolding same using small by auto
  ultimately have ok: "accounts_ok ?st \<and> (\<forall>uid p. direction p \<longrightarrow> whole p uid ?st = p (counted uid ?es))"
    by (rule traffic_run_ok)
  then have b: "books c2" unfolding st by (simp add: accounts_ok_def books_def)
  have sum: "counted uid (es @ counting during) =
      (fst (amount c2 uid) + fst (a' uid), snd (amount c2 uid) + snd (a' uid))"
    using ok unfolding same st by (simp add: whole_def prod_eq_iff)
  obtain f cn where f: "SaveToFile (marshal E) (write_file E) now c2 (disk s) = (f, None)"
    "LoadFromFile unmarshal f NewCounter = (cn, None)" "amount cn = amount c2"
    using save_reload [OF b io, of now "disk s"] by auto
  have s': "trafficCounter s' = count_all late c2" "disk s' = f"
    using assms(4,7) f(1) by (auto simp: Shutdown_def c2_def Let_def split: prod.splits)
  have "list_all counts_up es" "list_all counts_up (counting during :: 'b traffic_event list)"
    using up by simp_all
  then have "\<forall>uid p. direction p \<longrightarrow> p (counted uid es) < 2 ^ 63"
    using small counted_nonneg [of "counting during :: 'b traffic_event list"]
      direction_counted_append [where es = es and fs = "counting during"]
    by (smt (verit))
  with \<open>list_all counts_up es\<close> have "accounts_ok (fold traffic_do es no_traffic)"
    using traffic_run_ok by blast
  then have "amount ?snap = amount (trafficCounter s)"
    unfolding run by (intro conjunct2 [OF books_Snapshot]) (simp add: accounts_ok_def books_def)
  with sum f s' show ?thesis
    by (intro exI [of _ ?snap] exI [of _ c2] exI [of _ cn]) (simp add: a'_def Let_def)
qed


theorem shutdown_account_witness:
  "\<exists>cn. LoadFromFile Inr (disk (fst (Shutdown (sample_world\<lparr>panel_push := (\<lambda>_ _. Inl NetworkError)\<rparr>) 0
        [(7, (2, 0))] [(7, (9, 9))] (sample_service [(7, (3, 1))])))) NewCounter = (cn, None)
     \<and> amount cn 7 = (5, 1)"
proof -
  let ?E = "sample_world\<lparr>panel_push := (\<lambda>_ _. Inl NetworkError)\<rparr>"
  let ?s = "sample_service [(7, (3, 1))]"
  let ?es = "[Counted 7 3 1] :: unit traffic_event list"
  obtain s' rs where d: "Shutdown ?E 0 [(7, (2, 0))] [(7, (9, 9))] ?s = (s', rs)" by fastforce
  have 1: "fold traffic_do ?es no_traffic
      = \<lparr>held = trafficCounter ?s, flights = [], acked = (\<lambda>_. (0, 0))\<rparr>"
    by (simp add: no_traffic_def NewCounter_def Add_def sample_service_def amount_def tadd_def wrap64_def)
  have 2: "list_all counts_up (?es @ counting [(7, (2, 0))])" by (simp add: counts_up_def in_int64_def)
  have 3: "fst (counted uid (?es @ counting [(7, (2, 0))])) < 2 ^ 63
      \<and> snd (counted uid (?es @ counting [(7, (2, 0))])) < 2 ^ 63" for uid
    by simp
  have 4: "\<not> Standalone (settings ?s)" by (simp add: sample_service_def config_defaults_def)
  have 5: "json_ok (marshal ?E) Inr" "write_file ?E b = (Present b, None)" for b
    by (simp_all add: json_ok_def sample_world_def)
  obtain snap cn where r: "amount snap = amount (trafficCounter ?s)"
    "let a' = (if PushTraffic (panel_push ?E) snap = None then confirm snap (\<lambda>_. (0, 0)) else (\<lambda>_. (0, 0)))
       in counted 7 (?es @ counting [(7, (2, 0))]) =
            (fst (amount cn 7) + fst (a' 7), snd (amount cn 7) + snd (a' 7))"
    "LoadFromFile Inr (disk s') NewCounter = (cn, None)"
    using shutdown_account [OF 1 2 3 4 5 d, of 7] by blast
  have "snap \<noteq> []" using fun_cong [OF r(1), of 7] by (auto simp: amount_def sample_service_def)
  moreover have "push_result (\<lambda>_. Inl NetworkError) \<noteq> None" by code_simp
  ultimately obtain e where "PushTraffic (panel_push ?E) snap = Some e"
    by (auto simp: PushTraffic_def)
  with r(2) have "amount cn 7 = (5, 1)" by (simp add: Let_def prod_eq_iff)
  with r(3) show ?thesis by (simp add: d)
qed

end
