(* ===== verification/Pool.thy ===== *)
theory Pool
  imports Prelude
begin

text \<open>
  \<^verbatim>\<open>proxy/session/client.go\<close>: the client's pool of sessions. A session is named by its
  sequence number; of the session itself the pool needs whether it is closed. The skip list
  (\<^verbatim>\<open>stl4go\<close>) is a parameter. The critical sections of the two locks are the steps, so that
  every interleaving of callers, dying streams, dying sessions and the cleanup is a list of events.
\<close>

section \<open>The skip list\<close>

text \<open>\<open>sl_entries\<close> is what an iterator visits, in its order.\<close>

record 'm skiplist =
  sl_new :: 'm
  sl_insert :: "u64 \<Rightarrow> u64 \<Rightarrow> 'm \<Rightarrow> 'm"
  sl_remove :: "u64 \<Rightarrow> 'm \<Rightarrow> 'm"
  sl_entries :: "'m \<Rightarrow> (u64 \<times> u64) list"

definition ascending :: "(u64 \<times> u64) list \<Rightarrow> bool" where
  "ascending es \<longleftrightarrow> sorted_wrt (<) (map fst es)"

text \<open>The documented behaviour: a map, visited in ascending order of its keys.\<close>

definition skiplist_ok :: "'m skiplist \<Rightarrow> bool" where
  "skiplist_ok L \<longleftrightarrow> sl_entries L (sl_new L) = []
     \<and> (\<forall>m k v. ascending (sl_entries L m) \<longrightarrow>
          ascending (sl_entries L (sl_insert L k v m))
          \<and> map_of (sl_entries L (sl_insert L k v m)) = (map_of (sl_entries L m))(k \<mapsto> v))
     \<and> (\<forall>m k. ascending (sl_entries L m) \<longrightarrow>
          ascending (sl_entries L (sl_remove L k m))
          \<and> map_of (sl_entries L (sl_remove L k m)) = (map_of (sl_entries L m))(k := None))"

section \<open>The pool\<close>

record 'm pool =
  dead :: bool
  sessionCounter :: u64
  idleSession :: 'm
  idleSince :: "u64 \<Rightarrow> int"
  sessions :: "u64 list"
  closed :: "u64 set"
  idleSessionTimeout :: int
  minIdleSession :: int

text \<open>The interval of the cleanup and the idle time, in nanoseconds: five seconds or less is taken
  for unset.\<close>

definition NewClient :: "'m skiplist \<Rightarrow> int \<Rightarrow> int \<Rightarrow> int \<Rightarrow> 'm pool \<times> int" where
  "NewClient L checkInterval timeout minIdle =
     (\<lparr>dead = False, sessionCounter = 0, idleSession = sl_new L, idleSince = (\<lambda>_. 0), sessions = [],
       closed = {}, idleSessionTimeout = (if timeout \<le> 5 * 10 ^ 9 then 30 * 10 ^ 9 else timeout),
       minIdleSession = minIdle\<rparr>,
      (if checkInterval \<le> 5 * 10 ^ 9 then 30 * 10 ^ 9 else checkInterval))"

text \<open>The key \<open>math.MaxUint64 - seq\<close>.\<close>

definition idle_key :: "u64 \<Rightarrow> u64" where
  "idle_key seq = - 1 - seq"

definition getIdleSession :: "'m skiplist \<Rightarrow> 'm pool \<Rightarrow> 'm pool \<times> u64 option" where
  "getIdleSession L c =
     (case sl_entries L (idleSession c) of
        [] \<Rightarrow> (c, None)
      | (k, v) # es \<Rightarrow> (c\<lparr>idleSession := sl_remove L k (idleSession c)\<rparr>, Some v))"

text \<open>\<open>createSession\<close>; the argument is whether the dialling succeeded.\<close>

definition createSession :: "bool \<Rightarrow> 'm pool \<Rightarrow> 'm pool \<times> u64 option" where
  "createSession dialled c =
     (if \<not> dialled then (c, None)
      else (let seq = sessionCounter c + 1
            in (c\<lparr>sessionCounter := seq, sessions := seq # sessions c\<rparr>, Some seq)))"

text \<open>The hook a session runs when it dies, and \<open>Session.Close\<close> as the pool sees it: once.\<close>

definition session_dieHook :: "'m skiplist \<Rightarrow> u64 \<Rightarrow> 'm pool \<Rightarrow> 'm pool" where
  "session_dieHook L seq c =
     c\<lparr>idleSession := sl_remove L (idle_key seq) (idleSession c),
       sessions := filter (\<lambda>s. s \<noteq> seq) (sessions c)\<rparr>"

definition close_session :: "'m skiplist \<Rightarrow> u64 \<Rightarrow> 'm pool \<Rightarrow> 'm pool" where
  "close_session L seq c =
     (if seq \<in> closed c then c else session_dieHook L seq (c\<lparr>closed := insert seq (closed c)\<rparr>))"

text \<open>The hook a stream runs when it dies: first whether its session is open, then the way back
  into the list, or the end of the session if the client has been closed.\<close>

definition put_check :: "u64 \<Rightarrow> 'm pool \<Rightarrow> bool" where
  "put_check seq c \<longleftrightarrow> seq \<notin> closed c"

definition put_idle :: "'m skiplist \<Rightarrow> int \<Rightarrow> u64 \<Rightarrow> 'm pool \<Rightarrow> 'm pool" where
  "put_idle L now seq c =
     (if dead c then close_session L seq c
      else c\<lparr>idleSince := (idleSince c)(seq := now),
             idleSession := sl_insert L (idle_key seq) seq (idleSession c)\<rparr>)"

definition stream_dieHook :: "'m skiplist \<Rightarrow> int \<Rightarrow> u64 \<Rightarrow> 'm pool \<Rightarrow> 'm pool" where
  "stream_dieHook L now seq c = (if put_check seq c then put_idle L now seq c else c)"

text \<open>\<open>CreateStream\<close>; \<open>opens\<close> is whether \<open>OpenStream\<close> of an open session succeeds.\<close>

datatype create_error = PoolClosed | DialFailed | OpenFailed

definition open_on :: "'m skiplist \<Rightarrow> bool \<Rightarrow> u64 \<Rightarrow> 'm pool \<Rightarrow> 'm pool \<times> (create_error + u64)" where
  "open_on L opens seq c =
     (if opens \<and> seq \<notin> closed c then (c, Inr seq) else (close_session L seq c, Inl OpenFailed))"

definition CreateStream ::
    "'m skiplist \<Rightarrow> bool \<Rightarrow> bool \<Rightarrow> 'm pool \<Rightarrow> 'm pool \<times> (create_error + u64)" where
  "CreateStream L dialled opens c =
     (if dead c then (c, Inl PoolClosed)
      else (case getIdleSession L c of
              (c1, Some seq) \<Rightarrow> open_on L opens seq c1
            | (c1, None) \<Rightarrow>
                (case createSession dialled c1 of
                   (c2, None) \<Rightarrow> (c2, Inl DialFailed)
                 | (c2, Some seq) \<Rightarrow> open_on L opens seq c2)))"

definition Client_Close :: "'m skiplist \<Rightarrow> 'm pool \<Rightarrow> 'm pool" where
  "Client_Close L c = fold (close_session L) (sessions c) (c\<lparr>dead := True, sessions := []\<rparr>)"

text \<open>The loop of \<open>idleCleanupExpTime\<close> over the entries it visits: the sessions to close, and the
  times as the loop leaves them.\<close>

fun cleanup_loop ::
    "int \<Rightarrow> int \<Rightarrow> int \<Rightarrow> int \<Rightarrow> (u64 \<times> u64) list \<Rightarrow> (u64 \<Rightarrow> int) \<Rightarrow> (u64 \<times> u64) list \<times> (u64 \<Rightarrow> int)" where
  "cleanup_loop now expTime minIdle activeCount [] since = ([], since)"
| "cleanup_loop now expTime minIdle activeCount ((key, seq) # es) since =
     (if \<not> since seq < expTime then cleanup_loop now expTime minIdle (activeCount + 1) es since
      else if activeCount < minIdle
      then cleanup_loop now expTime minIdle (activeCount + 1) es (since(seq := now))
      else (case cleanup_loop now expTime minIdle activeCount es since of
              (out, since') \<Rightarrow> ((key, seq) # out, since')))"

definition idleCleanupExpTime :: "'m skiplist \<Rightarrow> int \<Rightarrow> int \<Rightarrow> 'm pool \<Rightarrow> 'm pool" where
  "idleCleanupExpTime L now expTime c =
     (let (out, since) = cleanup_loop now expTime (minIdleSession c) 0
            (sl_entries L (idleSession c)) (idleSince c);
          c1 = c\<lparr>idleSince := since, idleSession := fold (\<lambda>(key, _). sl_remove L key) out (idleSession c)\<rparr>
      in fold (\<lambda>(_, seq). close_session L seq) out c1)"

definition idleCleanup :: "'m skiplist \<Rightarrow> int \<Rightarrow> int \<Rightarrow> 'm pool \<Rightarrow> 'm pool" where
  "idleCleanup L now later c = idleCleanupExpTime L later (now - idleSessionTimeout c) c"

section \<open>Lemmas on the skip list\<close>

lemma ascending_distinct: "ascending es \<Longrightarrow> distinct (map fst es)"
  by (simp add: ascending_def strict_sorted_iff)

lemma ascending_unique:
  assumes "ascending xs" and "ascending ys" and "map_of xs = map_of ys"
  shows "xs = ys"
proof -
  note d = ascending_distinct [OF assms(1)] ascending_distinct [OF assms(2)]
  then have "set xs = set ys" using assms(3) by (simp add: map_of_inject_set)
  moreover have "inj_on fst (set xs)" using d(1) by (simp add: distinct_map)
  ultimately show ?thesis
    using assms(1,2) by (intro map_sorted_distinct_set_unique [of fst])
      (simp_all add: ascending_def strict_sorted_iff)
qed

lemma ascending_filter: "ascending es \<Longrightarrow> ascending (filter P es)"
  by (simp add: ascending_def sorted_wrt_map sorted_wrt_filter)

lemma map_of_filter_key: "map_of (filter (\<lambda>e. fst e \<noteq> k) es) = (map_of es)(k := None)"
  by (rule ext) (induction es, auto)

lemma entries_remove:
  assumes "skiplist_ok L" and "ascending (sl_entries L m)"
  shows "sl_entries L (sl_remove L k m) = filter (\<lambda>e. fst e \<noteq> k) (sl_entries L m)"
  using assms by (intro ascending_unique) (simp_all add: skiplist_ok_def ascending_filter map_of_filter_key)

lemma entries_insert:
  assumes "skiplist_ok L" and "ascending (sl_entries L m)"
  shows "ascending (sl_entries L (sl_insert L k v m))"
    and "set (sl_entries L (sl_insert L k v m)) = insert (k, v) {e \<in> set (sl_entries L m). fst e \<noteq> k}"
proof -
  show a: "ascending (sl_entries L (sl_insert L k v m))" using assms by (simp add: skiplist_ok_def)
  have m: "map_of (sl_entries L (sl_insert L k v m)) = (map_of (sl_entries L m))(k \<mapsto> v)"
    using assms by (simp add: skiplist_ok_def)
  have "(a, b) \<in> set (sl_entries L (sl_insert L k v m)) \<longleftrightarrow>
      (if a = k then b = v else (a, b) \<in> set (sl_entries L m))" for a b
    using ascending_distinct [OF a] ascending_distinct [OF assms(2)] m
    by (metis fun_upd_other fun_upd_same map_of_eq_Some_iff option.inject)
  then show "set (sl_entries L (sl_insert L k v m)) = insert (k, v) {e \<in> set (sl_entries L m). fst e \<noteq> k}"
    by (auto split: if_splits)
qed

abbreviation idle :: "'m skiplist \<Rightarrow> 'm pool \<Rightarrow> (u64 \<times> u64) list" where
  "idle L c \<equiv> sl_entries L (idleSession c)"

text \<open>Well-formed lists: ascending, every session under its key.\<close>

definition keyed :: "(u64 \<times> u64) list \<Rightarrow> bool" where
  "keyed es \<longleftrightarrow> ascending es \<and> (\<forall>(k, v) \<in> set es. k = idle_key v)"

lemma idle_key_inj: "idle_key a = idle_key b \<longleftrightarrow> a = b"
  by (simp add: idle_key_def)

lemma idle_key_less: "idle_key a < idle_key b \<longleftrightarrow> b < a"
proof -
  have "uint (- 1 - x) = uint (- 1 :: u64) - uint x" for x :: u64
    using uint_minus_simple_iff [where y = x and x = "- 1"] by simp
  then show ?thesis by (simp add: idle_key_def word_less_def)
qed


lemma keyed_filter: "keyed es \<Longrightarrow> keyed (filter P es)"
  by (auto simp: keyed_def ascending_filter)

lemma keyed_distinct: "keyed es \<Longrightarrow> distinct (map snd es)"
proof -
  assume k: "keyed es"
  then have "map fst es = map idle_key (map snd es)" by (auto simp: keyed_def)
  with k show ?thesis using ascending_distinct [of es] unfolding keyed_def by (metis distinct_map)
qed

lemma keyed_insert:
  assumes "skiplist_ok L" and "keyed (sl_entries L m)"
  shows "keyed (sl_entries L (sl_insert L (idle_key v) v m))"
    and "snd ` set (sl_entries L (sl_insert L (idle_key v) v m)) = insert v (snd ` set (sl_entries L m))"
proof -
  note i = entries_insert [OF assms(1), of m "idle_key v" v]
  show "keyed (sl_entries L (sl_insert L (idle_key v) v m))"
    using i assms(2) by (auto simp: keyed_def)
  have "{e \<in> set (sl_entries L m). fst e \<noteq> idle_key v} = {e \<in> set (sl_entries L m). snd e \<noteq> v}"
    using assms(2) by (auto simp: keyed_def idle_key_inj)
  then have "snd ` set (sl_entries L (sl_insert L (idle_key v) v m))
      = insert v (snd ` {e \<in> set (sl_entries L m). snd e \<noteq> v})"
    using i(2) assms(2) by (simp add: keyed_def)
  then show "snd ` set (sl_entries L (sl_insert L (idle_key v) v m)) = insert v (snd ` set (sl_entries L m))"
    by auto
qed

lemma remove_keyed:
  assumes "skiplist_ok L" and "keyed (sl_entries L m)"
  shows "sl_entries L (sl_remove L (idle_key v) m) = filter (\<lambda>e. snd e \<noteq> v) (sl_entries L m)"
proof -
  have "sl_entries L (sl_remove L (idle_key v) m) = filter (\<lambda>e. fst e \<noteq> idle_key v) (sl_entries L m)"
    using assms by (intro entries_remove) (simp_all add: keyed_def)
  also have "\<dots> = filter (\<lambda>e. snd e \<noteq> v) (sl_entries L m)"
    using assms(2) by (intro filter_cong) (auto simp: keyed_def idle_key_inj)
  finally show ?thesis .
qed

text \<open>Closing sessions takes them out of the list, and nothing else.\<close>

lemma close_session_fields [simp]:
  "dead (close_session L v c) = dead c" "sessionCounter (close_session L v c) = sessionCounter c"
  "idleSince (close_session L v c) = idleSince c" "closed (close_session L v c) = insert v (closed c)"
  "minIdleSession (close_session L v c) = minIdleSession c"
  by (auto simp: close_session_def session_dieHook_def)

lemma close_session_idle:
  assumes "skiplist_ok L" and "keyed (idle L c)"
  shows "idle L (close_session L v c) = filter (\<lambda>e. snd e \<noteq> v \<or> v \<in> closed c) (idle L c)"
  using remove_keyed [OF assms, of v] by (auto simp: close_session_def session_dieHook_def)

lemma close_session_sessions:
  "set (sessions (close_session L v c)) = (if v \<in> closed c then set (sessions c) else set (sessions c) - {v})"
  by (auto simp: close_session_def session_dieHook_def)

lemma fold_close:
  assumes "skiplist_ok L" and "keyed (idle L c)"
  shows "idle L (fold (close_session L) vs c) = filter (\<lambda>e. snd e \<notin> set vs \<or> snd e \<in> closed c) (idle L c)
    \<and> closed (fold (close_session L) vs c) = set vs \<union> closed c
    \<and> set (sessions (fold (close_session L) vs c)) = set (sessions c) - (set vs - closed c)
    \<and> dead (fold (close_session L) vs c) = dead c
    \<and> sessionCounter (fold (close_session L) vs c) = sessionCounter c
    \<and> idleSince (fold (close_session L) vs c) = idleSince c"
  using assms(2)
proof (induction vs arbitrary: c)
  case (Cons v vs)
  have k: "keyed (idle L (close_session L v c))"
    unfolding close_session_idle [OF assms(1) Cons.prems] by (rule keyed_filter [OF Cons.prems])
  have f: "filter (\<lambda>e. snd e \<notin> set vs \<or> snd e \<in> insert v (closed c)) (idle L (close_session L v c))
      = filter (\<lambda>e. snd e \<notin> set (v # vs) \<or> snd e \<in> closed c) (idle L c)"
    unfolding close_session_idle [OF assms(1) Cons.prems] filter_filter
    by (intro filter_cong) auto
  show ?case
    using Cons.IH [OF k] f by (auto simp: close_session_sessions)
qed simp


section \<open>The cleanup\<close>

lemma cleanup_loop_spec:
  "distinct (map snd es) \<Longrightarrow>
   fst (cleanup_loop now expTime m a es since) =
     filter (\<lambda>e. since (snd e) < expTime) (drop (nat (m - a)) es)
   \<and> snd (cleanup_loop now expTime m a es since) =
       (\<lambda>v. if v \<in> snd ` set (take (nat (m - a)) es) \<and> since v < expTime then now else since v)"
proof (induction es arbitrary: a since)
  case (Cons e es)
  obtain key seq where e: "e = (key, seq)" by (cases e)
  have new: "seq \<notin> snd ` set es" and d: "distinct (map snd es)" using Cons.prems e by auto
  show ?case
  proof (cases "a < m")
    case True
    define k where "k = nat (m - (a + 1))"
    have k: "nat (m - a) = Suc k" using True by (simp add: k_def)
    let ?since = "if since seq < expTime then since(seq := now) else since"
    have step: "cleanup_loop now expTime m a (e # es) since = cleanup_loop now expTime m (a + 1) es ?since"
      using True e by simp
    have same: "?since (snd x) = since (snd x)" if "x \<in> set es" for x
      using new that by auto
    have "filter (\<lambda>e. ?since (snd e) < expTime) (drop k es) = filter (\<lambda>e. since (snd e) < expTime) (drop k es)"
      by (intro filter_cong refl) (simp only: same [OF in_set_dropD])
    moreover have "(if v \<in> snd ` set (take k es) \<and> ?since v < expTime then now else ?since v)
        = (if v \<in> snd ` set (take (Suc k) (e # es)) \<and> since v < expTime then now else since v)" for v
      using new e by (auto dest: in_set_takeD)
    ultimately show ?thesis
      unfolding step using Cons.IH [OF d, of "a + 1" ?since] k by (simp add: k_def)
  next
    case False
    then show ?thesis
      using Cons.IH [OF d, of "a + 1" since] Cons.IH [OF d, of a since] e
      by (auto simp: split: prod.splits)
  qed
qed simp

lemma fold_remove:
  assumes "skiplist_ok L" and "keyed (sl_entries L m)" and "\<forall>(k, v) \<in> set out. k = idle_key v"
  shows "sl_entries L (fold (\<lambda>(key, _). sl_remove L key) out m) =
    filter (\<lambda>e. snd e \<notin> snd ` set out) (sl_entries L m)"
  using assms(2,3)
proof (induction out arbitrary: m)
  case (Cons e out)
  obtain v where e: "e = (idle_key v, v)" using Cons.prems(2) by (cases e) auto
  have k: "keyed (sl_entries L (sl_remove L (idle_key v) m))"
    unfolding remove_keyed [OF assms(1) Cons.prems(1)] by (rule keyed_filter [OF Cons.prems(1)])
  have "fold (\<lambda>(key, _). sl_remove L key) (e # out) m
      = fold (\<lambda>(key, _). sl_remove L key) out (sl_remove L (idle_key v) m)"
    by (simp add: e)
  then show ?case
    using Cons.IH [OF k] Cons.prems(2) remove_keyed [OF assms(1) Cons.prems(1), of v]
    by (simp add: e conj_commute)
qed simp


section \<open>Interleavings\<close>

text \<open>The pool with the sessions callers hold and those on their way back: between the two halves
  of a stream's hook.\<close>

record 'm pool_run =
  pool :: "'m pool"
  in_use :: "u64 list"
  going_back :: "u64 list"

text \<open>The steps of concurrent callers: a caller takes an idle session, or makes one, then opens its
  stream; a stream dies and its hook finds the session open or not; the hook gives it back; a
  session dies; the cleanup runs; the client is closed.\<close>

datatype pool_event =
    Take
  | Make bool
  | Open bool u64
  | StreamDied u64
  | Back int u64
  | SessionDied u64
  | Cleaned int int
  | ClientClosed

fun pool_do :: "'m skiplist \<Rightarrow> pool_event \<Rightarrow> 'm pool_run \<Rightarrow> 'm pool_run" where
  "pool_do L Take st =
     (case getIdleSession L (pool st) of
        (c, None) \<Rightarrow> st
      | (c, Some seq) \<Rightarrow> st\<lparr>pool := c, in_use := seq # in_use st\<rparr>)"
| "pool_do L (Make dialled) st =
     (case createSession dialled (pool st) of
        (c, None) \<Rightarrow> st
      | (c, Some seq) \<Rightarrow> st\<lparr>pool := c, in_use := seq # in_use st\<rparr>)"
| "pool_do L (Open opens seq) st =
     (if seq \<in> set (in_use st) then
        (case open_on L opens seq (pool st) of
           (c, Inr _) \<Rightarrow> st\<lparr>pool := c\<rparr>
         | (c, Inl _) \<Rightarrow> st\<lparr>pool := c, in_use := remove1 seq (in_use st)\<rparr>)
      else st)"
| "pool_do L (StreamDied seq) st =
     (if seq \<in> set (in_use st) then
        st\<lparr>in_use := remove1 seq (in_use st),
           going_back := (if put_check seq (pool st) then seq # going_back st else going_back st)\<rparr>
      else st)"
| "pool_do L (Back now seq) st =
     (if seq \<in> set (going_back st) then
        st\<lparr>pool := put_idle L now seq (pool st), going_back := remove1 seq (going_back st)\<rparr>
      else st)"
| "pool_do L (SessionDied seq) st = st\<lparr>pool := close_session L seq (pool st)\<rparr>"
| "pool_do L (Cleaned now expTime) st = st\<lparr>pool := idleCleanupExpTime L now expTime (pool st)\<rparr>"
| "pool_do L ClientClosed st = st\<lparr>pool := Client_Close L (pool st)\<rparr>"

definition pool_start :: "'m skiplist \<Rightarrow> int \<Rightarrow> int \<Rightarrow> 'm pool_run" where
  "pool_start L timeout minIdle =
     \<lparr>pool = fst (NewClient L 0 timeout minIdle), in_use = [], going_back = []\<rparr>"

definition holders :: "'m skiplist \<Rightarrow> 'm pool_run \<Rightarrow> u64 list" where
  "holders L st = in_use st @ going_back st @ map snd (idle L (pool st))"

definition pool_inv :: "'m skiplist \<Rightarrow> nat \<Rightarrow> 'm pool_run \<Rightarrow> bool" where
  "pool_inv L n st \<longleftrightarrow> keyed (idle L (pool st)) \<and> distinct (holders L st)
     \<and> (\<forall>v \<in> set (holders L st). v \<le> sessionCounter (pool st))
     \<and> unat (sessionCounter (pool st)) \<le> n"

text \<open>A step that only takes sessions out of somewhere keeps the invariant.\<close>

lemma pool_inv_shrink:
  assumes "pool_inv L n st" and "keyed (idle L (pool st'))" and "distinct (holders L st')"
    and "set (holders L st') \<subseteq> set (holders L st)"
    and "sessionCounter (pool st') = sessionCounter (pool st)"
  shows "pool_inv L n st'"
  using assms by (auto simp: pool_inv_def)

lemma pool_inv_filter:
  assumes "pool_inv L n st" and "idle L c = filter P (idle L (pool st))"
    and "sessionCounter c = sessionCounter (pool st)"
  shows "pool_inv L n (st\<lparr>pool := c\<rparr>)"
proof (rule pool_inv_shrink [OF assms(1)])
  show "keyed (idle L (pool (st\<lparr>pool := c\<rparr>)))"
    using assms(1) by (simp add: assms(2) pool_inv_def keyed_filter)
  show "distinct (holders L (st\<lparr>pool := c\<rparr>))"
    using assms(1) by (auto simp: pool_inv_def holders_def assms(2) distinct_map_filter)
  show "set (holders L (st\<lparr>pool := c\<rparr>)) \<subseteq> set (holders L st)"
    by (auto simp: holders_def assms(2))
qed (simp add: assms(3))

text \<open>What the cleanup does to a well-formed pool.\<close>

definition old_session :: "int \<Rightarrow> 'm pool \<Rightarrow> u64 \<times> u64 \<Rightarrow> bool" where
  "old_session expTime c e \<longleftrightarrow> idleSince c (snd e) < expTime"

lemma cleanup_effect:
  assumes "skiplist_ok L" and "keyed (idle L c)"
    and m_def: "m = nat (minIdleSession c)" and c'_def: "c' = idleCleanupExpTime L now expTime c"
  shows "idle L c' = take m (idle L c) @ filter (\<lambda>e. \<not> old_session expTime c e) (drop m (idle L c))"
    and "idle L c' = filter (\<lambda>e. snd e \<notin> snd ` set (filter (old_session expTime c) (drop m (idle L c)))) (idle L c)"
    and "closed c' = snd ` set (filter (old_session expTime c) (drop m (idle L c))) \<union> closed c"
    and "idleSince c' = (\<lambda>v. if v \<in> snd ` set (take m (idle L c)) \<and> idleSince c v < expTime
      then now else idleSince c v)"
    and "sessionCounter c' = sessionCounter c" and "dead c' = dead c"
proof -
  obtain out since where l: "cleanup_loop now expTime (minIdleSession c) 0 (idle L c) (idleSince c)
      = (out, since)" by fastforce
  have d: "distinct (map snd (idle L c))" by (rule keyed_distinct [OF assms(2)])
  have out: "out = filter (old_session expTime c) (drop m (idle L c))"
    and since: "since = (\<lambda>v. if v \<in> snd ` set (take m (idle L c)) \<and> idleSince c v < expTime
      then now else idleSince c v)"
    using cleanup_loop_spec [OF d, of now expTime "minIdleSession c" 0 "idleSince c"] l
    by (simp_all add: m_def old_session_def [abs_def])
  define c1 where "c1 = c\<lparr>idleSince := since,
      idleSession := fold (\<lambda>(key, _). sl_remove L key) out (idleSession c)\<rparr>"
  have "\<forall>(k, v) \<in> set out. k = idle_key v"
    using assms(2) by (auto simp: out keyed_def dest: in_set_dropD)
  then have i1: "idle L c1 = filter (\<lambda>e. snd e \<notin> snd ` set out) (idle L c)"
    using fold_remove [OF assms(1,2)] by (simp add: c1_def)
  have k1: "keyed (idle L c1)" unfolding i1 by (rule keyed_filter [OF assms(2)])
  have "fold (\<lambda>(_, seq). close_session L seq) out c1 = fold (close_session L) (map snd out) c1"
    by (simp add: fold_map comp_def case_prod_beta')
  then have c': "c' = fold (close_session L) (map snd out) c1"
    using l by (simp add: c'_def idleCleanupExpTime_def c1_def)
  note f = fold_close [OF assms(1) k1, of "map snd out", folded c']
  have filtered: "idle L c' = filter (\<lambda>e. snd e \<notin> snd ` set out) (idle L c)"
    using f unfolding i1 by (simp add: out cong: conj_cong)
  then show "idle L c' = filter (\<lambda>e. snd e
      \<notin> snd ` set (filter (old_session expTime c) (drop m (idle L c)))) (idle L c)"
    unfolding out .
  have "idle L c' = filter (\<lambda>e. snd e \<notin> snd ` set out) (take m (idle L c) @ drop m (idle L c))"
    unfolding filtered by (simp only: append_take_drop_id)
  also have "\<dots> = take m (idle L c) @ filter (\<lambda>e. \<not> old_session expTime c e) (drop m (idle L c))"
  proof -
    have "distinct (map snd (take m (idle L c)) @ map snd (drop m (idle L c)))"
      using d by (metis append_take_drop_id map_append)
    then have disj: "snd ` set (take m (idle L c)) \<inter> snd ` set (drop m (idle L c)) = {}"
      "inj_on snd (set (drop m (idle L c)))"
      by (auto simp: distinct_map)
    have "filter (\<lambda>e. snd e \<notin> snd ` set out) (take m (idle L c)) = take m (idle L c)"
      using disj(1) by (intro filter_True) (auto simp: out)
    moreover have "filter (\<lambda>e. snd e \<notin> snd ` set out) (drop m (idle L c))
        = filter (\<lambda>e. \<not> old_session expTime c e) (drop m (idle L c))"
      using disj(2) by (intro filter_cong refl) (auto simp: out dest: inj_onD)
    ultimately show ?thesis by (simp only: filter_append)
  qed
  finally show "idle L c' = take m (idle L c) @ filter (\<lambda>e. \<not> old_session expTime c e) (drop m (idle L c))" .
  show "closed c' = snd ` set (filter (old_session expTime c) (drop m (idle L c))) \<union> closed c"
    using f by (simp add: out c1_def)
  show "idleSince c' = (\<lambda>v. if v \<in> snd ` set (take m (idle L c)) \<and> idleSince c v < expTime
      then now else idleSince c v)"
    using f by (simp add: c1_def since)
  show "sessionCounter c' = sessionCounter c" "dead c' = dead c"
    using f by (simp_all add: c1_def)
qed


lemma pool_inv_mono: "pool_inv L n st \<Longrightarrow> n \<le> n' \<Longrightarrow> pool_inv L n' st"
  by (auto simp: pool_inv_def)

lemma pool_inv_closing:
  assumes "skiplist_ok L" and "pool_inv L n st"
  shows "pool_inv L n (st\<lparr>pool := close_session L v (pool st)\<rparr>)"
proof (rule pool_inv_filter [OF assms(2)])
  show "idle L (close_session L v (pool st))
      = filter (\<lambda>e. snd e \<noteq> v \<or> v \<in> closed (pool st)) (idle L (pool st))"
    using assms by (intro close_session_idle) (simp_all add: pool_inv_def)
qed simp

lemma pool_inv_leave:
  "pool_inv L n st \<Longrightarrow> pool_inv L n (st\<lparr>in_use := remove1 v (in_use st)\<rparr>)"
  "pool_inv L n st \<Longrightarrow> pool_inv L n (st\<lparr>going_back := remove1 v (going_back st)\<rparr>)"
  by (rule pool_inv_shrink; auto simp: pool_inv_def holders_def dest: notin_set_remove1 set_mp [OF set_remove1_subset])+

lemma getIdleSession_cases:
  assumes "skiplist_ok L" and "keyed (idle L c)"
  obtains "idle L c = []" "getIdleSession L c = (c, None)"
    | v es c' where "idle L c = (idle_key v, v) # es" "getIdleSession L c = (c', Some v)"
      "c' = c\<lparr>idleSession := sl_remove L (idle_key v) (idleSession c)\<rparr>" "idle L c' = es"
proof (cases "idle L c")
  case Nil
  then show ?thesis using that(1) by (simp add: getIdleSession_def)
next
  case (Cons e es)
  then obtain v where e: "e = (idle_key v, v)" using assms(2) by (cases e) (auto simp: keyed_def)
  have "v \<notin> snd ` set es" using keyed_distinct [OF assms(2)] Cons e by auto
  then have "sl_entries L (sl_remove L (idle_key v) (idleSession c)) = es"
    using remove_keyed [OF assms, of v] Cons e by (auto simp: filter_id_conv)
  with Cons e show ?thesis using that(2) by (simp add: getIdleSession_def)
qed

lemma pool_step:
  assumes L: "skiplist_ok L" and inv: "pool_inv L n st" and n: "n < 2 ^ 64 - 1"
  shows "pool_inv L (Suc n) (pool_do L e st)"
proof -
  have k: "keyed (idle L (pool st))" using inv by (simp add: pool_inv_def)
  have shrunk: "pool_inv L (Suc n) st'" if "pool_inv L n st'" for st'
    using that by (rule pool_inv_mono) simp
  show ?thesis
  proof (cases e)
    case Take
    show ?thesis
    proof (cases rule: getIdleSession_cases [OF L k])
      case 1
      with Take inv shrunk show ?thesis by simp
    next
      case (2 v es c')
      have "keyed es" using k 2(1) by (auto simp: keyed_def ascending_def)
      with 2 Take inv show ?thesis
        by (auto simp: pool_inv_def holders_def)
    qed
  next
    case (Make dialled)
    let ?c = "sessionCounter (pool st)"
    have "unat (?c + 1) = Suc (unat ?c)"
      using inv n by (simp add: unat_word_ariths pool_inv_def)
    then have less: "?c < ?c + 1" and cnt: "unat (?c + 1) \<le> Suc n"
      using inv by (simp_all add: word_less_nat_alt pool_inv_def)
    then have "?c + 1 \<notin> set (holders L st)" using inv by (auto simp: pool_inv_def)
    moreover have "v \<le> ?c + 1" if "v \<in> set (holders L st)" for v
      using that inv less by (force simp: pool_inv_def)
    ultimately show ?thesis
      using inv Make cnt shrunk [OF inv]
      by (auto simp: pool_inv_def holders_def createSession_def Let_def)
  next
    case (Open opens seq)
    have "pool_inv L n (st\<lparr>pool := close_session L seq (pool st)\<rparr>)" by (rule pool_inv_closing [OF L inv])
    from pool_inv_leave(1) [OF this, of seq] inv Open show ?thesis
      by (auto simp: open_on_def intro!: shrunk)
  next
    case (StreamDied seq)
    have "pool_inv L n (st\<lparr>in_use := remove1 seq (in_use st), going_back := seq # going_back st\<rparr>)"
      if "seq \<in> set (in_use st)"
      using inv that by (intro pool_inv_shrink [OF inv]) (auto simp: pool_inv_def holders_def dest: notin_set_remove1)
    with StreamDied inv pool_inv_leave(1) [OF inv, of seq] show ?thesis
      by (auto intro!: shrunk)
  next
    case (Back now seq)
    show ?thesis
    proof (cases "seq \<in> set (going_back st) \<and> \<not> dead (pool st)")
      case True
      note i = keyed_insert [OF L k, of seq]
      have new: "seq \<notin> snd ` set (idle L (pool st))"
        using True inv by (auto simp: pool_inv_def holders_def)
      have "pool_inv L n (pool_do L e st)"
      proof (rule pool_inv_shrink [OF inv])
        show k': "keyed (idle L (pool (pool_do L e st)))"
          using True Back i by (simp add: put_idle_def)
        have "snd ` set (idle L (pool (pool_do L e st))) = insert seq (snd ` set (idle L (pool st)))"
          using True Back i by (simp add: put_idle_def)
        then show "distinct (holders L (pool_do L e st))"
          "set (holders L (pool_do L e st)) \<subseteq> set (holders L st)"
          using True Back inv new keyed_distinct [OF k']
          by (auto simp: pool_inv_def holders_def dest: notin_set_remove1)
      qed (use True Back in \<open>simp add: put_idle_def\<close>)
      then show ?thesis by (rule shrunk)
    next
      case False
      have "pool_inv L n (st\<lparr>pool := close_session L seq (pool st)\<rparr>)" by (rule pool_inv_closing [OF L inv])
      from pool_inv_leave(2) [OF this, of seq] inv Back False show ?thesis
        by (auto simp: put_idle_def intro!: shrunk)
    qed
  next
    case (SessionDied seq)
    with pool_inv_closing [OF L inv, of seq] show ?thesis by (auto intro!: shrunk)
  next
    case (Cleaned now expTime)
    note ce = cleanup_effect [OF L k refl refl, of now expTime]
    from pool_inv_filter [OF inv ce(2,5)] Cleaned show ?thesis by (auto intro!: shrunk)
  next
    case ClientClosed
    note f = fold_close [OF L, of "(pool st)\<lparr>dead := True, sessions := []\<rparr>" "sessions (pool st)"]
    have "pool_inv L n (st\<lparr>pool := Client_Close L (pool st)\<rparr>)"
      using f k by (intro pool_inv_filter [OF inv]) (auto simp: Client_Close_def)
    with ClientClosed show ?thesis by (auto intro!: shrunk)
  qed
qed


lemma skiplist_new: "skiplist_ok L \<Longrightarrow> sl_entries L (sl_new L) = []"
  unfolding skiplist_ok_def by (rule conjunct1)

lemma pool_start_inv: "skiplist_ok L \<Longrightarrow> pool_inv L 0 (pool_start L timeout minIdle)"
  by (simp add: pool_inv_def pool_start_def NewClient_def holders_def skiplist_new keyed_def
      ascending_def)

lemma pool_run_inv:
  assumes "skiplist_ok L"
  shows "length es < 2 ^ 64 \<Longrightarrow> pool_inv L (length es) (fold (pool_do L) es (pool_start L timeout minIdle))"
proof (induction es rule: rev_induct)
  case (snoc e es)
  then have "length es < 2 ^ 64 - 1" by simp
  with snoc show ?case using pool_step [OF assms] by simp
qed (simp add: pool_start_inv [OF assms])

lemma keyed_sorted: "keyed es \<Longrightarrow> sorted_wrt (>) (map snd es)"
proof -
  assume k: "keyed es"
  then have "map fst es = map idle_key (map snd es)" by (auto simp: keyed_def)
  with k have "sorted_wrt (<) (map idle_key (map snd es))" by (simp add: keyed_def ascending_def)
  then show ?thesis by (simp add: sorted_wrt_map idle_key_less)
qed

lemma keyed_newest: "keyed ((k, v) # es) \<Longrightarrow> w \<in> snd ` set es \<Longrightarrow> w < v"
  using keyed_sorted [of "(k, v) # es"] by auto

text \<open>A skip list to run the pool with: a sorted association list.\<close>

fun sorted_put :: "u64 \<Rightarrow> u64 \<Rightarrow> (u64 \<times> u64) list \<Rightarrow> (u64 \<times> u64) list" where
  "sorted_put k v [] = [(k, v)]"
| "sorted_put k v ((a, b) # es) =
     (if k < a then (k, v) # (a, b) # es
      else if k = a then (k, v) # es else (a, b) # sorted_put k v es)"

definition sample_skiplist :: "(u64 \<times> u64) list skiplist" where
  "sample_skiplist = \<lparr>sl_new = [], sl_insert = sorted_put,
     sl_remove = (\<lambda>k. filter (\<lambda>e. fst e \<noteq> k)), sl_entries = (\<lambda>m. m)\<rparr>"

lemma sorted_put_keys: "fst ` set (sorted_put k v es) = insert k (fst ` set es)"
  by (induction k v es rule: sorted_put.induct) auto

lemma sorted_put_ascending: "ascending es \<Longrightarrow> ascending (sorted_put k v es)"
proof (induction k v es rule: sorted_put.induct)
  case (2 k v a b es)
  have "\<forall>x \<in> fst ` set (sorted_put k v es). a < x" if "a < k"
    using 2(2) that by (simp add: sorted_put_keys ascending_def)
  with 2 show ?case by (auto simp: ascending_def dest: less_trans)
qed (simp add: ascending_def)

lemma sorted_put_map: "ascending es \<Longrightarrow> map_of (sorted_put k v es) = (map_of es)(k \<mapsto> v)"
proof (induction k v es rule: sorted_put.induct)
  case (2 k v a b es)
  then show ?case by (auto simp: ascending_def fun_upd_twist)
qed simp

lemma sample_skiplist_ok: "skiplist_ok sample_skiplist"
  by (simp add: skiplist_ok_def sample_skiplist_def sorted_put_ascending sorted_put_map
      ascending_filter map_of_filter_key)

section \<open>Claims\<close>

text \<open>C7: A session serves one caller at a time: however callers, dying streams, dying sessions, the
  cleanup and the closing of the client are interleaved, no session is handed to two callers, handed
  to one while it is in the idle list, or in the list twice; and the list is ordered from the newest
  session to the oldest.\<close>

theorem pool_exclusive:
  assumes "skiplist_ok L" and "length es < 2 ^ 64"
  shows "distinct (holders L (fold (pool_do L) es (pool_start L timeout minIdle)))
    \<and> sorted_wrt (>) (map snd (idle L (pool (fold (pool_do L) es (pool_start L timeout minIdle)))))"
proof -
  let ?i = "idle L (pool (fold (pool_do L) es (pool_start L timeout minIdle)))"
  have inv: "pool_inv L (length es) (fold (pool_do L) es (pool_start L timeout minIdle))"
    using pool_run_inv [OF assms] .
  then have "keyed ?i" by (simp add: pool_inv_def)
  then have "sorted_wrt (>) (map snd ?i)" by (rule keyed_sorted)
  with inv show ?thesis by (simp add: pool_inv_def)
qed

text \<open>C19: The cleanup keeps the newest \<open>minIdleSession\<close> idle sessions whatever their age, and restarts
  the time of those of them that were too old; of the others it closes exactly those that have been
  idle since before \<open>expTime\<close>, and keeps the rest untouched and in order.\<close>

theorem cleanup_spec:
  assumes "skiplist_ok L" and "keyed (idle L c)"
  shows "let m = nat (minIdleSession c); newest = take m (idle L c); others = drop m (idle L c);
      c' = idleCleanupExpTime L now expTime c
    in idle L c' = newest @ filter (\<lambda>e. \<not> old_session expTime c e) others
      \<and> closed c' = snd ` set (filter (old_session expTime c) others) \<union> closed c
      \<and> (\<forall>v. idleSince c' v = (if v \<in> snd ` set newest \<and> idleSince c v < expTime then now
                               else idleSince c v))"
  unfolding Let_def using cleanup_effect [OF assms refl refl, of now expTime] by simp

text \<open>C18: \<open>CreateStream\<close> reuses the newest idle session, and makes a new one only if there is none; a
  session that will not open a stream is closed and the call fails, even if other sessions are
  idle; a closed client makes nothing.\<close>

theorem CreateStream_spec:
  assumes "skiplist_ok L" and "keyed (idle L c)" and "CreateStream L dialled opens c = (c', r)"
  shows "if dead c then r = Inl PoolClosed \<and> c' = c
    else (case idle L c of
        (k, v) # es \<Rightarrow> (\<forall>w \<in> snd ` set es. w < v) \<and> idle L c' = es
          \<and> sessionCounter c' = sessionCounter c
          \<and> (if opens \<and> v \<notin> closed c then r = Inr v \<and> closed c' = closed c
             else r = Inl OpenFailed \<and> closed c' = insert v (closed c))
      | [] \<Rightarrow>
          (if \<not> dialled then r = Inl DialFailed \<and> c' = c
           else (let v = sessionCounter c + 1
             in sessionCounter c' = v \<and> idle L c' = []
               \<and> (if opens \<and> v \<notin> closed c then r = Inr v \<and> closed c' = closed c \<and> v \<in> set (sessions c')
                  else r = Inl OpenFailed \<and> closed c' = insert v (closed c)))))"
proof (cases "dead c")
  case True
  with assms(3) show ?thesis by (simp add: CreateStream_def)
next
  case alive: False
  show ?thesis
  proof (cases rule: getIdleSession_cases [OF assms(1,2)])
    case 1
    define c1 where "c1 = c\<lparr>sessionCounter := sessionCounter c + 1,
      sessions := (sessionCounter c + 1) # sessions c\<rparr>"
    have "idle L (close_session L (sessionCounter c + 1) c1) = []"
      using close_session_idle [OF assms(1), of c1] 1(1) assms(2) by (simp add: c1_def)
    moreover have "createSession True c = (c1, Some (sessionCounter c + 1))"
      by (simp add: createSession_def c1_def Let_def)
    moreover have "createSession False c = (c, None)" by (simp add: createSession_def)
    moreover have "sessionCounter c1 = sessionCounter c + 1" "closed c1 = closed c" "idle L c1 = []"
      "sessionCounter c + 1 \<in> set (sessions c1)"
      using 1(1) by (simp_all add: c1_def)
    ultimately show ?thesis
      using 1 alive assms(3)
      by (cases dialled) (auto simp: CreateStream_def open_on_def Let_def split: if_splits)
  next
    case (2 v es c1)
    have k: "keyed (idle L c1)" using assms(2) 2(1,4) by (auto simp: keyed_def ascending_def)
    have "v \<notin> snd ` set es" using keyed_newest [of "idle_key v" v es v] assms(2) 2(1) by auto
    then have "idle L (close_session L v c1) = es"
      using close_session_idle [OF assms(1) k, of v] 2(4) by (auto simp: filter_id_conv)
    moreover have "\<forall>w \<in> snd ` set es. w < v"
      using keyed_newest [of "idle_key v" v es] assms(2) 2(1) by auto
    moreover have "closed c1 = closed c" "sessionCounter c1 = sessionCounter c" by (simp_all add: 2(3))
    ultimately show ?thesis
      using 2(1,2,4) alive assms(3) by (auto simp: CreateStream_def open_on_def split: if_splits)
  qed
qed

text \<open>C39: Closing the client closes every registered session and refuses every later \<open>CreateStream\<close>. A
  call that was past its check makes one more session, which stays open; it is closed by its own
  stream, when that ends and would have given it back.\<close>

theorem closed_client:
  assumes "skiplist_ok L" and "keyed (idle L c)" and "sessionCounter c + 1 \<notin> set (sessions c) \<union> closed c"
  shows "let c' = Client_Close L c; v = sessionCounter c + 1; late = fst (createSession True c')
    in set (sessions c) \<subseteq> closed c' \<and> sessions c' = []
      \<and> CreateStream L dialled opens c' = (c', Inl PoolClosed)
      \<and> snd (createSession True c') = Some v \<and> v \<notin> closed late
      \<and> v \<in> closed (stream_dieHook L now v late)"
proof -
  have "keyed (idle L (c\<lparr>dead := True, sessions := []\<rparr>))" using assms(2) by simp
  note f = fold_close [OF assms(1) this, of "sessions c"]
  show ?thesis
    using f assms(3)
    by (auto simp: Client_Close_def Let_def CreateStream_def createSession_def stream_dieHook_def
        put_check_def put_idle_def)
qed


section \<open>Witnesses\<close>

text \<open>A pool with the idle sessions 3, 2 and 1, the first two too old at 100.\<close>

definition sample_pool :: "(u64 \<times> u64) list pool" where
  "sample_pool = \<lparr>dead = False, sessionCounter = 3,
     idleSession = [(idle_key 3, 3), (idle_key 2, 2), (idle_key 1, 1)],
     idleSince = (\<lambda>v. if v = 2 then 200 else 50), sessions = [3, 2, 1], closed = {},
     idleSessionTimeout = 30, minIdleSession = 1\<rparr>"

lemma sample_pool_keyed: "keyed (idle sample_skiplist sample_pool)"
  by (auto simp: keyed_def ascending_def sample_pool_def sample_skiplist_def idle_key_less)

lemma sample_pool_idle:
  "idle sample_skiplist sample_pool = [(idle_key 3, 3), (idle_key 2, 2), (idle_key 1, 1)]"
  by (simp add: sample_pool_def sample_skiplist_def)

theorem pool_exclusive_witness:
  "distinct (holders sample_skiplist (fold (pool_do sample_skiplist)
      [Make True, Make True, StreamDied 1, Back 5 1, Take, StreamDied 2, Back 6 2]
      (pool_start sample_skiplist 0 1)))"
  using pool_exclusive [OF sample_skiplist_ok, of "[Make True, Make True, StreamDied 1, Back 5 1, Take,
      StreamDied 2, Back 6 2]" 0 1] by simp

theorem cleanup_spec_witness:
  "closed (idleCleanupExpTime sample_skiplist 300 100 sample_pool) = {1}"
proof -
  have m: "nat (minIdleSession sample_pool) = 1" "closed sample_pool = {}" by (simp_all add: sample_pool_def)
  have "filter (old_session 100 sample_pool) [(idle_key 2, 2), (idle_key 1, 1)] = [(idle_key 1, 1)]"
    by (simp add: old_session_def) (simp add: sample_pool_def)
  with cleanup_spec [OF sample_skiplist_ok sample_pool_keyed, of 300 100] show ?thesis
    unfolding Let_def sample_pool_idle m by simp
qed

theorem CreateStream_spec_witness:
  "snd (CreateStream sample_skiplist False True sample_pool) = Inr 3"
proof -
  obtain c' r where c: "CreateStream sample_skiplist False True sample_pool = (c', r)" by fastforce
  have "\<not> dead sample_pool" "closed sample_pool = {}" by (simp_all add: sample_pool_def)
  with CreateStream_spec [OF sample_skiplist_ok sample_pool_keyed c] show ?thesis
    unfolding sample_pool_idle by (simp add: c)
qed

theorem closed_client_witness:
  "{1, 2, 3} \<subseteq> closed (Client_Close sample_skiplist sample_pool)
   \<and> snd (CreateStream sample_skiplist True True (Client_Close sample_skiplist sample_pool)) = Inl PoolClosed"
proof -
  have "sessionCounter sample_pool + 1 \<notin> set (sessions sample_pool) \<union> closed sample_pool"
    by (simp add: sample_pool_def)
  from closed_client [OF sample_skiplist_ok sample_pool_keyed this, of True True 0]
  show ?thesis by (simp add: Let_def sample_pool_def)
qed

text \<open>A session that dies between the two halves of the hook is in the list although closed, and the
  next call fails on it.\<close>

lemma closed_session_listed:
  assumes "skiplist_ok L" and "keyed (idle L c)" and "\<not> dead c" and "put_check seq c"
  shows "seq \<in> closed (put_idle L now seq (close_session L seq c))
    \<and> seq \<in> snd ` set (idle L (put_idle L now seq (close_session L seq c)))"
proof -
  have "keyed (idle L (close_session L seq c))"
    unfolding close_session_idle [OF assms(1,2)] by (rule keyed_filter [OF assms(2)])
  from keyed_insert(2) [OF assms(1) this] show ?thesis using assms(3) by (simp add: put_idle_def)
qed

end
