(* ===== verification/ClientProgram.thy ===== *)
theory ClientProgram
  imports Pool Startup
begin

text \<open>
  The client's program: its connections and streams (\<^verbatim>\<open>cmd/client/myclient.go\<close>), the
  connections of its inbound (\<^verbatim>\<open>cmd/client/inbound.go\<close>), the routine that runs the
  cleanup (\<^verbatim>\<open>util/routine.go\<close>), and \<open>main\<close> (\<^verbatim>\<open>cmd/client/main.go\<close>). SOCKS, HTTP, the serialiser of addresses and the
  copying are the sing library's: their outcomes are arguments.
\<close>

section \<open>Connections to the server\<close>

text \<open>What comes of one: \<open>dialled\<close> is whether \<open>dialOut\<close> gave a connection, \<open>accepts\<close> whether the
  connection takes the bytes written to it. A connection that does not take the preamble is closed.\<close>

datatype outbound = NotDialled | ClosedAgain | Announced bytes

definition createOutboundConnection ::
    "(nat \<Rightarrow> bytes) \<Rightarrow> randomness \<Rightarrow> PaddingFactory \<Rightarrow> bytes \<Rightarrow> bool \<Rightarrow> (bytes \<Rightarrow> bool) \<Rightarrow> outbound" where
  "createOutboundConnection zeros rnd p passwordSha256 dialled accepts =
     (if \<not> dialled then NotDialled
      else
        (let b = preamble zeros passwordSha256 (GenerateRecordPayloadSizes rnd p 0)
         in if accepts b then Announced b else ClosedAgain))"

section \<open>Streams to a destination\<close>

text \<open>The pool of the program: both intervals are 30 seconds.\<close>

definition NewMyClient :: "'m skiplist \<Rightarrow> int \<Rightarrow> 'm pool \<times> int" where
  "NewMyClient L minIdle = NewClient L (30 * 10 ^ 9) (30 * 10 ^ 9) minIdle"

text \<open>Closing a stream as the pool sees it: the stream's hook runs first, then the FIN is sent, and a
  session that cannot send it is closed. A stream that has died before is left alone.\<close>

definition close_stream :: "'m skiplist \<Rightarrow> int \<Rightarrow> bool \<Rightarrow> bool \<Rightarrow> u64 \<Rightarrow> 'm pool \<Rightarrow> 'm pool" where
  "close_stream L now died finFails seq c =
     (if died then c
      else (let c1 = stream_dieHook L now seq c in if finFails then close_session L seq c1 else c1))"

datatype proxy_error = NoStream create_error | NoAddress

text \<open>\<open>addressed\<close> is whether the destination could be written; if not, the stream is closed, at \<open>now\<close>.\<close>

definition CreateProxy ::
    "'m skiplist \<Rightarrow> bool \<Rightarrow> bool \<Rightarrow> bool \<Rightarrow> int \<Rightarrow> bool \<Rightarrow> 'm pool \<Rightarrow> 'm pool \<times> (proxy_error + u64)" where
  "CreateProxy L dialled opens addressed now finFails c =
     (case CreateStream L dialled opens c of
        (c1, Inl e) \<Rightarrow> (c1, Inl (NoStream e))
      | (c1, Inr seq) \<Rightarrow>
          (if addressed then (c1, Inr seq)
           else (close_stream L now False finFails seq c1, Inl NoAddress)))"

text \<open>\<open>NewConnection\<close> and \<open>NewPacketConnection\<close>: \<open>during\<close> is what others do to the pool while the
  bytes are copied, \<open>died\<close> whether the stream died meanwhile; the deferred \<open>Close\<close> comes last.\<close>

definition NewConnection ::
    "'m skiplist \<Rightarrow> bool \<Rightarrow> bool \<Rightarrow> bool \<Rightarrow> int \<Rightarrow> bool \<Rightarrow> ('m pool \<Rightarrow> 'm pool) \<Rightarrow> bool \<Rightarrow> int \<Rightarrow> bool \<Rightarrow>
     'm pool \<Rightarrow> 'm pool \<times> proxy_error option" where
  "NewConnection L dialled opens addressed now finFails during died later finFails' c =
     (case CreateProxy L dialled opens addressed now finFails c of
        (c1, Inl e) \<Rightarrow> (c1, Some e)
      | (c1, Inr seq) \<Rightarrow> (close_stream L later died finFails' seq (during c1), None))"

text \<open>The protocol of an inbound connection by its first byte; \<open>None\<close> is one that ends before it.\<close>

datatype inbound = Dropped | Socks | Http

definition handleTcpConnection :: "byte option \<Rightarrow> inbound" where
  "handleTcpConnection first =
     (case first of None \<Rightarrow> Dropped | Some b \<Rightarrow> if b = 4 \<or> b = 5 then Socks else Http)"

section \<open>Routines\<close>

text \<open>\<open>StartRoutine\<close>: before every entry the routine sleeps; \<open>f\<close> runs (\<open>None\<close> is a panic, which is
  logged and ends the routine), then the entry says whether the context is done. The result is the
  state and whether the routine is still running.\<close>

fun StartRoutine :: "('s \<Rightarrow> 's option) \<Rightarrow> bool list \<Rightarrow> 's \<Rightarrow> 's \<times> bool" where
  "StartRoutine f [] s = (s, True)"
| "StartRoutine f (done # ticks) s =
     (case f s of
        None \<Rightarrow> (s, False)
      | Some s' \<Rightarrow> if done then (s', False) else StartRoutine f ticks s')"

text \<open>It runs \<open>f\<close> once more after the context is done, and then never again.\<close>

lemma StartRoutine_stops:
  assumes "\<And>s. f s \<noteq> None" and "True \<notin> set ts"
  shows "StartRoutine f (ts @ True # us) s = (the (f (fold (\<lambda>_ s. the (f s)) ts s)), False)"
  using assms(2)
proof (induction ts arbitrary: s)
  case Nil
  obtain s' where "f s = Some s'" using assms(1) by blast
  then show ?case by simp
next
  case (Cons t ts)
  obtain s' where "f s = Some s'" using assms(1) by blast
  with Cons show ?case by simp
qed

section \<open>The program\<close>

text \<open>\<open>strings.TrimSpace\<close> on ASCII text.\<close>

definition is_space :: "char \<Rightarrow> bool" where
  "is_space c \<longleftrightarrow> of_char c \<in> {9, 10, 11, 12, 13, 32 :: nat}"

definition TrimSpace :: "string \<Rightarrow> string" where
  "TrimSpace s = rev (dropWhile is_space (rev (dropWhile is_space s)))"

text \<open>The machine the program starts on: two environment variables, the level a text stands for,
  whether the program can listen on an address and open a file, and the hash.\<close>

record 'l client_host =
  LOG_LEVEL :: string
  TLS_KEY_LOG :: string
  ParseLevel :: "string \<Rightarrow> 'l option"
  InfoLevel :: 'l
  can_listen :: "string \<Rightarrow> bool"
  can_open :: "string \<Rightarrow> bool"
  Sum256 :: "bytes \<Rightarrow> bytes"

text \<open>What it runs with once it listens: the addresses, the name and the verification of the TLS
  connections, the file of their keys, the hash of the password, and the idle sessions it keeps.\<close>

record 'l client_setup =
  socks_addr :: string
  server_addr :: string
  tls_ServerName :: string
  InsecureSkipVerify :: bool
  KeyLogWriter :: "string option"
  client_hash :: bytes
  client_level :: 'l
  min_idle :: int

definition client_setup_of ::
    "'l client_host \<Rightarrow> string \<Rightarrow> int \<Rightarrow> string \<times> string \<times> string \<Rightarrow> 'l client_setup" where
  "client_setup_of H listen m flags =
     (case flags of
        (serverAddr, sni, password) \<Rightarrow>
          (let path = TrimSpace (TLS_KEY_LOG H)
           in \<lparr>socks_addr = listen, server_addr = serverAddr,
               tls_ServerName = (if sni = '''' then ''127.0.0.1'' else sni),
               InsecureSkipVerify = True,
               KeyLogWriter = (if path \<noteq> '''' \<and> can_open H path then Some path else None),
               client_hash = Sum256 H (bytes_of password),
               client_level = (case ParseLevel H (LOG_LEVEL H) of None \<Rightarrow> InfoLevel H | Some l \<Rightarrow> l),
               min_idle = m\<rparr>))"

datatype client_fatal = BadFlags client_error | NoSocksListener | AcceptLoopFailed

text \<open>\<open>accepts\<close> is what the listener gives one after another, \<open>None\<close> for an error, otherwise the first byte
  of the connection, if it has one; the first error ends the program. The result is what it runs
  with, the connections it has handled, and why it has ended, if it has.\<close>

fun client_accepts :: "byte option option list \<Rightarrow> inbound list \<times> bool" where
  "client_accepts [] = ([], False)"
| "client_accepts (None # as) = ([], True)"
| "client_accepts (Some first # as) =
     (case client_accepts as of (hs, failed) \<Rightarrow> (handleTcpConnection first # hs, failed))"

definition client_main ::
    "'l client_host \<Rightarrow> string \<Rightarrow> string \<Rightarrow> string \<Rightarrow> string \<Rightarrow> int \<Rightarrow> byte option option list \<Rightarrow>
     ('l client_setup \<times> inbound list) option \<times> client_fatal option" where
  "client_main H listen serverAddr sni password m accepts =
     (case client_flags serverAddr sni password of
        Inl e \<Rightarrow> (None, Some (BadFlags e))
      | Inr flags \<Rightarrow>
          (if \<not> can_listen H listen then (None, Some NoSocksListener)
           else
             (case client_accepts accepts of
                (handled, failed) \<Rightarrow>
                  (Some (client_setup_of H listen m flags, handled),
                   if failed then Some AcceptLoopFailed else None))))"

section \<open>Claims\<close>

lemma stream_dieHook_idle:
  assumes "skiplist_ok L" and "keyed (idle L c)" and "\<not> dead c" and "seq \<notin> closed c"
  shows "keyed (idle L (stream_dieHook L now seq c))" "closed (stream_dieHook L now seq c) = closed c"
    "snd ` set (idle L (stream_dieHook L now seq c)) = insert seq (snd ` set (idle L c))"
    "idleSince (stream_dieHook L now seq c) seq = now"
  using keyed_insert [OF assms(1,2), of seq] assms(3,4)
  by (simp_all add: stream_dieHook_def put_check_def put_idle_def)

text \<open>A proxy whose destination cannot be sent leaks nothing: the stream is closed at once, and its
  session is back among the idle ones, idle since now, if it could still send the FIN, and closed
  and out of the list if not; the other idle sessions stay as they were.\<close>

lemma failed_proxy_returns_session:
  assumes "skiplist_ok L" and "keyed (idle L c)"
    and "CreateProxy L dialled opens False now finFails c = (c', Inl NoAddress)"
  shows "\<exists>seq. (seq \<in> snd ` set (idle L c) \<or> seq = sessionCounter c + 1) \<and> seq \<notin> closed c
    \<and> (if finFails
       then seq \<in> closed c' \<and> snd ` set (idle L c') = snd ` set (idle L c) - {seq}
       else closed c' = closed c \<and> idleSince c' seq = now
         \<and> snd ` set (idle L c') = insert seq (snd ` set (idle L c)))"
proof -
  obtain c1 seq where c1: "CreateStream L dialled opens c = (c1, Inr seq)"
    and c': "c' = close_stream L now False finFails seq c1"
    using assms(3) by (auto simp: CreateProxy_def split: prod.splits sum.splits if_splits)
  have alive: "\<not> dead c" using c1 by (auto simp: CreateStream_def split: if_splits)
  have made: "keyed (idle L c1) \<and> \<not> dead c1 \<and> closed c1 = closed c \<and> seq \<notin> closed c
      \<and> insert seq (snd ` set (idle L c1)) = insert seq (snd ` set (idle L c))
      \<and> snd ` set (idle L c1) - {seq} = snd ` set (idle L c) - {seq}
      \<and> (seq \<in> snd ` set (idle L c) \<or> seq = sessionCounter c + 1)"
  proof (cases rule: getIdleSession_cases [OF assms(1,2)])
    case 1
    then show ?thesis
      using c1 alive assms(2)
      by (auto simp: CreateStream_def open_on_def createSession_def Let_def split: if_splits)
  next
    case (2 v es c2)
    have "keyed (idle L c2)" using assms(2) 2(1,4) by (auto simp: keyed_def ascending_def)
    then show ?thesis
      using 2 c1 alive by (auto simp: CreateStream_def open_on_def split: if_splits)
  qed
  note hook = stream_dieHook_idle [OF assms(1), of c1 seq now]
  show ?thesis
  proof (cases finFails)
    case True
    have "snd ` set (filter (\<lambda>e. snd e \<noteq> seq) es) = snd ` set es - {seq}" for es :: "(u64 \<times> u64) list"
      by auto
    then show ?thesis
      using True made hook c' close_session_idle [OF assms(1) hook(1), of seq]
      by (intro exI [of _ seq]) (auto simp: close_stream_def Let_def)
  next
    case False
    then show ?thesis
      using made hook c' by (intro exI [of _ seq]) (simp add: close_stream_def)
  qed
qed

end
