(* ===== verification/Certificate.thy ===== *)
theory Certificate
  imports Config
begin

text \<open>
  The certificate of the server: \<^verbatim>\<open>util/mkcert.go\<close>, which makes a self-signed one, and
  \<^verbatim>\<open>internal/server/tls.go\<close>, which chooses. Keys, signatures and their encodings
  (\<^verbatim>\<open>crypto/rsa\<close>, \<^verbatim>\<open>crypto/x509\<close>, \<^verbatim>\<open>encoding/pem\<close>) are arguments; times are
  nanoseconds.
\<close>

section \<open>A self-signed certificate\<close>

datatype key_usage = KeyEncipherment | DigitalSignature

datatype ext_key_usage = ServerAuth

record template =
  SerialNumber :: int
  NotBefore :: int
  NotAfter :: int
  KeyUsage :: "key_usage list"
  ExtKeyUsage :: "ext_key_usage list"
  BasicConstraintsValid :: bool
  CommonName :: string
  DNSNames :: "string list"

text \<open>What the libraries do with \<open>'k\<close> keys and \<open>'c\<close> certificates: a key of so many bits, a random number
  below a bound, the signature of a certificate by an issuer with a key, the encoding of a key, a block
  of PEM, and the pair of both.\<close>

record ('k, 'c) crypto =
  GenerateKey :: "nat \<Rightarrow> go_error + 'k"
  rand_Int :: "int \<Rightarrow> go_error + int"
  CreateCertificate :: "template \<Rightarrow> template \<Rightarrow> 'k \<Rightarrow> go_error + bytes"
  MarshalPKCS8PrivateKey :: "'k \<Rightarrow> go_error + bytes"
  EncodeToMemory :: "string \<Rightarrow> bytes \<Rightarrow> bytes"
  X509KeyPair :: "bytes \<Rightarrow> bytes \<Rightarrow> go_error + 'c"

abbreviation hour :: int where
  "hour \<equiv> 3600 * 10 ^ 9"

text \<open>The clock is read twice: \<open>t1\<close>, \<open>t2\<close>.\<close>

definition new_template :: "int \<Rightarrow> int \<Rightarrow> int \<Rightarrow> string \<Rightarrow> template" where
  "new_template serialNumber t1 t2 serverName =
     \<lparr>SerialNumber = serialNumber, NotBefore = t1 - hour, NotAfter = t2 + hour,
      KeyUsage = [KeyEncipherment, DigitalSignature], ExtKeyUsage = [ServerAuth],
      BasicConstraintsValid = True, CommonName = serverName, DNSNames = [serverName]\<rparr>"

definition GenerateKeyPair :: "('k, 'c) crypto \<Rightarrow> int \<Rightarrow> int \<Rightarrow> string \<Rightarrow> go_error + 'c" where
  "GenerateKeyPair C t1 t2 serverName =
     (case GenerateKey C 2048 of
        Inl err \<Rightarrow> Inl err
      | Inr key \<Rightarrow>
          (case rand_Int C (2 ^ 128) of
             Inl err \<Rightarrow> Inl err
           | Inr serialNumber \<Rightarrow>
               (let tmpl = new_template serialNumber t1 t2 serverName
                in case CreateCertificate C tmpl tmpl key of
                     Inl err \<Rightarrow> Inl err
                   | Inr publicDer \<Rightarrow>
                       (case MarshalPKCS8PrivateKey C key of
                          Inl err \<Rightarrow> Inl err
                        | Inr privateDer \<Rightarrow>
                            (let publicPem = EncodeToMemory C ''CERTIFICATE'' publicDer;
                                 privPem = EncodeToMemory C ''PRIVATE KEY'' privateDer
                             in X509KeyPair C publicPem privPem)))))"

section \<open>The choice\<close>

text \<open>\<open>load\<close> reads a pair of files, \<open>generate\<close> makes a self-signed certificate.\<close>

definition LoadTLSConfig ::
    "(string \<Rightarrow> string \<Rightarrow> 'c option) \<Rightarrow> (go_error + 'c) \<Rightarrow> config \<Rightarrow> go_error + 'c" where
  "LoadTLSConfig load generate cfg =
     (let cert = (if CertFile cfg \<noteq> '''' \<and> KeyFile cfg \<noteq> '''' then load (CertFile cfg) (KeyFile cfg)
                  else None)
      in case cert of Some c \<Rightarrow> Inr c | None \<Rightarrow> generate)"

text \<open>Every handshake gets the certificate chosen at the start.\<close>

definition GetCertificate :: "'c \<Rightarrow> 'h \<Rightarrow> go_error + 'c" where
  "GetCertificate tlsCert chi = Inr tlsCert"


text \<open>What a handshake gets, and how long it is good for. A certificate carries its validity in whole
  seconds, those of its template.\<close>

definition certificates_ok :: "('k, 'c) crypto \<Rightarrow> ('c \<Rightarrow> int \<times> int) \<Rightarrow> bool" where
  "certificates_ok C validity \<longleftrightarrow>
     (\<forall>t k der priv c. CreateCertificate C t t k = Inr der \<and> MarshalPKCS8PrivateKey C k = Inr priv
        \<and> X509KeyPair C (EncodeToMemory C ''CERTIFICATE'' der) (EncodeToMemory C ''PRIVATE KEY'' priv) = Inr c
        \<longrightarrow> validity c = (NotBefore t div 10 ^ 9, NotAfter t div 10 ^ 9))"

definition valid_at :: "int \<times> int \<Rightarrow> int \<Rightarrow> bool" where
  "valid_at v now \<longleftrightarrow> fst v * 10 ^ 9 \<le> now \<and> now \<le> snd v * 10 ^ 9"

lemma GenerateKeyPair_validity:
  assumes "certificates_ok C validity" and "GenerateKeyPair C t1 t2 name = Inr c"
  shows "validity c = ((t1 - hour) div 10 ^ 9, (t2 + hour) div 10 ^ 9)"
  using assms
  by (auto simp: GenerateKeyPair_def certificates_ok_def new_template_def Let_def split: sum.splits)

text \<open>The files that are named and load are used; otherwise the certificate is good when it is made,
  for an hour, and every handshake of the server's life gets it.\<close>

lemma served_certificate:
  assumes "LoadTLSConfig load (GenerateKeyPair C t1 t2 '''') cfg = Inr c"
  shows "GetCertificate c chi = Inr c"
    and "CertFile cfg \<noteq> '''' \<Longrightarrow> KeyFile cfg \<noteq> '''' \<Longrightarrow> load (CertFile cfg) (KeyFile cfg) = Some c'
      \<Longrightarrow> c = c'"
    and "CertFile cfg = '''' \<or> KeyFile cfg = '''' \<or> load (CertFile cfg) (KeyFile cfg) = None
      \<Longrightarrow> certificates_ok C validity \<Longrightarrow> t1 \<le> t2
      \<Longrightarrow> valid_at (validity c) t2 \<and> (\<forall>now > t2 + hour. \<not> valid_at (validity c) now)"
proof -
  show "GetCertificate c chi = Inr c" by (simp add: GetCertificate_def)
  show "CertFile cfg \<noteq> '''' \<Longrightarrow> KeyFile cfg \<noteq> '''' \<Longrightarrow> load (CertFile cfg) (KeyFile cfg) = Some c' \<Longrightarrow> c = c'"
    using assms by (simp add: LoadTLSConfig_def)
  assume own: "CertFile cfg = '''' \<or> KeyFile cfg = '''' \<or> load (CertFile cfg) (KeyFile cfg) = None"
    and ok: "certificates_ok C validity" and t: "t1 \<le> t2"
  have "GenerateKeyPair C t1 t2 '''' = Inr c" using assms own
    by (auto simp: LoadTLSConfig_def split: if_splits option.splits)
  from GenerateKeyPair_validity [OF ok this]
  have v: "validity c = ((t1 - hour) div 10 ^ 9, (t2 + hour) div 10 ^ 9)" .
  have "(t1 - hour) div 10 ^ 9 * 10 ^ 9 \<le> t1 - hour" "(t2 + hour) div 10 ^ 9 * 10 ^ 9 \<le> t2 + hour"
    "t2 + hour < (t2 + hour) div 10 ^ 9 * 10 ^ 9 + 10 ^ 9"
    by simp_all
  with t show "valid_at (validity c) t2 \<and> (\<forall>now > t2 + hour. \<not> valid_at (validity c) now)"
    by (auto simp: valid_at_def v)
qed

end
