(* ===== verification/Launch.thy ===== *)
theory Launch
  imports Startup Accounts ClientProgram Certificate
begin

text \<open>
  The server's program, \<^verbatim>\<open>cmd/server/main.go\<close>: its flags, the order in which it
  makes, fills, starts and ends the server, and the link it prints in standalone mode, with what
  the client's program makes of that link.
\<close>

section \<open>The program\<close>

datatype launch_error = NoServerPassword | BadConfig config_error

definition standalone_config :: "string \<Rightarrow> string \<Rightarrow> config" where
  "standalone_config password listen =
     \<lparr>Listen = (if listen \<noteq> '''' then listen else ''0.0.0.0:8443''), APIHost = '''', APIToken = '''', NodeID = 0,
      NodeType = ''anytls'', CertFile = '''', KeyFile = '''', LogLevel = ''info'', LogFilePath = '''',
      Fallback = '''', Standalone = True, Password = password\<rparr>"

text \<open>The configuration the flags ask for; \<open>loaded\<close> is the outcome of \<open>LoadConfig\<close>.\<close>

definition server_config ::
    "bool \<Rightarrow> string \<Rightarrow> string \<Rightarrow> config_error + config \<Rightarrow> launch_error + config" where
  "server_config standalone password listen loaded =
     (if standalone then
        (if password = '''' then Inl NoServerPassword else Inr (standalone_config password listen))
      else
        (case loaded of
           Inl e \<Rightarrow> Inl (BadConfig e)
         | Inr cfg \<Rightarrow> Inr (if listen \<noteq> '''' then cfg\<lparr>Listen := listen\<rparr> else cfg)))"

text \<open>What the program finds on its machine: what its logger is set up with, for the program and for the
  server, the certificate, whether it can listen on an address.\<close>

record ('l, 'c) server_host =
  logs :: "'l logging"
  server_logs :: "'l logging"
  load_pair :: "string \<Rightarrow> string \<Rightarrow> 'c option"
  generated_pair :: "go_error + 'c"
  listens :: "string \<Rightarrow> bool"

text \<open>The exit code, and the server as the process leaves it where there is one. \<open>accepts\<close> is what the
  listener gives until the end, \<open>serve\<close> what connections and cycles do to the server meanwhile. A
  server whose accept loop returns ends at once; otherwise it is a signal that ends it, at \<open>now\<close>, with
  \<open>during\<close> and \<open>late\<close>, the counts of the open connections, as for \<open>Shutdown\<close>.\<close>

definition server_main ::
    "('b, 'f) surroundings \<Rightarrow> ('f \<Rightarrow> go_error + persistedData) \<Rightarrow> ('l, 'c) server_host \<Rightarrow>
     launch_error + config \<Rightarrow> PaddingFactory \<Rightarrow> 'f disk_file \<Rightarrow> accept_result list \<Rightarrow>
     ('f server \<Rightarrow> 'f server) \<Rightarrow> int \<Rightarrow> (int \<times> traffic) list \<Rightarrow> (int \<times> traffic) list \<Rightarrow>
     nat \<times> 'f server option" where
  "server_main E unmarshal H config cell f accepts serve now during late =
     (case config of
        Inl _ \<Rightarrow> (1, None)
      | Inr cfg \<Rightarrow>
          (case SetupLogger (logs H) (LogLevel cfg) (LogFilePath cfg) of
             Inl _ \<Rightarrow> (1, None)
           | Inr _ \<Rightarrow>
               (case NewServer (server_logs H) (LoadTLSConfig (load_pair H) (generated_pair H) cfg) cfg cell f of
                  Inl _ \<Rightarrow> (1, None)
                | Inr (_, s0) \<Rightarrow>
                    (case Start E (listens H) accepts (fst (LoadTrafficData unmarshal s0)) of
                       (s1, Inl _) \<Rightarrow> (1, Some s1)
                     | (s1, Inr st) \<Rightarrow>
                         (if returned st then (0, Some (serve s1))
                          else (0, Some (fst (Shutdown E now during late (serve s1)))))))))"

section \<open>The link\<close>

text \<open>The local address of a UDP socket, where one could be made.\<close>

definition getPublicIP :: "string option \<Rightarrow> string" where
  "getPublicIP dialled =
     (case dialled of None \<Rightarrow> '''' | Some ip \<Rightarrow> if ip = ''127.0.0.1'' \<or> ip = ''::1'' then '''' else ip)"

definition share_link :: "string option \<Rightarrow> config \<Rightarrow> string \<Rightarrow> string" where
  "share_link dialled cfg sni =
     (let port = (case SplitHostPort (Listen cfg) of None \<Rightarrow> '''' | Some (_, p) \<Rightarrow> p);
          host = (if getPublicIP dialled = '''' then ''YOUR_SERVER_IP'' else getPublicIP dialled);
          q = (if sni \<noteq> '''' then [(''sni'', sni)] else []) @ [(''insecure'', ''1'')]
      in url_String ''anytls'' (Password cfg) (JoinHostPort host port) (Encode q))"

definition link_address :: "string option \<Rightarrow> string \<Rightarrow> string" where
  "link_address dialled port =
     JoinHostPort (if getPublicIP dialled = '''' then ''YOUR_SERVER_IP'' else getPublicIP dialled) port"

lemma YOUR_SERVER_IP_plain: "\<forall>c \<in> set ''YOUR_SERVER_IP''. host_char c \<and> c \<noteq> CHR '':''"
  by (simp add: host_char_def letter_def digit_def between_def)

lemma joined_splits:
  assumes "\<forall>c \<in> set h. host_char c" and "\<forall>c \<in> set p. digit c"
  shows "SplitHostPort (JoinHostPort h p) = Some (h, p)"
proof -
  have p: "plain_part p" using assms(2) by (auto simp: plain_part_def)
  have h: "CHR ''['' \<notin> set h" "CHR '']'' \<notin> set h" using assms(1) by (fastforce simp: host_char_def)+
  show ?thesis
  proof (cases "CHR '':'' \<in> set h")
    case True
    then show ?thesis using split_bracketed [OF h p] by (simp add: JoinHostPort_def)
  next
    case False
    then have "plain_part h" using h by (simp add: plain_part_def)
    then show ?thesis using False split_plain(1) [OF _ p] by (simp add: JoinHostPort_def)
  qed
qed

lemma link_query:
  "Get (ParseQuery (Encode ((if sni \<noteq> '''' then [(''sni'', sni)] else []) @ [(''insecure'', ''1'')]))) ''sni'' = sni"
proof -
  have "\<not> ''sni'' \<le> ''insecure''" by code_simp
  then show ?thesis by (simp add: ParseQuery_Encode Get_def)
qed

text \<open>What the client makes of the printed link.\<close>

lemma client_reads_link:
  assumes "SplitHostPort (Listen cfg) = Some (h, port)" and "\<forall>c \<in> set port. digit c"
    and "Password cfg \<noteq> ''''" and "\<forall>ip. dialled = Some ip \<longrightarrow> (\<forall>c \<in> set ip. host_char c)"
  shows "client_flags (share_link dialled cfg sni) sni0 pw0 =
    Inr (link_address dialled port, sni, escape encodeUserPassword (Password cfg))"
proof -
  let ?host = "if getPublicIP dialled = '''' then ''YOUR_SERVER_IP'' else getPublicIP dialled"
  have host: "\<forall>c \<in> set ?host. host_char c"
    using assms(4) YOUR_SERVER_IP_plain by (auto simp: getPublicIP_def split: option.splits)
  have "escape encodeUserPassword (Password cfg) \<noteq> ''''"
    using length_escape [of "Password cfg" encodeUserPassword] assms(3) by fastforce
  moreover have "JoinHostPort ?host port \<noteq> ''''" by (simp add: JoinHostPort_def)
  ultimately show ?thesis
    using joined_splits [OF host assms(2)] parse_link [OF host assms(2)] assms(1)
    by (simp add: client_flags_def share_link_def link_address_def link_query Let_def del: if_split)
qed
section \<open>Claims\<close>

text \<open>C24: The link a standalone server prints is read back by the client: the client gets the address
  printed, the \<open>sni\<close> whatever characters it has, and the password as the link writes it, escaped.
  The client hashes it as it stands, so with that link it gets in if and only if the password
  consists of characters that a link does not escape (hash collisions apart). Its connections to
  the server name the \<open>sni\<close>, or 127.0.0.1 where there is none.\<close>

theorem printed_link:
  assumes "NewServer L (Inr tlsCfg) cfg cell f = Inr (tlsCfg, s)" and "Standalone cfg"
    and "length (sha256 E (bytes_of (Password cfg))) = 32" and "Start_listen E s = (s', r)"
    and "SplitHostPort (Listen cfg) = Some (h, port)" and "\<forall>c \<in> set port. digit c"
    and "Password cfg \<noteq> ''''" and "\<forall>ip. dialled = Some ip \<longrightarrow> (\<forall>c \<in> set ip. host_char c)"
    and "can_listen H listen" and "Sum256 H = sha256 E"
  shows "\<exists>pw cs. client_main H listen (share_link dialled cfg sni) sni0 pw0 m [] = (Some (cs, []), None)
    \<and> server_addr cs = link_address dialled port
    \<and> tls_ServerName cs = (if sni = '''' then ''127.0.0.1'' else sni)
    \<and> client_hash cs = sha256 E (bytes_of pw)
    \<and> unescape encodeUserPassword pw = Some (Password cfg)
    \<and> ((client_hash cs = sha256 E (bytes_of (Password cfg)) \<longrightarrow> pw = Password cfg) \<longrightarrow>
         (Authenticate (users (parts s')) (client_hash cs) \<noteq> None
            \<longleftrightarrow> (\<forall>c \<in> set (Password cfg). \<not> shouldEscape c encodeUserPassword)))"
proof -
  have "escape encodeUserPassword (Password cfg) = Password cfg
      \<longleftrightarrow> (\<forall>c \<in> set (Password cfg). \<not> shouldEscape c encodeUserPassword)"
    by (rule escape_fixed) simp
  then show ?thesis
    using client_reads_link [OF assms(5-8), of sni sni0 pw0] standalone_users [OF assms(1-4)] assms(9,10)
    by (intro exI [of _ "escape encodeUserPassword (Password cfg)"]
        exI [of _ "client_setup_of H listen m (link_address dialled port, sni, escape encodeUserPassword (Password cfg))"])
      (auto simp: client_main_def client_setup_of_def Let_def unescape_escape)
qed

definition sample_hash :: "(unit, persistedData) surroundings" where
  "sample_hash = sample_world\<lparr>sha256 := (\<lambda>b. take 32 (b @ replicate 32 0))\<rparr>"

definition sample_logging :: "nat logging" where
  "sample_logging = \<lparr>parseLevel = (\<lambda>l. if l = ''info'' then Some 4 else None), infoLevel = 4,
     mkdirAll = (\<lambda>_. None), openLog = (\<lambda>_. None)\<rparr>"

definition sample_client :: "nat client_host" where
  "sample_client = \<lparr>LOG_LEVEL = '''', TLS_KEY_LOG = '''', ParseLevel = (\<lambda>_. None), InfoLevel = 4,
     can_listen = (\<lambda>_. True), can_open = (\<lambda>_. True), Sum256 = sha256 sample_hash\<rparr>"

lemma NewServer_sample:
  assumes "LogFilePath cfg = ''''"
  obtains s where "NewServer L (Inr c) cfg cell f = Inr (c, s)" "settings s = cfg" "disk s = f"
    "trafficCounter s = NewCounter"
  using assms by (simp add: NewServer_def SetupLogger_def)

lemma standalone_config_fields:
  "Standalone (standalone_config pw l)" "LogFilePath (standalone_config pw l) = ''''"
  "Password (standalone_config pw l) = pw" "CertFile (standalone_config pw l) = ''''"
  by (simp_all add: standalone_config_def)

theorem printed_link_witness:
  "\<exists>cs. client_main sample_client ''127.0.0.1:1080'' (share_link (Some ''192.0.2.1'')
        (standalone_config ''p@ss'' '''') ''a b'') '''' '''' 5 [] = (Some (cs, []), None)
    \<and> server_addr cs = ''192.0.2.1:8443'' \<and> tls_ServerName cs = ''a b''
    \<and> Authenticate (users (parts (fst (Start_listen sample_hash (snd (projr (NewServer sample_logging (Inr ())
        (standalone_config ''p@ss'' '''') no_padding (Absent :: persistedData disk_file))))))))
        (client_hash cs) = None"
proof -
  let ?cfg = "standalone_config ''p@ss'' ''''"
  obtain s where n: "NewServer sample_logging (Inr ()) ?cfg no_padding (Absent :: persistedData disk_file) = Inr ((), s)"
    using NewServer_sample [OF standalone_config_fields(2)] by metis
  obtain s' r where l: "Start_listen sample_hash s = (s', r)" by fastforce
  have 1: "Standalone ?cfg" "length (sha256 sample_hash (bytes_of (Password ?cfg))) = 32"
    by (simp_all add: standalone_config_def sample_hash_def)
  have 2: "SplitHostPort (Listen ?cfg) = Some (''0.0.0.0'', ''8443'')" "\<forall>c \<in> set ''8443''. digit c"
    "Password ?cfg \<noteq> ''''" by code_simp+
  have 3: "\<forall>ip. Some ''192.0.2.1'' = Some ip \<longrightarrow> (\<forall>c \<in> set ip. host_char c)"
    by (simp add: host_char_def digit_def between_def)
  have 4: "can_listen sample_client ''127.0.0.1:1080''" "Sum256 sample_client = sha256 sample_hash"
    by (simp_all add: sample_client_def)
  have a: "link_address (Some ''192.0.2.1'') ''8443'' = ''192.0.2.1:8443''" by code_simp
  obtain pw cs where w: "client_main sample_client ''127.0.0.1:1080''
        (share_link (Some ''192.0.2.1'') ?cfg ''a b'') '''' '''' 5 [] = (Some (cs, []), None)"
    "server_addr cs = ''192.0.2.1:8443''"
    "tls_ServerName cs = (if ''a b'' = '''' then ''127.0.0.1'' else ''a b'')"
    "client_hash cs = sha256 sample_hash (bytes_of pw)" "unescape encodeUserPassword pw = Some ''p@ss''"
    "(client_hash cs = sha256 sample_hash (bytes_of ''p@ss'') \<longrightarrow> pw = ''p@ss'') \<longrightarrow>
       (Authenticate (users (parts s')) (client_hash cs) \<noteq> None
         \<longleftrightarrow> (\<forall>c \<in> set ''p@ss''. \<not> shouldEscape c encodeUserPassword))"
    using printed_link [OF n 1 l 2 3 4, of "''a b''" "''''" "''''" 5]
    unfolding a standalone_config_fields by (elim exE conjE) (rule that)
  have "client_flags (share_link (Some ''192.0.2.1'') ?cfg ''a b'') '''' ''''
      = Inr (''192.0.2.1:8443'', ''a b'', ''p%40ss'')" by code_simp
  with w(1) have e: "client_hash cs = sha256 sample_hash (bytes_of ''p%40ss'')"
    by (auto simp: client_main_def client_setup_of_def Let_def sample_client_def)
  have "sha256 sample_hash (bytes_of ''p%40ss'') \<noteq> sha256 sample_hash (bytes_of ''p@ss'')"
    by (simp add: sample_hash_def bytes_of_def)
  moreover have "shouldEscape CHR ''@'' encodeUserPassword" by code_simp
  ultimately have "Authenticate (users (parts s')) (client_hash cs) = None" using w(6) e by simp
  with w(1-3) n l show ?thesis by (intro exI [of _ cs]) simp
qed

text \<open>What a run of the program that has made a server comes to.\<close>

lemma server_main_cases:
  assumes "server_main E unmarshal H (Inr cfg) cell f accepts serve now during late = (code, Some s')"
  obtains s1 where "settings s1 = cfg" "disk s1 = f"
    "trafficCounter s1 = fst (LoadFromFile unmarshal f NewCounter)"
    "(code = 1 \<and> s' = s1)
     \<or> (code = 0 \<and> snd (accept_loop accepts) \<and> s' = serve s1)
     \<or> (code = 0 \<and> \<not> snd (accept_loop accepts) \<and> s' = fst (Shutdown E now during late (serve s1)))"
proof -
  from assms obtain c s0 where
    new: "NewServer (server_logs H) (LoadTLSConfig (load_pair H) (generated_pair H) cfg) cfg cell f = Inr (c, s0)"
    and lg: "\<And>e. SetupLogger (logs H) (LogLevel cfg) (LogFilePath cfg) \<noteq> Inl e"
    by (auto simp: server_main_def split: sum.splits)
  then have s0: "settings s0 = cfg" "disk s0 = f" "trafficCounter s0 = NewCounter"
    by (auto simp: NewServer_def split: sum.splits)
  define t where "t = fst (LoadTrafficData unmarshal s0)"
  have t: "settings t = cfg" "disk t = f" "trafficCounter t = fst (LoadFromFile unmarshal f NewCounter)"
    using s0 by (simp_all add: t_def LoadTrafficData_def split: prod.splits)
  obtain s1 r where st: "Start E (listens H) accepts t = (s1, r)" by fastforce
  then have s1: "settings s1 = cfg" "disk s1 = f" "trafficCounter s1 = trafficCounter t"
    "\<And>q. r = Inr q \<Longrightarrow> returned q = snd (accept_loop accepts)"
    using t by (auto simp: Start_def Start_listen_def Let_def split: if_splits prod.splits sum.splits)
  have "(code, Some s') = (case r of Inl _ \<Rightarrow> (1, Some s1)
      | Inr q \<Rightarrow> if returned q then (0, Some (serve s1)) else (0, Some (fst (Shutdown E now during late (serve s1)))))"
    using assms new lg st by (auto simp: server_main_def t_def split: sum.splits)
  then show ?thesis
    using s1 t(3) by (intro that [of s1]) (auto split: sum.splits if_splits)
qed


definition sample_serve :: "'f server \<Rightarrow> 'f server" where
  "sample_serve s = s\<lparr>trafficCounter := Add 7 3 1 (Add 7 2 5 NewCounter)\<rparr>"

definition sample_host :: "(nat, unit) server_host" where
  "sample_host = \<lparr>logs = sample_logging, server_logs = sample_logging, load_pair = (\<lambda>_ _. None),
     generated_pair = Inr (), listens = (\<lambda>_. True)\<rparr>"


end
