(* ===== verification/PanelRequest.thy ===== *)
theory PanelRequest
  imports Urls
begin

text \<open>
  \<^verbatim>\<open>internal/api/client.go\<close>: the panel's client and the request it makes for every
  endpoint. Whether \<^verbatim>\<open>net/http\<close> accepts a URL and how it sends a request are arguments.
\<close>

record panel_client =
  baseURL :: string
  token :: string
  nodeID :: int
  nodeType :: string
  userETag :: string

definition NewPanelClient :: "string \<Rightarrow> string \<Rightarrow> int \<Rightarrow> string \<Rightarrow> panel_client" where
  "NewPanelClient base tok nid ntype =
     \<lparr>baseURL = base, token = tok, nodeID = nid, nodeType = ntype, userETag = ''''\<rparr>"

record request =
  req_method :: string
  req_url :: string
  req_body :: "bytes option"
  req_json :: bool

definition request_url :: "panel_client \<Rightarrow> string \<Rightarrow> string" where
  "request_url c path =
     baseURL c @ ''/api/v1/server/UniProxy/'' @ path
     @ ''?'' @ Encode [(''token'', token c), (''node_id'', itoa (nodeID c)), (''node_type'', nodeType c)]"

text \<open>\<open>accepts\<close> is whether \<open>http.NewRequest\<close> takes method and URL, \<open>Do\<close> the outcome of sending.\<close>

datatype request_error = BadRequest | SendFailed go_error

definition doRequest ::
    "(string \<Rightarrow> string \<Rightarrow> bool) \<Rightarrow> (request \<Rightarrow> go_error + 'r) \<Rightarrow> panel_client \<Rightarrow> string \<Rightarrow> string \<Rightarrow>
     bytes option \<Rightarrow> request_error + 'r" where
  "doRequest accepts Do c method path payload =
     (let fullURL = request_url c path
      in if \<not> accepts method fullURL then Inl BadRequest
         else (case Do \<lparr>req_method = method, req_url = fullURL, req_body = payload,
                 req_json = (method = ''POST'')\<rparr> of
             Inl e \<Rightarrow> Inl (SendFailed e) | Inr r \<Rightarrow> Inr r))"

section \<open>Claims\<close>



end
