(* ===== verification/Devices.thy ===== *)
theory Devices
  imports Handler
begin

text \<open>
  The connections of the server as they come and go, and what its tracker reports about them: the
  handler's \<open>Track\<close> at the start and its deferred \<open>Remove\<close> at the end, composed
  (\<^verbatim>\<open>internal/server/handler.go\<close>, \<^verbatim>\<open>internal/alive/tracker.go\<close>).
\<close>

section \<open>Connections coming and going\<close>

text \<open>A connection arrives, with the arguments of \<open>handle_start\<close>, or one of those being served leaves;
  \<open>open_conns\<close> are those being served, the newest first.\<close>

datatype conn_event =
    Arrives string int int "bytes option" "api_error + (int \<rightharpoonup> int)"
  | Leaves nat

record service =
  serving :: server_parts
  open_conns :: "(UserEntry \<times> string) list"

fun conn_do :: "read_bytes \<Rightarrow> conn_event \<Rightarrow> service \<Rightarrow> service" where
  "conn_do ReadBytes (Arrives ip now later packet alive) v =
     (case handle_start ReadBytes ip now later packet alive (serving v) of
        (s, Served u rest l) \<Rightarrow> \<lparr>serving = s, open_conns = (u, ip) # open_conns v\<rparr>
      | (s, _) \<Rightarrow> v\<lparr>serving := s\<rparr>)"
| "conn_do ReadBytes (Leaves k) v =
     (if k < length (open_conns v) then
        (case open_conns v ! k of
           (u, ip) \<Rightarrow> \<lparr>serving = handle_end ip u (serving v),
                       open_conns = take k (open_conns v) @ drop (Suc k) (open_conns v)\<rparr>)
      else v)"

text \<open>The user and address of a connection.\<close>

abbreviation device :: "UserEntry \<times> string \<Rightarrow> int \<times> string" where
  "device c \<equiv> (entry_ID (fst c), snd c)"

text \<open>The tracker follows some history in which only addresses of open connections are online.\<close>

definition devices_ok :: "service \<Rightarrow> bool" where
  "devices_ok v \<longleftrightarrow>
     (\<exists>h. tracker_ok h (aliveTracker (serving v))
        \<and> (\<forall>uid ip. online_after uid ip h \<longrightarrow> (uid, ip) \<in> device ` set (open_conns v)))"

lemma handle_start_tracker:
  "handle_start ReadBytes ip now later packet alive s = (s', out) \<Longrightarrow>
   aliveTracker s' = (case out of
       Served u rest l \<Rightarrow> Track (entry_ID u) ip later (aliveTracker s) | _ \<Rightarrow> aliveTracker s)"
  by (auto simp: handle_start_def Let_def split: prod.splits option.splits if_splits)

lemma devices_ok_do: "devices_ok v \<Longrightarrow> devices_ok (conn_do ReadBytes e v)"
proof (cases e)
  case (Arrives ip now later packet alive)
  assume "devices_ok v"
  then obtain h where h: "tracker_ok h (aliveTracker (serving v))"
    "\<And>uid ip. online_after uid ip h \<Longrightarrow> (uid, ip) \<in> device ` set (open_conns v)"
    by (auto simp: devices_ok_def)
  obtain s out where hs: "handle_start ReadBytes ip now later packet alive (serving v) = (s, out)"
    by fastforce
  note tr = handle_start_tracker [OF hs]
  show ?thesis
  proof (cases "\<exists>u rest l. out = Served u rest l")
    case True
    then obtain u rest l where out: "out = Served u rest l" by blast
    have "tracker_ok (h @ [Tracked (entry_ID u) ip later]) (aliveTracker s)"
      using tracker_ok_Track [OF h(1)] tr out by simp
    with h(2) show ?thesis
      by (auto simp: Arrives hs out devices_ok_def online_after_snoc
          intro!: exI [of _ "h @ [Tracked (entry_ID u) ip later]"])
  next
    case False
    with h hs tr show ?thesis
      by (auto simp: Arrives devices_ok_def split: outcome.splits intro!: exI [of _ h])
  qed
next
  case (Leaves k)
  assume v: "devices_ok v"
  then obtain h where h: "tracker_ok h (aliveTracker (serving v))"
    "\<And>uid ip. online_after uid ip h \<Longrightarrow> (uid, ip) \<in> device ` set (open_conns v)"
    by (auto simp: devices_ok_def)
  show ?thesis
  proof (cases "k < length (open_conns v)")
    case True
    obtain u ip where c: "open_conns v ! k = (u, ip)" by fastforce
    have split: "set (open_conns v) = insert (u, ip) (set (take k (open_conns v) @ drop (Suc k) (open_conns v)))"
      using id_take_nth_drop [OF True] c by (metis list.simps(15) set_append Un_insert_right)
    have "tracker_ok (h @ [Removed (entry_ID u) ip]) (aliveTracker (handle_end ip u (serving v)))"
      using tracker_ok_Remove [OF h(1)] by (simp add: handle_end_def)
    moreover have "(uid, i) \<in> device ` set (take k (open_conns v) @ drop (Suc k) (open_conns v))"
      if "online_after uid i (h @ [Removed (entry_ID u) ip])" for uid i
      using that h(2) [of uid i] split by (auto simp: online_after_snoc)
    ultimately show ?thesis
      using True c
      by (auto simp: Leaves devices_ok_def intro!: exI [of _ "h @ [Removed (entry_ID u) ip]"])
  qed (use v Leaves in simp)
qed

lemma devices_ok_run:
  "online (aliveTracker s0) = [] \<Longrightarrow> devices_ok (fold (conn_do ReadBytes) es \<lparr>serving = s0, open_conns = []\<rparr>)"
proof (induction es rule: rev_induct)
  case Nil
  then show ?case
    by (auto simp: devices_ok_def tracker_ok_def ips_of_def intro!: exI [of _ "[]"])
qed (simp add: devices_ok_do)

text \<open>What a report says about a user: the addresses with a node's suffix.\<close>

lemma alive_Snapshot_entry:
  assumes "tracker_ok h t" and "(uid, l) \<in> set (alive_Snapshot t)"
  shows "set l = (\<lambda>ip. ip @ CHR ''_'' # itoa (nodeID t)) ` {ip. online_after uid ip h}"
proof -
  from assms(2) obtain ips where ips: "(uid, ips) \<in> set (online t)"
    "l = map (\<lambda>(ip, seen). ip @ CHR ''_'' # itoa (nodeID t)) ips"
    by (auto simp: alive_Snapshot_def)
  then have "ips_of t uid = ips" using assms(1) by (simp add: ips_of_def tracker_ok_def)
  then have "{ip. online_after uid ip h} = fst ` set ips"
    using assms(1) by (auto simp: tracker_ok_def)
  with ips(2) show ?thesis by (force simp: image_image case_prod_beta)
qed

section \<open>Claims\<close>

text \<open>C23: The tracker never reports a device that is not there, and may miss one that is: however
  connections arrive, are refused or served and leave, every address in a report has a connection of
  that user open from it; but when any connection ends, its address is out of the report, whatever
  other connections of the same user are still open from there.\<close>

theorem devices_undercounted:
  assumes "online (aliveTracker s0) = []"
    and "v = fold (conn_do ReadBytes) es \<lparr>serving = s0, open_conns = []\<rparr>"
  shows "(\<forall>(uid, l) \<in> set (alive_Snapshot (aliveTracker (serving v))). \<forall>x \<in> set l.
        \<exists>u ip. (u, ip) \<in> set (open_conns v) \<and> entry_ID u = uid
          \<and> x = ip @ CHR ''_'' # itoa (nodeID (aliveTracker (serving v))))
    \<and> (\<forall>k u ip. k < length (open_conns v) \<and> open_conns v ! k = (u, ip) \<longrightarrow>
        ip \<notin> fst ` set (ips_of (aliveTracker (serving (conn_do ReadBytes (Leaves k) v))) (entry_ID u)))"
proof -
  have "devices_ok v" using devices_ok_run [OF assms(1)] assms(2) by simp
  then obtain h where h: "tracker_ok h (aliveTracker (serving v))"
    "\<And>uid ip. online_after uid ip h \<Longrightarrow> (uid, ip) \<in> device ` set (open_conns v)"
    by (auto simp: devices_ok_def)
  have "\<exists>u ip. (u, ip) \<in> set (open_conns v) \<and> entry_ID u = uid
      \<and> x = ip @ CHR ''_'' # itoa (nodeID (aliveTracker (serving v)))"
    if "(uid, l) \<in> set (alive_Snapshot (aliveTracker (serving v)))" "x \<in> set l" for uid l x
    using alive_Snapshot_entry [OF h(1) that(1)] that(2) h(2) by fastforce
  moreover have "ip \<notin> fst ` set (ips_of (aliveTracker (serving (conn_do ReadBytes (Leaves k) v))) (entry_ID u))"
    if "k < length (open_conns v)" "open_conns v ! k = (u, ip)" for k u ip
    using that tracker_ok_Remove [OF h(1), of "entry_ID u" ip]
    by (simp add: tracker_ok_def online_after_snoc handle_end_def)
  ultimately show ?thesis by blast
qed

text \<open>Two connections of one user from one address, and the end of one of them.\<close>

definition sample_visit :: "conn_event list" where
  "sample_visit = (let a = Arrives ''1.2.3.4'' 5 6 (Some (replicate 32 7 @ [0, 0])) (Inl NetworkError) in [a, a])"

theorem devices_undercounted_witness:
  "let v = fold (conn_do take_bytes) sample_visit \<lparr>serving = sample_parts, open_conns = []\<rparr>;
       w = conn_do take_bytes (Leaves 0) v
   in length (open_conns w) = 1 \<and> snd (hd (open_conns w)) = ''1.2.3.4''
     \<and> ''1.2.3.4'' \<notin> fst ` set (ips_of (aliveTracker (serving w)) (entry_ID (fst (hd (open_conns w)))))"
proof -
  define v where "v = fold (conn_do take_bytes) sample_visit \<lparr>serving = sample_parts, open_conns = []\<rparr>"
  have "map (\<lambda>c. (entry_ID (fst c), snd c)) (open_conns v) = [(7, ''1.2.3.4''), (7, ''1.2.3.4'')]"
    unfolding v_def by code_simp
  then obtain u u' where v: "open_conns v = [(u, ''1.2.3.4''), (u', ''1.2.3.4'')]" "entry_ID u = entry_ID u'"
    by (auto simp: map_eq_Cons_conv)
  have "online (aliveTracker sample_parts) = []" by (simp add: sample_parts_def NewTracker_def)
  from conjunct2 [OF devices_undercounted [OF this v_def], rule_format, of 0 u "''1.2.3.4''"]
  have "''1.2.3.4'' \<notin> fst ` set (ips_of (aliveTracker (serving (conn_do take_bytes (Leaves 0) v))) (entry_ID u))"
    by (simp only: v(1) list.size nth_Cons_0 simp_thms)
  with v show ?thesis unfolding v_def [symmetric] by (simp add: Let_def)
qed

end
