(* ===== verification/Connection.thy ===== *)
theory Connection
  imports EndToEnd ClientProgram
begin

text \<open>
  A connection from one end to the other: the client's \<open>createOutboundConnection\<close> and first stream
  (\<^verbatim>\<open>cmd/client/myclient.go\<close>, \<^verbatim>\<open>proxy/session\<close>) against the server's
  \<open>handleConnection\<close> and session (\<^verbatim>\<open>internal/server/handler.go\<close>), with the first read of the
  server anywhere in what the client sends.
\<close>

section \<open>The admission by its outcomes\<close>

lemma handle_start_refuses:
  assumes "\<not> snd (IsBanned ip now (connLimiter v))" and "read_preamble ReadBytes (Authenticate (users v)) b = None"
  shows "handle_start ReadBytes ip now later (Some b) alive v =
    (v\<lparr>connLimiter := RecordFailure ip later (fst (IsBanned ip now (connLimiter v)))\<rparr>, FellBack b)"
  using assms by (simp add: handle_start_def Let_def case_prod_beta)

lemma handle_start_serves:
  assumes "\<not> snd (IsBanned ip now (connLimiter v))"
    and "read_preamble ReadBytes (Authenticate (users v)) b = Some (u, rest)" and "device_allowed v alive u"
  shows "\<exists>v' l. handle_start ReadBytes ip now later (Some b) alive v = (v', Served u rest l)"
proof -
  have "device_allowed (v\<lparr>connLimiter := x\<rparr>) alive u = device_allowed v alive u" for x
    by (simp add: device_allowed_def)
  with assms show ?thesis by (simp add: handle_start_def Let_def case_prod_beta)
qed

section \<open>The preamble in the first read\<close>

definition good_preamble :: "(nat \<Rightarrow> bytes) \<Rightarrow> int list \<Rightarrow> bool" where
  "good_preamble zeros sizes \<longleftrightarrow>
     0 \<le> padding_len sizes \<and> padding_len sizes < 2 ^ 16 \<and> (\<forall>n. zeros n = replicate n 0)"

lemma good_preamble_parts:
  assumes "good_preamble zeros sizes"
  obtains n pad where "preamble zeros pw sizes = pw @ put_u16 n @ pad" "length pad = unat n"
proof -
  let ?l = "padding_len sizes"
  have "uint (word_of_int ?l :: u16) = ?l"
    using assms by (simp add: good_preamble_def uint_word_of_int_eq take_bit_int_eq_self)
  then have "unat (word_of_int ?l :: u16) = nat ?l" by (simp only: unat_eq_nat_uint)
  moreover have "(if ?l > 0 then zeros (nat ?l) else []) = replicate (nat ?l) 0"
    using assms by (auto simp: good_preamble_def)
  ultimately show ?thesis
    by (intro that [of "word_of_int ?l" "replicate (nat ?l) 0"]) (simp_all add: preamble_def Let_def)
qed

lemma read_cut_preamble:
  assumes "good_preamble zeros sizes" and "Authenticate tbl pw = Some u" and "pre = preamble zeros pw sizes"
  shows "read_preamble take_bytes (Authenticate tbl) (take k (pre @ flight)) =
    (if k < length pre then None else Some (u, take (k - length pre) flight))"
proof -
  obtain n pad where p: "pre = pw @ put_u16 n @ pad" "length pad = unat n"
    using good_preamble_parts [OF assms(1)] assms(3) by blast
  have len: "length pw = 32" using cs.auth_length [OF assms(2)] .
  show ?thesis
  proof (cases "k < length pre")
    case True
    have False if r: "read_preamble take_bytes (Authenticate tbl) (take k (pre @ flight)) = Some (u', rest)" for u' rest
    proof -
      from r obtain h n' pad' where b: "take k (pre @ flight) = h @ put_u16 n' @ pad' @ rest"
        "Authenticate tbl h = Some u'" "length pad' = unat n'"
        unfolding cs.read_preamble_iff by blast
      have h: "length h = 32" using cs.auth_length [OF b(2)] .
      have l2: "length (put_u16 m) = 2" for m by (simp add: put_u16_def)
      have "length (take k (pre @ flight)) = k" using True by (simp add: min_def)
      moreover have "length (h @ put_u16 n' @ pad' @ rest) = 34 + unat n' + length rest" using b(3) h l2 by simp
      ultimately have k: "34 + unat n' + length rest = k" by (simp only: b(1))
      have "take 34 (take k (pre @ flight)) = pw @ put_u16 n"
        using p(1) len l2 k by (simp add: min_def)
      moreover have "take 34 (take k (pre @ flight)) = h @ put_u16 n'"
        using b(1) h l2 by simp
      ultimately have "put_u16 n = put_u16 n'" using len h by (metis append_eq_append_conv)
      then have "n = n'" using get_put_u16 [of n "[]"] get_put_u16 [of n' "[]"] by simp
      with k True p len l2 show False by simp
    qed
    with True show ?thesis by (metis not_None_eq surj_pair)
  next
    case False
    then have "take k (pre @ flight) = pw @ put_u16 n @ pad @ take (k - length pre) flight"
      using p(1) by simp
    with assms(2) p(2) have "read_preamble take_bytes (Authenticate tbl) (take k (pre @ flight))
        = Some (u, take (k - length pre) flight)"
      unfolding cs.read_preamble_iff by blast
    with False show ?thesis by simp
  qed
qed

section \<open>Claims\<close>

text \<open>C1: From the dialling of a client to the data in a stream of the server, for every way the network
  may cut what the client sends: the client announces itself with the preamble and lets the first
  flight of its session follow; if the server's first read ends within the preamble, the connection
  goes to the fallback and counts as a failed attempt of its address, right password or not; if it
  ends after it, wherever, the user is served, and the session that reads on accepts one stream,
  which holds exactly the client's data.\<close>

theorem dial_to_stream:
  assumes client: "rand_ok rnd" "scheme_bounded p" "no_failure cc" "c_out cc = []"
    and server: "rand_ok (e_rnd E)" "scheme_bounded q" "no_failure sc" "c_out sc = []"
    and order: "reorders order" "CHR ''\<newline>'' \<notin> set (Md5 p)"
    and buf: "buf = ToBytes (order (client_settings (NewClientSession cc p)))" "length buf < 2 ^ 16"
    and d: "length d < 2 ^ 16"
    and out: "createOutboundConnection zeros rnd0 p0 pw True accepts = Announced pre"
      "good_preamble zeros (GenerateRecordPayloadSizes rnd0 p0 0)"
    and v: "read_bytes_ok ReadBytes" "Authenticate (users v) pw = Some u" "device_allowed v alive u"
      "\<not> snd (IsBanned ip now (connLimiter v))"
  shows "\<exists>c2 c3 flight. OpenStream rnd (Run_client rnd order (NewClientSession cc p)) = (c2, Inr 0)
    \<and> stream_Write rnd c2 0 d = (c3, length d, None) \<and> flight = sent (conn c3)
    \<and> (\<forall>k. case handle_start ReadBytes ip now later (Some (take k (pre @ flight))) alive v of (v', r) \<Rightarrow>
         (k < length pre \<longrightarrow> r = FellBack (take k pre)
            \<and> connLimiter v' = RecordFailure ip later (fst (IsBanned ip now (connLimiter v))))
         \<and> (length pre \<le> k \<longrightarrow>
            (\<exists>rest l s' st. r = Served u rest l
               \<and> recvLoop E (NewServerSession sc True q) (rest @ drop k (pre @ flight)) = (s', Some EOF)
               \<and> accepted s' = [0] \<and> objs s' 0 = Some st \<and> st_id st = 1 \<and> p_delivered (st_pipe st) = d)))"
proof -
  have pre: "pre = preamble zeros pw (GenerateRecordPayloadSizes rnd0 p0 0)"
    using out(1) by (auto simp: createOutboundConnection_def Let_def split: if_splits)
  obtain c2 c3 s' st where run: "OpenStream rnd (Run_client rnd order (NewClientSession cc p)) = (c2, Inr 0)"
    "stream_Write rnd c2 0 d = (c3, length d, None)"
    "recvLoop E (NewServerSession sc True q) (sent (conn c3)) = (s', Some EOF)"
    "accepted s' = [0]" "objs s' 0 = Some st" "st_id st = 1" "p_delivered (st_pipe st) = d"
    using first_flight_run [OF client server order buf d, of True] by blast
  let ?flight = "sent (conn c3)"
  have tb: "ReadBytes = take_bytes" using v(1) by (simp add: read_bytes_take)
  note cut = read_cut_preamble [OF out(2) v(2) pre, where flight = ?flight]
  have "case handle_start ReadBytes ip now later (Some (take k (pre @ ?flight))) alive v of (v', r) \<Rightarrow>
         (k < length pre \<longrightarrow> r = FellBack (take k pre)
            \<and> connLimiter v' = RecordFailure ip later (fst (IsBanned ip now (connLimiter v))))
         \<and> (length pre \<le> k \<longrightarrow>
            (\<exists>rest l s' st. r = Served u rest l
               \<and> recvLoop E (NewServerSession sc True q) (rest @ drop k (pre @ ?flight)) = (s', Some EOF)
               \<and> accepted s' = [0] \<and> objs s' 0 = Some st \<and> st_id st = 1 \<and> p_delivered (st_pipe st) = d))" for k
  proof (cases "k < length pre")
    case True
    with cut [of k] handle_start_refuses [OF v(4), of ReadBytes "take k (pre @ ?flight)" later alive]
    show ?thesis by (simp add: tb)
  next
    case False
    then have "read_preamble ReadBytes (Authenticate (users v)) (take k (pre @ ?flight))
        = Some (u, take (k - length pre) ?flight)"
      using cut [of k] by (simp add: tb)
    from handle_start_serves [OF v(4) this v(3), of later] obtain v' l where
      h: "handle_start ReadBytes ip now later (Some (take k (pre @ ?flight))) alive v
        = (v', Served u (take (k - length pre) ?flight) l)" by blast
    have "take (k - length pre) ?flight @ drop k (pre @ ?flight) = ?flight" using False by simp
    with run(3-7) show ?thesis unfolding h using False by auto
  qed
  with run(1,2) show ?thesis by blast
qed

theorem dial_to_stream_witness:
  "\<exists>c2 c3 sent_bytes rest l s' st. stream_Write (\<lambda>_ _ _. 0) c2 0 [1, 2, 3] = (c3, 3, None)
    \<and> sent_bytes = preamble (\<lambda>n. replicate n 0) (replicate 32 7) [] @ sent (conn c3)
    \<and> snd (handle_start take_bytes ''1.2.3.4'' 5 6 (Some (take 33 sent_bytes)) (Inl NetworkError) sample_parts)
        = FellBack (replicate 32 7 @ [0])
    \<and> snd (handle_start take_bytes ''1.2.3.4'' 5 6 (Some (take 40 sent_bytes)) (Inl NetworkError) sample_parts)
        = Served (mk_entry (\<lambda>b. replicate 32 7) (hd sample_users)) rest l
    \<and> recvLoop sample_env (NewServerSession sample_conn True sample_factory) (rest @ drop 40 sent_bytes) = (s', Some EOF)
    \<and> objs s' 0 = Some st \<and> p_delivered (st_pipe st) = [1, 2, 3]"
proof -
  have r: "rand_ok (e_rnd sample_env)" by (simp add: sample_env_def rand_ok_zero)
  have c: "c_out sample_conn = []" by (simp add: sample_conn_def)
  have m: "CHR ''\<newline>'' \<notin> set (Md5 sample_factory)" by (simp add: sample_factory_def)
  have o: "reorders (\<lambda>m. m)" by (simp add: reorders_def)
  have l: "length (ToBytes (client_settings (NewClientSession sample_conn sample_factory))) < 2 ^ 16"
    by (simp add: client_settings_def ToBytes_def ProgramVersionName_def NewClientSession_def
        sample_factory_def)
  have d: "length ([1, 2, 3] :: bytes) < 2 ^ 16" by simp
  let ?zeros = "\<lambda>n. replicate n (0 :: byte)" and ?pw = "replicate 32 7 :: bytes"
  let ?pre = "preamble ?zeros ?pw []"
  have g: "GenerateRecordPayloadSizes (\<lambda>_ _ _. 0) no_padding 0 = []" by code_simp
  then have a: "createOutboundConnection ?zeros (\<lambda>_ _ _. 0) no_padding ?pw True (\<lambda>_. True) = Announced ?pre"
    "good_preamble ?zeros (GenerateRecordPayloadSizes (\<lambda>_ _ _. 0) no_padding 0)"
    by (simp_all add: createOutboundConnection_def good_preamble_def padding_len_def)
  have u: "Authenticate (users sample_parts) ?pw = Some (mk_entry (\<lambda>b. replicate 32 7) (hd sample_users))"
    "device_allowed sample_parts (Inl NetworkError) (mk_entry (\<lambda>b. replicate 32 7) (hd sample_users))"
    "\<not> snd (IsBanned ''1.2.3.4'' 5 (connLimiter sample_parts))"
    using sample_table_auth
    by (simp_all add: sample_parts_def device_allowed_def NewConnRateLimiter_def IsBanned_def)
  have len: "length ?pre = 34" by (simp add: preamble_def padding_len_def put_u16_def)
  from dial_to_stream [OF rand_ok_zero sample_bounded sample_client_simps(7) c r sample_bounded
      sample_client_simps(7) c o m refl l d a take_bytes_ok u, of 6]
  obtain c2 c3 where w: "stream_Write (\<lambda>_ _ _. 0) c2 0 [1, 2, 3] = (c3, length [1, 2, 3 :: byte], None)"
    and all: "\<forall>k. case handle_start take_bytes ''1.2.3.4'' 5 6 (Some (take k (?pre @ sent (conn c3)))) (Inl NetworkError) sample_parts of
        (v', r) \<Rightarrow> (k < length ?pre \<longrightarrow> r = FellBack (take k ?pre)
            \<and> connLimiter v' = RecordFailure ''1.2.3.4'' 6 (fst (IsBanned ''1.2.3.4'' 5 (connLimiter sample_parts))))
         \<and> (length ?pre \<le> k \<longrightarrow> (\<exists>rest l s' st. r = Served (mk_entry (\<lambda>b. replicate 32 7) (hd sample_users)) rest l
               \<and> recvLoop sample_env (NewServerSession sample_conn True sample_factory)
                   (rest @ drop k (?pre @ sent (conn c3))) = (s', Some EOF)
               \<and> accepted s' = [0] \<and> objs s' 0 = Some st \<and> st_id st = 1 \<and> p_delivered (st_pipe st) = [1, 2, 3]))"
    by blast
  have first: "take 33 ?pre = replicate 32 7 @ [0]"
    by (simp add: preamble_def padding_len_def put_u16_def)
  from all [rule_format, of 33] have "snd (handle_start take_bytes ''1.2.3.4'' 5 6
      (Some (take 33 (?pre @ sent (conn c3)))) (Inl NetworkError) sample_parts) = FellBack (replicate 32 7 @ [0])"
    unfolding len first by (auto split: prod.splits)
  moreover from all [rule_format, of 40] obtain rest l' s' st where
    "snd (handle_start take_bytes ''1.2.3.4'' 5 6 (Some (take 40 (?pre @ sent (conn c3)))) (Inl NetworkError) sample_parts)
        = Served (mk_entry (\<lambda>b. replicate 32 7) (hd sample_users)) rest l'"
    "recvLoop sample_env (NewServerSession sample_conn True sample_factory)
       (rest @ drop 40 (?pre @ sent (conn c3))) = (s', Some EOF)"
    "objs s' 0 = Some st" "p_delivered (st_pipe st) = [1, 2, 3]"
    unfolding len by (auto split: prod.splits)
  ultimately show ?thesis using w
    by (intro exI [of _ c2] exI [of _ c3] exI [of _ "?pre @ sent (conn c3)"] exI [of _ rest] exI [of _ l']
        exI [of _ s'] exI [of _ st]) simp
qed

end
