(* ===== verification/Spec2Isabelle.thy ===== *)
theory Spec2Isabelle
  imports EndToEnd Relay WireTyped PipeCalls Launch PanelRequest Devices Connection
begin

text \<open>
  A verification development for the AnyTLS proxy in Go: the client and the server of a protocol that
  carries many streams in one TLS connection and pads what it writes, with a server that takes its
  users from a panel and reports their traffic to it.

  \<^bold>\<open>The parts and how they interact.\<close> A client asks its pool of sessions for a stream
  (\<^verbatim>\<open>proxy/session/client.go\<close>). A new session starts with the preamble
  (\<^verbatim>\<open>cmd/client/myclient.go\<close>), which the server's connection handler reads and checks
  against its users, limits and bans (\<^verbatim>\<open>internal/server/handler.go\<close>). Both sides then run
  the session (\<^verbatim>\<open>proxy/session/session.go\<close>): streams write frames through \<open>writeConn\<close>,
  which cuts and pads them by the scheme of \<^verbatim>\<open>proxy/padding\<close>; \<open>recvLoop\<close> takes the frames
  of the peer apart and feeds the streams' pipes (\<^verbatim>\<open>proxy/pipe\<close>). The server counts the
  bytes of each user, and its sync loop pulls users and configuration and pushes traffic.

  \<^bold>\<open>The theories.\<close>
  \<^item> \<open>Prelude\<close>, \<open>Frame\<close>, \<open>GoStrings\<close>, \<open>StringMap\<close>: bytes, Go's fixed-width integers and string functions,
    the frame format (\<^verbatim>\<open>frame.go\<close>) and the settings' map (\<^verbatim>\<open>util/string_map.go\<close>).
  \<^item> \<open>Padding\<close>: the parser of schemes and the sizes of a packet. MD5 and the random source are
    parameters.
  \<^item> \<open>Pipe\<close>, \<open>Deadline\<close>, \<open>PipeRun\<close>: the pipe's shared state, its deadlines as a state machine with the
    runtime's timer, and the blocking \<open>read\<close> and \<open>write\<close> as processes that meet on the two channels.
    \<open>pipe_run\<close> is one pipe with any number of calls; a step is one select, one meeting, one closing,
    one \<open>Set\<close>, or one event of a timer. The session theories use the pipe with a reader that takes
    what is offered (\<open>pipe_Write\<close>); \<open>PipeCalls\<close> shows that the processes can do just that.
  \<^item> \<open>Wire\<close>, \<open>Session\<close>, \<open>RecvLoop\<close>: the records \<open>session\<close> and \<open>stream\<close> (streams live in a store, since the
    code shares pointers to them), one definition per method and per command of the receive loop, with the
    watcher of \<^verbatim>\<open>util/deadline.go\<close>.
  \<^item> \<open>Lifecycle\<close>, \<open>Protocol\<close>, \<open>EndToEnd\<close>: reachable states of a session under every interleaving of its
    operations, what each frame does, and client and server together.
  \<^item> \<open>Connection\<close>: the client's dialling and the server's admission and session put together.
  \<^item> \<open>WireTyped\<close>: which commands a session of each role may send, as a type of its output that every
    operation and every round of the receive loop keeps.
  \<^item> \<open>Relay\<close>: what the server does with an accepted stream (\<^verbatim>\<open>handler.go\<close>): dial, report,
    copy, close. Dialling and copying are parameters; a copy may do any operations on the session.
  \<^item> \<open>Pool\<close>, \<open>ClientProgram\<close>: the client's pool, the skip list being a parameter with the behaviour of an
    ordered map; the proxies of the client's program over it, \<^verbatim>\<open>util/routine.go\<close>, and the program
    itself (\<^verbatim>\<open>cmd/client\<close>): its set-up, its accept loop, the connections it makes.
  \<^item> \<open>Urls\<close>, \<open>PanelRequest\<close>: the part of \<^verbatim>\<open>net/url\<close> the programs use, and the requests to the panel.
  \<^item> \<open>ConnLimiter\<close>, \<open>SpeedLimiter\<close>, \<open>Traffic\<close>, \<open>Users\<close>, \<open>Alive\<close>, \<open>Config\<close>: the parts of the server under
    \<^verbatim>\<open>internal\<close>, one theory each; times are integers (nanoseconds), \<open>int64\<close> counts wrap.
  \<^item> \<open>Api\<close>: the panel's client over a panel that is a parameter; \<open>Handler\<close>: the preamble and the admission
    of a connection; \<open>Devices\<close>: connections coming and going, and what is reported about them; \<open>SysInfo\<close>:
    the load of the machine; \<open>Sync\<close>: the cycles, the start, the shutdown; \<open>Accounts\<close>: where traffic is while they
    run beside the connections; \<open>Logging\<close>, \<open>Certificate\<close>: the server's log and its certificate;
    \<open>Startup\<close>, \<open>Launch\<close>: how both programs come up, the server's program as a whole, and the link it
    prints for a client.

  \<^bold>\<open>Interfaces.\<close> \<open>failure_guard\<close> (what the handler needs of the ban list), \<open>credential_store\<close> (what the
  preamble's reader needs of the users) and \<open>ledger\<close> (what the push cycle needs of a counter) are locales;
  each is interpreted on the code's own model, \<open>ledger\<close> twice: on the counter of amounts and on the counter
  with shared entries. \<open>typed_writer\<close> is the write path over a set of commands, interpreted for the client's
  and for the server's.

  \<^bold>\<open>What the lemmas show.\<close> A connection that is dialled is served, unless the server's first read ends within
  its preamble, and its first stream holds what was written to it. Data that is written arrives unchanged and in order, through cutting, padding
  and demultiplexing; a closed session is silent; padding hides the contents of a packet; store, registry
  and closed state agree in every reachable state; only whole frames of its role's commands leave a session, and
  its receive loop returns on every input. The pipe is first in, first out under every
  interleaving, a closed pipe comes to rest only when all its calls have returned, and the one-step write
  of the session theories is a run of its calls. A stream is closed
  however its relay ends, and an error of the server's dialling is the error of the client's stream. No session of the pool serves two callers.
  An address is banned for eleven failures of its own and for nothing else. Traffic is in the counter, in a report
  under way or with the panel, and nowhere else; the file gives it back after a restart. What is escaped in a request or a link is
  read back. Some
  properties say what goes wrong: a scheme that locks its clients out, an address that cannot be
  listened on, a password that a link locks out, a device reported offline while it is connected, traffic
  lost in a race and in a shutdown.

  \<^bold>\<open>Bounds.\<close> The recursions are structural, or on lengths that shrink: \<open>recv_iter\<close> consumes a header in every
  turn. No definition of the code runs on fuel; \<open>recv_rounds\<close>, the receive loop with a bound, is shown to give the
  loop's result with one round more than headers fit the input. Traffic is exact while a user's total is below \<open>2 ^ 63\<close>, sequence
  numbers of sessions are unique for fewer than \<open>2 ^ 64\<close> events, and frames carry less than \<open>2 ^ 16\<close> bytes, where
  a statement says so.

  \<^bold>\<open>Not modelled.\<close> TLS, SOCKS and HTTP, and the copying between connections (calls into
  \<^verbatim>\<open>crypto/tls\<close> and the sing library, which appear by their outcomes); the transport of
  HTTP requests, JSON and YAML beyond their results (and the one number JSON has not); the addresses of a
  stream, which are its connection's; the token bucket of \<^verbatim>\<open>x/time/rate\<close>, of which only
  the settings are kept; what is written to the log and to the terminal, but for the link; keys and
  signatures. The measurements of the machine, the parsing of log levels and the file system are
  parameters. The locks appear as the granularity of the steps.
\<close>

end
